(* ===== verification/Sponge_Prelude.thy ===== *)
theory Sponge_Prelude
  imports Main "HOL-Library.Word"
begin

text \<open>
  Shared vocabulary of the development: the fixed-width integer types of the C++ code
  (\<open>size_t\<close> is the 64-bit unsigned type of the supported platforms), byte strings, and
  the lemmas that carry unsigned words to natural numbers when no operation wraps around.
  The collection \<open>unat_simps\<close> holds these bridges.
\<close>

unbundle bit_operations_syntax

type_synonym u8 = "8 word"
type_synonym u16 = "16 word"
type_synonym u32 = "32 word"
type_synonym u64 = "64 word"
type_synonym byte = "8 word"
type_synonym bytes = "8 word list"

named_theorems unat_simps \<open>unsigned words read as natural numbers\<close>

text \<open>\<open>std::string::size\<close>, \<open>std::vector::size\<close>: the length as a \<open>size_t\<close>.\<close>

definition size64 :: "'a list \<Rightarrow> u64" where
  "size64 xs = of_nat (length xs)"

subsection \<open>Words as natural numbers\<close>

lemma unat_u64_less: "unat (x :: u64) < 2 ^ 64"
  using unsigned_less [of x] by simp

lemma unat_u32_less: "unat (x :: u32) < 2 ^ 32"
  using unsigned_less [of x] by simp

lemma unat_u16_less: "unat (x :: u16) < 2 ^ 16"
  using unsigned_less [of x] by simp

lemma unat_u8_less: "unat (x :: u8) < 2 ^ 8"
  using unsigned_less [of x] by simp

lemmas unat_bounds = unat_u64_less unat_u32_less unat_u16_less unat_u8_less

lemma unat_add_no_wrap [unat_simps]:
  fixes x y :: "'a :: len word"
  assumes "unat x + unat y < 2 ^ LENGTH('a)"
  shows "unat (x + y) = unat x + unat y"
  using assms by (simp add: unat_word_ariths)

lemma unat_sub_no_wrap [unat_simps]:
  fixes x y :: "'a :: len word"
  assumes "unat y \<le> unat x"
  shows "unat (x - y) = unat x - unat y"
  using assms by (simp add: unat_sub word_le_nat_alt)

lemma unat_size64 [unat_simps]: "length xs < 2 ^ 64 \<Longrightarrow> unat (size64 xs) = length xs"
  by (simp add: size64_def unat_of_nat)

lemma unat_min [unat_simps]: "unat (min x y) = min (unat x) (unat y)"
  for x y :: "'a :: len word"
  by (simp add: min_def word_le_nat_alt)

lemma unat_max [unat_simps]: "unat (max x y) = max (unat x) (unat y)"
  for x y :: "'a :: len word"
  by (simp add: max_def word_le_nat_alt)

lemma size64_Nil [simp]: "size64 [] = 0"
  by (simp add: size64_def)

lemma word_eq_unat_iff: "x = y \<longleftrightarrow> unat x = unat y"
  for x y :: "'a :: len word"
  by (auto simp: word_unat_eq_iff)

lemma unat_ucast_mod: "unat (ucast (x :: 'a :: len word) :: 'b :: len word) = unat x mod 2 ^ LENGTH('b)"
  by (simp add: unsigned_ucast_eq take_bit_eq_mod)

lemma word_of_int_sint: "word_of_int (sint w) = w" for w :: "'a :: len word"
  by simp

lemma ucast_u64_of_int: "(ucast (word_of_int k :: u64) :: u32) = word_of_int k"
  by (simp add: word_of_int_eq_iff unsigned_of_int take_bit_take_bit)

subsection \<open>Lists\<close>

lemma map_upt_append: "i \<le> j \<Longrightarrow> j \<le> k \<Longrightarrow> map f [i..<j] @ map f [j..<k] = map f [i..<k]"
  by (metis le_add_diff_inverse map_append upt_add_eq_append)

end
