(* ===== verification/Byte_Stream.thy ===== *)
theory Byte_Stream
  imports Sponge_Prelude
begin

text \<open>
  The in-order byte stream of \<open>libsponge/byte_stream.hh\<close> and \<open>byte_stream.cc\<close>: a ring
  buffer with a writer end and a reader end. The record has the class's data members; every
  \<open>size_t\<close> is a 64-bit word, so that additions and subtractions wrap as in C++.
  \<open>pop_output\<close> divides by the capacity, so it returns \<^const>\<open>None\<close> when the capacity is
  zero (a division trap), and so does \<open>read\<close>.

  The abstract view of a stream is the list of bytes written and not yet popped. The locale
  \<open>byte_queue\<close> states what the clients (the reassembler, the sender, the socket) rely on.
\<close>

record byte_stream =
  done_writing :: bool
  bs_buffer :: bytes
  data_begin :: u64
  n_bytes_read :: u64
  n_bytes_written :: u64
  cur_size :: u64
  max_capacity :: u64
  stream_error :: bool

subsection \<open>Operations\<close>

definition bs_new :: "u64 \<Rightarrow> byte_stream" where
  "bs_new capacity = \<lparr>
     done_writing = False,
     bs_buffer = replicate (unat capacity) 0,
     data_begin = 0,
     n_bytes_read = 0,
     n_bytes_written = 0,
     cur_size = 0,
     max_capacity = capacity,
     stream_error = False\<rparr>"

definition remaining_capacity :: "byte_stream \<Rightarrow> u64" where
  "remaining_capacity s = max_capacity s - cur_size s"

definition bs_write :: "bytes \<Rightarrow> byte_stream \<Rightarrow> u64 \<times> byte_stream" where
  "bs_write data s =
     (let n_bytes_to_write = min (size64 data) (remaining_capacity s);
          buf = fold (\<lambda>i b. b[unat ((data_begin s + cur_size s + of_nat i) mod max_capacity s) := data ! i])
                  [0..<unat n_bytes_to_write] (bs_buffer s)
      in (n_bytes_to_write,
          s\<lparr>bs_buffer := buf,
            n_bytes_written := n_bytes_written s + n_bytes_to_write,
            cur_size := cur_size s + n_bytes_to_write\<rparr>))"

definition peek_output :: "u64 \<Rightarrow> byte_stream \<Rightarrow> bytes" where
  "peek_output len s =
     (let len_ret = min len (cur_size s)
      in if data_begin s + len_ret \<le> max_capacity s
         then take (unat len_ret) (drop (unat (data_begin s)) (bs_buffer s))
         else drop (unat (data_begin s)) (bs_buffer s) @
              take (unat ((data_begin s + len_ret) mod max_capacity s)) (bs_buffer s))"

definition pop_output :: "u64 \<Rightarrow> byte_stream \<Rightarrow> byte_stream option" where
  "pop_output len s =
     (if max_capacity s = 0 then None
      else Some (s\<lparr>data_begin := (data_begin s + len) mod max_capacity s,
                   n_bytes_read := n_bytes_read s + min len (cur_size s),
                   cur_size := max 0 (cur_size s - len)\<rparr>))"

definition bs_read :: "u64 \<Rightarrow> byte_stream \<Rightarrow> (bytes \<times> byte_stream) option" where
  "bs_read len s =
     (let ret = peek_output len s
      in case pop_output (size64 ret) s of None \<Rightarrow> None | Some s' \<Rightarrow> Some (ret, s'))"

definition end_input :: "byte_stream \<Rightarrow> byte_stream" where
  "end_input s = s\<lparr>done_writing := True\<rparr>"

definition set_error :: "byte_stream \<Rightarrow> byte_stream" where
  "set_error s = s\<lparr>stream_error := True\<rparr>"

definition input_ended :: "byte_stream \<Rightarrow> bool" where
  "input_ended s = done_writing s"

definition bs_error :: "byte_stream \<Rightarrow> bool" where
  "bs_error s = stream_error s"

definition buffer_size :: "byte_stream \<Rightarrow> u64" where
  "buffer_size s = cur_size s"

definition buffer_empty :: "byte_stream \<Rightarrow> bool" where
  "buffer_empty s \<longleftrightarrow> cur_size s = 0"

definition bs_eof :: "byte_stream \<Rightarrow> bool" where
  "bs_eof s \<longleftrightarrow> input_ended s \<and> buffer_empty s"

definition bytes_written :: "byte_stream \<Rightarrow> u64" where
  "bytes_written s = n_bytes_written s"

definition bytes_read :: "byte_stream \<Rightarrow> u64" where
  "bytes_read s = n_bytes_read s"

lemmas bs_accessor_defs =
  input_ended_def bs_error_def buffer_size_def buffer_empty_def bs_eof_def bytes_written_def
  bytes_read_def remaining_capacity_def

subsection \<open>Invariant and abstract view\<close>

text \<open>The bound on the capacity is the one \<open>std::vector<char>\<close> enforces when the buffer is
  allocated.\<close>

definition bs_inv :: "byte_stream \<Rightarrow> bool" where
  "bs_inv s \<longleftrightarrow>
     length (bs_buffer s) = unat (max_capacity s) \<and> unat (max_capacity s) < 2 ^ 63 \<and>
     (if max_capacity s = 0 then data_begin s = 0 else data_begin s < max_capacity s) \<and>
     cur_size s \<le> max_capacity s \<and>
     n_bytes_written s = n_bytes_read s + cur_size s"

definition bs_view :: "byte_stream \<Rightarrow> bytes" where
  "bs_view s = map (\<lambda>i. bs_buffer s ! ((unat (data_begin s) + i) mod unat (max_capacity s)))
     [0..<unat (cur_size s)]"

definition bs_cap :: "byte_stream \<Rightarrow> nat" where
  "bs_cap s = unat (max_capacity s)"

subsection \<open>Ring positions\<close>

lemma mod_window_inj:
  fixes b i j c :: nat
  assumes "(b + i) mod c = (b + j) mod c" and "i < c" and "j < c"
  shows "i = j"
proof -
  have le: "x = y" if "x \<le> y" "y < c" "(b + x) mod c = (b + y) mod c" for x y
  proof -
    have "c dvd (b + y) - (b + x)" using that by (metis mod_eq_dvd_iff_nat add_left_mono)
    then show ?thesis using that by (auto dest: dvd_imp_le)
  qed
  show ?thesis using le [of i j] le [of j i] assms by (metis nat_le_linear)
qed

lemma mod_wrap_once: "c \<le> x \<Longrightarrow> x < 2 * c \<Longrightarrow> x mod c = x - c" for x c :: nat
  by (simp add: le_mod_geq)

definition ring_write :: "bytes \<Rightarrow> nat \<Rightarrow> nat \<Rightarrow> bytes \<Rightarrow> nat \<Rightarrow> bytes" where
  "ring_write buf b c data n = fold (\<lambda>i xs. xs[(b + i) mod c := data ! i]) [0..<n] buf"

lemma length_ring_write [simp]: "length (ring_write buf b c data n) = length buf"
  by (induction n) (simp_all add: ring_write_def)

lemma ring_write_Suc:
  "ring_write buf b c data (Suc n) = (ring_write buf b c data n)[(b + n) mod c := data ! n]"
  by (simp add: ring_write_def)

lemma ring_write_other:
  assumes "\<forall>j < n. p \<noteq> (b + j) mod c"
  shows "ring_write buf b c data n ! p = buf ! p"
  using assms
proof (induction n)
  case 0
  then show ?case by (simp add: ring_write_def)
next
  case (Suc n)
  then have "(b + n) mod c \<noteq> p" by auto
  with Suc show ?case by (simp add: ring_write_Suc)
qed

lemma ring_write_hit:
  assumes "length buf = c" and "n \<le> c" and "j < n"
  shows "ring_write buf b c data n ! ((b + j) mod c) = data ! j"
  using assms
proof (induction n)
  case 0
  then show ?case by simp
next
  case (Suc n)
  show ?case
  proof (cases "j = n")
    case True
    with Suc.prems show ?thesis by (simp add: ring_write_Suc)
  next
    case False
    with Suc.prems have "(b + j) mod c \<noteq> (b + n) mod c"
      using mod_window_inj [of b j c n] by auto
    with Suc False show ?thesis by (simp add: ring_write_Suc)
  qed
qed

subsection \<open>Behaviour of the operations on the view\<close>

lemma length_bs_view [simp]: "length (bs_view s) = unat (cur_size s)"
  by (simp add: bs_view_def)

lemma bs_inv_new: "unat c < 2 ^ 63 \<Longrightarrow> bs_inv (bs_new c)"
  by (simp add: bs_inv_def bs_new_def word_less_nat_alt unat_gt_0)

lemma bs_view_new [simp]: "bs_view (bs_new c) = []"
  by (simp add: bs_view_def bs_new_def)

lemma bs_invD:
  assumes "bs_inv s"
  shows "length (bs_buffer s) = bs_cap s" and "bs_cap s < 2 ^ 63" and "unat (cur_size s) \<le> bs_cap s"
    and "0 < bs_cap s \<Longrightarrow> unat (data_begin s) < bs_cap s"
    and "unat (data_begin s) \<le> bs_cap s"
    and "unat (remaining_capacity s) = bs_cap s - unat (cur_size s)"
  using assms
  by (auto simp: bs_inv_def bs_cap_def word_le_nat_alt word_less_nat_alt unat_gt_0
      remaining_capacity_def unat_simps split: if_splits)

lemma write_position:
  assumes "bs_inv s" and "i < bs_cap s - unat (cur_size s)"
  shows "unat ((data_begin s + cur_size s + of_nat i) mod max_capacity s) =
    (unat (data_begin s) + unat (cur_size s) + i) mod bs_cap s"
proof -
  note inv = bs_invD [OF assms(1)]
  have i: "unat (of_nat i :: u64) = i" using assms inv by (simp add: unat_of_nat)
  have "unat (data_begin s + cur_size s) = unat (data_begin s) + unat (cur_size s)"
    using assms inv by (intro unat_add_no_wrap) simp
  then show ?thesis
    using assms inv i by (simp add: unat_mod unat_add_no_wrap bs_cap_def)
qed

lemma bs_write_buffer:
  assumes "bs_inv s" and "n \<le> bs_cap s - unat (cur_size s)"
  shows "fold (\<lambda>i b. b[unat ((data_begin s + cur_size s + of_nat i) mod max_capacity s) := data ! i])
      [0..<n] (bs_buffer s) =
    ring_write (bs_buffer s) (unat (data_begin s) + unat (cur_size s)) (bs_cap s) data n"
  unfolding ring_write_def
  using assms by (intro fold_cong) (auto simp: write_position)

lemma bs_write_count:
  assumes "bs_inv s" and "length data < 2 ^ 64"
  shows "unat (fst (bs_write data s)) = min (length data) (bs_cap s - unat (cur_size s))"
  using bs_invD [OF assms(1)] assms(2) by (simp add: bs_write_def Let_def unat_simps)

lemma bs_view_write:
  assumes inv: "bs_inv s" and len: "length data < 2 ^ 64"
  shows "bs_view (snd (bs_write data s)) = bs_view s @ take (bs_cap s - unat (cur_size s)) data"
proof -
  define n where "n = min (length data) (bs_cap s - unat (cur_size s))"
  note I = bs_invD [OF inv]
  let ?b = "unat (data_begin s)" and ?k = "unat (cur_size s)" and ?c = "bs_cap s"
  let ?s = "snd (bs_write data s)"
  have cnt: "unat (min (size64 data) (remaining_capacity s)) = n"
    using bs_write_count [OF inv len] by (simp add: bs_write_def Let_def n_def)
  have buf: "bs_buffer ?s = ring_write (bs_buffer s) (?b + ?k) ?c data n"
    using bs_write_buffer [OF inv, of n data] by (simp add: bs_write_def Let_def cnt n_def)
  have cur: "unat (cur_size ?s) = ?k + n"
    using I cnt n_def by (simp add: bs_write_def Let_def unat_simps)
  have old: "bs_buffer ?s ! ((?b + i) mod ?c) = bs_buffer s ! ((?b + i) mod ?c)" if "i < ?k" for i
    unfolding buf
  proof (rule ring_write_other, intro allI impI)
    fix j assume "j < n"
    then have "?k + j < ?c" "i < ?c" "i \<noteq> ?k + j" using that n_def by auto
    then show "(?b + i) mod ?c \<noteq> (?b + ?k + j) mod ?c"
      using mod_window_inj [of ?b i ?c "?k + j"] by (auto simp: add.assoc)
  qed
  have new: "bs_buffer ?s ! ((?b + (?k + i)) mod ?c) = data ! i" if "i < n" for i
    unfolding buf using ring_write_hit [of "bs_buffer s" ?c n i "?b + ?k" data] that I n_def
    by (simp add: add.assoc)
  have frame: "data_begin ?s = data_begin s" "unat (max_capacity ?s) = ?c"
    by (simp_all add: bs_write_def Let_def bs_cap_def)
  show ?thesis
  proof (rule nth_equalityI)
    show "length (bs_view ?s) = length (bs_view s @ take (?c - ?k) data)"
      using cur n_def by simp
  next
    fix i assume "i < length (bs_view ?s)"
    then have i: "i < ?k + n" using cur by simp
    have at: "bs_view ?s ! i = bs_buffer ?s ! ((?b + i) mod ?c)"
      using i cur frame by (simp add: bs_view_def)
    show "bs_view ?s ! i = (bs_view s @ take (?c - ?k) data) ! i"
    proof (cases "i < ?k")
      case True
      then show ?thesis by (simp add: at old nth_append) (simp add: bs_view_def bs_cap_def)
    next
      case False
      with i have "i - ?k < n" by simp
      with new [OF this] False n_def show ?thesis by (simp add: at nth_append)
    qed
  qed
qed

lemma bs_inv_write:
  assumes inv: "bs_inv s" and len: "length data < 2 ^ 64"
  shows "bs_inv (snd (bs_write data s))"
proof -
  note I = bs_invD [OF inv]
  have "bs_inv s" by fact
  moreover have "length (bs_buffer (snd (bs_write data s))) = length (bs_buffer s)"
    using bs_write_buffer [OF inv] bs_write_count [OF inv len]
    by (simp add: bs_write_def Let_def)
  moreover have "unat (cur_size (snd (bs_write data s))) \<le> bs_cap s"
    using arg_cong [OF bs_view_write [OF inv len], of length] I by simp
  ultimately show ?thesis
    by (auto simp: bs_inv_def bs_write_def Let_def bs_cap_def word_le_nat_alt)
qed

lemma bs_write_frame [simp]:
  "done_writing (snd (bs_write data s)) = done_writing s"
  "n_bytes_read (snd (bs_write data s)) = n_bytes_read s"
  "max_capacity (snd (bs_write data s)) = max_capacity s"
  "stream_error (snd (bs_write data s)) = stream_error s"
  "n_bytes_written (snd (bs_write data s)) = n_bytes_written s + fst (bs_write data s)"
  by (simp_all add: bs_write_def Let_def)

lemma set_error_frame [simp]:
  "bs_inv (set_error s) = bs_inv s" "bs_view (set_error s) = bs_view s" "bs_cap (set_error s) = bs_cap s"
  "cur_size (set_error s) = cur_size s" "n_bytes_read (set_error s) = n_bytes_read s"
  "n_bytes_written (set_error s) = n_bytes_written s" "done_writing (set_error s) = done_writing s"
  "max_capacity (set_error s) = max_capacity s" "bs_eof (set_error s) = bs_eof s"
  "input_ended (set_error s) = input_ended s"
  by (simp_all add: set_error_def bs_inv_def bs_view_def bs_cap_def bs_eof_def buffer_empty_def input_ended_def)

lemma peek_output_view:
  assumes inv: "bs_inv s"
  shows "peek_output len s = take (unat len) (bs_view s)"
proof -
  note I = bs_invD [OF inv]
  define n where "n = min (unat len) (unat (cur_size s))"
  let ?b = "unat (data_begin s)" and ?c = "bs_cap s"
  have n: "unat (min len (cur_size s)) = n" by (simp add: n_def unat_simps)
  have "unat (data_begin s + min len (cur_size s)) = ?b + n"
    using I n n_def by (simp add: unat_simps)
  then have le: "data_begin s + min len (cur_size s) \<le> max_capacity s \<longleftrightarrow> ?b + n \<le> ?c"
    and mo: "unat ((data_begin s + min len (cur_size s)) mod max_capacity s) = (?b + n) mod ?c"
    by (simp_all add: word_le_nat_alt unat_mod bs_cap_def)
  have rhs: "take (unat len) (bs_view s) = map (\<lambda>i. bs_buffer s ! ((?b + i) mod ?c)) [0..<n]"
    by (rule nth_equalityI) (auto simp: bs_view_def n_def bs_cap_def)
  show ?thesis
  proof (cases "?b + n \<le> ?c")
    case True
    show ?thesis
      unfolding rhs peek_output_def Let_def using True le n I
      by (intro nth_equalityI) auto
  next
    case False
    have nc: "n \<le> ?c" using I n_def by simp
    with False I(5) have "0 < ?c" by linarith
    then have b: "?b < ?c" by (rule I(4))
    with False nc have mod: "(?b + n) mod ?c = ?b + n - ?c"
      by (intro mod_wrap_once) auto
    have "take (unat len) (bs_view s) ! i =
        (drop ?b (bs_buffer s) @ take (?b + n - ?c) (bs_buffer s)) ! i" if i: "i < n" for i
    proof (cases "i < ?c - ?b")
      case True
      with i I n_def show ?thesis by (simp add: rhs nth_append)
    next
      case False
      with i b nc have "(?b + i) mod ?c = ?b + i - ?c" "i - (?c - ?b) = ?b + i - ?c"
        by (auto intro!: mod_wrap_once)
      with i False I show ?thesis by (simp add: rhs nth_append)
    qed
    then have "take (unat len) (bs_view s) = drop ?b (bs_buffer s) @ take (?b + n - ?c) (bs_buffer s)"
      using False I n_def by (intro nth_equalityI) auto
    then show ?thesis
      using False le mo mod by (simp add: peek_output_def Let_def)
  qed
qed

lemma pop_output_view:
  assumes inv: "bs_inv s" and cap: "0 < bs_cap s" and len: "unat len \<le> unat (cur_size s)"
  shows "\<exists>s'. pop_output len s = Some s' \<and> bs_inv s' \<and> bs_view s' = drop (unat len) (bs_view s) \<and>
    n_bytes_read s' = n_bytes_read s + len \<and> cur_size s' = cur_size s - len \<and>
    n_bytes_written s' = n_bytes_written s \<and> done_writing s' = done_writing s \<and>
    max_capacity s' = max_capacity s \<and> stream_error s' = stream_error s"
proof -
  note I = bs_invD [OF inv]
  let ?s = "s\<lparr>data_begin := (data_begin s + len) mod max_capacity s,
      n_bytes_read := n_bytes_read s + min len (cur_size s),
      cur_size := max 0 (cur_size s - len)\<rparr>"
  have c: "max_capacity s \<noteq> 0" using cap by (auto simp: bs_cap_def)
  have mn: "min len (cur_size s) = len" using len by (simp add: min_def word_le_nat_alt)
  have mx: "max 0 (cur_size s - len) = cur_size s - len" by (simp add: max_def)
  have cur: "unat (cur_size s - len) = unat (cur_size s) - unat len"
    using len by (simp add: unat_simps)
  have dbl: "unat (data_begin s + len) = unat (data_begin s) + unat len"
    using I cap len by (intro unat_add_no_wrap) simp
  then have db: "unat ((data_begin s + len) mod max_capacity s) = (unat (data_begin s) + unat len) mod bs_cap s"
    by (simp add: unat_mod bs_cap_def)
  have view: "bs_view ?s = drop (unat len) (bs_view s)"
  proof (rule nth_equalityI)
    show "length (bs_view ?s) = length (drop (unat len) (bs_view s))"
      using cur mx by simp
  next
    fix i assume "i < length (bs_view ?s)"
    then have i: "i < unat (cur_size s) - unat len" using cur mx by simp
    then show "bs_view ?s ! i = drop (unat len) (bs_view s) ! i"
      using cur mx db by (simp add: bs_view_def bs_cap_def mod_simps add.assoc)
  qed
  have "bs_inv ?s"
    using inv c mn mx cur len
    by (auto simp: bs_inv_def word_le_nat_alt word_less_nat_alt unat_mod unat_gt_0)
  with view c mn mx show ?thesis
    by (auto simp: pop_output_def)
qed

lemma bs_read_view:
  assumes inv: "bs_inv s" and cap: "0 < bs_cap s"
  shows "\<exists>s'. bs_read len s = Some (take (unat len) (bs_view s), s') \<and> bs_inv s' \<and>
    bs_view s' = drop (unat len) (bs_view s) \<and>
    n_bytes_read s' = n_bytes_read s + min len (cur_size s) \<and>
    cur_size s' = cur_size s - min len (cur_size s) \<and>
    n_bytes_written s' = n_bytes_written s \<and> done_writing s' = done_writing s \<and>
    max_capacity s' = max_capacity s \<and> stream_error s' = stream_error s"
proof -
  have "length (take (unat len) (bs_view s)) = unat (min len (cur_size s))"
    by (simp add: unat_simps min.commute)
  then have size: "size64 (take (unat len) (bs_view s)) = min len (cur_size s)"
    by (simp only: size64_def of_nat_unat ucast_id)
  have le: "unat (min len (cur_size s)) \<le> unat (cur_size s)" by (simp add: unat_simps)
  have dr: "drop (unat (min len (cur_size s))) (bs_view s) = drop (unat len) (bs_view s)"
    by (simp add: unat_simps min_def word_le_nat_alt)
  from pop_output_view [OF inv cap le] show ?thesis
    by (auto simp: bs_read_def Let_def peek_output_view [OF inv] size dr)
qed

subsection \<open>The contract of a byte queue\<close>

text \<open>
  What a client of a byte stream relies on: the view grows at the back by the bytes that fit,
  shrinks at the front by the bytes read, and the free room is accounted for. A session is a
  sequence of reads and writes by the two ends, in any order.
\<close>

datatype stream_op = WriteOp bytes | ReadOp u64

fun run_ops :: "(bytes \<Rightarrow> 's \<Rightarrow> u64 \<times> 's) \<Rightarrow> (u64 \<Rightarrow> 's \<Rightarrow> (bytes \<times> 's) option) \<Rightarrow>
    stream_op list \<Rightarrow> 's \<Rightarrow> (bytes \<times> bytes \<times> 's) option" where
  "run_ops wr rd [] s = Some ([], [], s)"
| "run_ops wr rd (WriteOp d # ops) s =
     (let (n, s1) = wr d s
      in case run_ops wr rd ops s1 of
           None \<Rightarrow> None
         | Some (w, r, s2) \<Rightarrow> Some (take (unat n) d @ w, r, s2))"
| "run_ops wr rd (ReadOp len # ops) s =
     (case rd len s of
        None \<Rightarrow> None
      | Some (x, s1) \<Rightarrow>
          (case run_ops wr rd ops s1 of
             None \<Rightarrow> None
           | Some (w, r, s2) \<Rightarrow> Some (w, x @ r, s2)))"

fun string_sized :: "stream_op \<Rightarrow> bool" where
  "string_sized (WriteOp d) \<longleftrightarrow> length d < 2 ^ 64"
| "string_sized (ReadOp len) \<longleftrightarrow> True"

locale byte_queue =
  fixes invar :: "'s \<Rightarrow> bool"
    and view :: "'s \<Rightarrow> bytes"
    and capacity :: "'s \<Rightarrow> nat"
    and wr :: "bytes \<Rightarrow> 's \<Rightarrow> u64 \<times> 's"
    and rd :: "u64 \<Rightarrow> 's \<Rightarrow> (bytes \<times> 's) option"
  assumes view_bounded: "invar s \<Longrightarrow> length (view s) \<le> capacity s"
    and write_count: "invar s \<Longrightarrow> length d < 2 ^ 64 \<Longrightarrow>
      unat (fst (wr d s)) = min (length d) (capacity s - length (view s))"
    and view_write: "invar s \<Longrightarrow> length d < 2 ^ 64 \<Longrightarrow>
      view (snd (wr d s)) = view s @ take (capacity s - length (view s)) d"
    and invar_write: "invar s \<Longrightarrow> length d < 2 ^ 64 \<Longrightarrow> invar (snd (wr d s))"
    and capacity_write: "invar s \<Longrightarrow> length d < 2 ^ 64 \<Longrightarrow> capacity (snd (wr d s)) = capacity s"
    and read_total: "invar s \<Longrightarrow>
      \<exists>s'. rd len s = Some (take (unat len) (view s), s') \<and> invar s' \<and>
        view s' = drop (unat len) (view s) \<and> capacity s' = capacity s"
begin

text \<open>A write that fits is accepted whole and can be read back by a reader that catches up.\<close>

lemma write_then_read:
  assumes "invar s" and "view s = []" and "length d \<le> capacity s" and "length d < 2 ^ 64"
  shows "\<exists>s'. rd (of_nat (length d)) (snd (wr d s)) = Some (d, s') \<and> view s' = []"
proof -
  have "view (snd (wr d s)) = d" and "invar (snd (wr d s))"
    using assms view_write [of s d] invar_write [of s d] by simp_all
  moreover have "unat (of_nat (length d) :: u64) = length d"
    using assms by (simp add: unat_of_nat)
  ultimately show ?thesis
    using read_total [of "snd (wr d s)" "of_nat (length d)"] by auto
qed

text \<open>First in, first out: whatever the interleaving, no byte is lost, duplicated or reordered.\<close>

lemma fifo:
  assumes "invar s" and "list_all string_sized ops"
  shows "\<exists>w r s'. run_ops wr rd ops s = Some (w, r, s') \<and> view s @ w = r @ view s' \<and>
    invar s' \<and> capacity s' = capacity s"
  using assms
proof (induction ops arbitrary: s)
  case Nil
  then show ?case by simp
next
  case (Cons op ops)
  show ?case
  proof (cases op)
    case (WriteOp d)
    with Cons.prems have d: "length d < 2 ^ 64" and ops: "list_all string_sized ops" by simp_all
    obtain n s1 where wr: "wr d s = (n, s1)" by (cases "wr d s")
    have s1: "invar s1" "view s1 = view s @ take (unat n) d" "capacity s1 = capacity s"
      using invar_write [of s d] view_write [of s d] write_count [of s d] capacity_write [of s d]
        Cons.prems d wr by (simp_all add: min_def)
    from Cons.IH [OF s1(1) ops] obtain w r s' where
      "run_ops wr rd ops s1 = Some (w, r, s')" "view s1 @ w = r @ view s'"
      "invar s'" "capacity s' = capacity s1" by blast
    with s1 WriteOp wr show ?thesis by simp
  next
    case (ReadOp len)
    from read_total [OF Cons.prems(1), of len] obtain s1 where
      s1: "rd len s = Some (take (unat len) (view s), s1)" "invar s1"
      "view s1 = drop (unat len) (view s)" "capacity s1 = capacity s" by blast
    from Cons.IH [OF s1(2)] Cons.prems(2) obtain w r s' where
      run: "run_ops wr rd ops s1 = Some (w, r, s')" "view s1 @ w = r @ view s'"
      "invar s'" "capacity s' = capacity s1" by auto
    have "view s @ w = take (unat len) (view s) @ view s1 @ w"
      using s1(3) by (metis append.assoc append_take_drop_id)
    with s1 run ReadOp show ?thesis by simp
  qed
qed

end

definition bs_ready :: "byte_stream \<Rightarrow> bool" where
  "bs_ready s \<longleftrightarrow> bs_inv s \<and> 0 < bs_cap s"

interpretation bsq: byte_queue bs_ready bs_view bs_cap bs_write bs_read
proof unfold_locales
  fix s :: byte_stream and d :: bytes and len :: u64
  assume ready: "bs_ready s"
  then have inv: "bs_inv s" and cap: "0 < bs_cap s" by (simp_all add: bs_ready_def)
  show "length (bs_view s) \<le> bs_cap s" using bs_invD [OF inv] by simp
  show "\<exists>s'. bs_read len s = Some (take (unat len) (bs_view s), s') \<and> bs_ready s' \<and>
      bs_view s' = drop (unat len) (bs_view s) \<and> bs_cap s' = bs_cap s"
    using bs_read_view [OF inv cap, of len] cap by (auto simp: bs_ready_def bs_cap_def)
  assume d: "length d < 2 ^ 64"
  show "unat (fst (bs_write d s)) = min (length d) (bs_cap s - length (bs_view s))"
    using bs_write_count [OF inv d] by simp
  show "bs_view (snd (bs_write d s)) = bs_view s @ take (bs_cap s - length (bs_view s)) d"
    using bs_view_write [OF inv d] by simp
  show "bs_ready (snd (bs_write d s))"
    using bs_inv_write [OF inv d] cap by (simp add: bs_ready_def bs_cap_def)
  show "bs_cap (snd (bs_write d s)) = bs_cap s" by (simp add: bs_cap_def)
qed

subsection \<open>Properties\<close>

text \<open>
  C15. First in, first out. From a fresh stream of any capacity between 1 and \<open>2 ^ 63 - 1\<close>,
  every sequence of writes and reads runs to the end, and the bytes accepted by the writes are,
  in order, the bytes returned by the reads followed by the bytes still in the ring buffer,
  which never holds more than the capacity.
\<close>

theorem byte_stream_fifo:
  assumes "0 < unat c" and "unat c < 2 ^ 63" and "list_all string_sized ops"
  shows "\<exists>w r s'. run_ops bs_write bs_read ops (bs_new c) = Some (w, r, s') \<and>
    w = r @ bs_view s' \<and> bs_inv s' \<and> length (bs_view s') \<le> unat c"
proof -
  have cap: "bs_cap (bs_new c) = unat c" by (simp add: bs_cap_def bs_new_def)
  then have "bs_ready (bs_new c)" using assms by (simp add: bs_ready_def bs_inv_new)
  from bsq.fifo [OF this assms(3)] obtain w r s' where
    "run_ops bs_write bs_read ops (bs_new c) = Some (w, r, s')" "w = r @ bs_view s'"
    "bs_ready s'" "bs_cap s' = unat c" using cap by auto
  with bsq.view_bounded [of s'] show ?thesis by (auto simp: bs_ready_def)
qed

theorem byte_stream_fifo_witness:
  "0 < unat (4 :: u64) \<and> unat (4 :: u64) < 2 ^ 63 \<and>
   list_all string_sized [WriteOp [1, 2, 3], ReadOp 2, WriteOp [4, 5, 6, 7]] \<and>
   (\<exists>w r s'. run_ops bs_write bs_read [WriteOp [1, 2, 3], ReadOp 2, WriteOp [4, 5, 6, 7]] (bs_new 4) =
      Some (w, r, s') \<and> w = r @ bs_view s' \<and> bs_inv s' \<and> length (bs_view s') \<le> unat (4 :: u64))"
  using byte_stream_fifo [of 4 "[WriteOp [1, 2, 3], ReadOp 2, WriteOp [4, 5, 6, 7]]"] by simp

text \<open>
  \<open>peek_output\<close> returns the next bytes whether they wrap around the end of the ring or not;
  \<open>read\<close> never traps on a stream of positive capacity, returns what \<open>peek_output\<close> returns,
  removes exactly these bytes, and keeps the accounting: bytes written are bytes read plus bytes
  buffered, and the free room is the capacity minus the bytes buffered.
\<close>

theorem byte_stream_read:
  assumes "bs_inv s" and "0 < bs_cap s"
  shows "peek_output len s = take (unat len) (bs_view s) \<and>
    (\<exists>s'. bs_read len s = Some (peek_output len s, s') \<and> bs_inv s' \<and>
       bs_view s' = drop (unat len) (bs_view s) \<and>
       bytes_written s' = bytes_written s \<and> bytes_written s' = bytes_read s' + buffer_size s' \<and>
       unat (remaining_capacity s') = bs_cap s - length (bs_view s'))"
proof -
  obtain s' where s': "bs_read len s = Some (take (unat len) (bs_view s), s')" "bs_inv s'"
    "bs_view s' = drop (unat len) (bs_view s)" "n_bytes_written s' = n_bytes_written s"
    "max_capacity s' = max_capacity s"
    using bs_read_view [OF assms, of len] by blast
  moreover have "n_bytes_written s' = n_bytes_read s' + cur_size s'"
    using s'(2) by (simp add: bs_inv_def)
  moreover have "unat (remaining_capacity s') = bs_cap s - length (bs_view s')"
    using bs_invD(6) [OF s'(2)] s'(5) by (simp add: bs_cap_def)
  ultimately show ?thesis
    unfolding peek_output_view [OF assms(1)] bytes_written_def bytes_read_def buffer_size_def by metis
qed

theorem byte_stream_read_witness:
  "bs_inv (snd (bs_write [1, 2, 3] (bs_new 4))) \<and> 0 < bs_cap (snd (bs_write [1, 2, 3] (bs_new 4))) \<and>
   peek_output 2 (snd (bs_write [1, 2, 3] (bs_new 4))) = [1, 2]"
proof -
  let ?s = "snd (bs_write [1, 2, 3] (bs_new 4))"
  have inv: "bs_inv ?s" by (intro bs_inv_write bs_inv_new) simp_all
  have cap: "0 < bs_cap ?s" by (simp add: bs_cap_def) (simp add: bs_new_def)
  have "bs_view ?s = [1, 2, 3]"
    using bs_view_write [OF bs_inv_new, of 4 "[1, 2, 3]"] by (simp add: bs_cap_def) (simp add: bs_new_def)
  with byte_stream_read [OF inv cap, of 2] inv cap show ?thesis by simp
qed

text \<open>
  C39. Popping more bytes than are buffered does not saturate at zero: the subtraction wraps
  before \<open>std::max\<close> sees it, so the stream is left claiming more bytes than its capacity.
\<close>

theorem pop_output_overrun:
  assumes "bs_inv s" and "0 < bs_cap s" and "unat (cur_size s) < unat len" and "unat len < 2 ^ 63"
  shows "\<exists>s'. pop_output len s = Some s' \<and>
    unat (buffer_size s') = 2 ^ 64 - (unat len - unat (cur_size s)) \<and> \<not> bs_inv s'"
proof -
  let ?cur = "max 0 (cur_size s - len)"
  have cur: "unat ?cur = 2 ^ 64 - (unat len - unat (cur_size s))"
    using assms(3) unat_u64_less [of len] by (simp add: max_def unat_sub_if')
  then have "bs_cap s < unat ?cur"
    using bs_invD(2) [OF assms(1)] assms(4) by simp
  with cur assms(2) show ?thesis
    by (auto simp: pop_output_def buffer_size_def bs_inv_def bs_cap_def word_le_nat_alt)
qed

theorem pop_output_overrun_witness:
  "bs_inv (bs_new 4) \<and> 0 < bs_cap (bs_new 4) \<and> unat (cur_size (bs_new 4)) < unat (1 :: u64) \<and>
   (\<exists>s'. pop_output 1 (bs_new 4) = Some s' \<and> unat (buffer_size s') = 2 ^ 64 - 1 \<and> \<not> bs_inv s')"
proof -
  have h: "bs_inv (bs_new 4)" "0 < bs_cap (bs_new 4)" "unat (cur_size (bs_new 4)) < unat (1 :: u64)"
    by (simp add: bs_inv_new) (simp_all add: bs_cap_def bs_new_def)
  have "unat (cur_size (bs_new 4)) = 0" by (simp add: bs_new_def)
  with pop_output_overrun [OF h] h show ?thesis by simp
qed

end
