(* ===== verification/Stream_Reassembler.thy ===== *)
theory Stream_Reassembler
  imports Byte_Stream
begin

text \<open>
  The stream reassembler of \<open>libsponge/stream_reassembler.hh\<close> and \<open>stream_reassembler.cc\<close>:
  substrings of a byte stream arrive in any order, overlapping and repeated; the reassembler
  keeps a list of chunks that are not yet contiguous with the assembled prefix and writes every
  newly contiguous byte to its output stream.

  \<open>std::string::substr\<close> with a position past the end throws, so the operations return an
  option and \<^const>\<open>None\<close> stands for the exception; below it is shown never to happen.
\<close>

record chunk =
  chunk_data :: bytes
  chunk_index :: u64

record stream_reassembler =
  ra_output :: byte_stream
  ra_capacity :: u64
  unasmb :: "chunk list"
  first_unasmb :: u64
  n_unasmb_bytes :: u64
  eof_set :: bool
  last_byte :: u64

subsection \<open>Operations\<close>

definition ra_new :: "u64 \<Rightarrow> stream_reassembler" where
  "ra_new capacity = \<lparr>
     ra_output = bs_new capacity,
     ra_capacity = capacity,
     unasmb = [],
     first_unasmb = 0,
     n_unasmb_bytes = 0,
     eof_set = False,
     last_byte = 0\<rparr>"

text \<open>\<open>s.substr(pos)\<close> and \<open>s.substr(0, len)\<close>.\<close>

definition substr_from :: "u64 \<Rightarrow> bytes \<Rightarrow> bytes option" where
  "substr_from pos s = (if unat pos \<le> length s then Some (drop (unat pos) s) else None)"

definition substr_upto :: "u64 \<Rightarrow> bytes \<Rightarrow> bytes" where
  "substr_upto len s = take (unat len) s"

text \<open>
  The loop of \<open>merge\<close>: \<open>new0\<close> and \<open>new1\<close> are the bounds of the new chunk on entry, which
  the code computes once; the new chunk itself and the count of stored bytes are updated on the
  way. The result is the value returned, the remaining list, the merged chunk and the count.
\<close>

fun merge_loop :: "u64 \<Rightarrow> u64 \<Rightarrow> chunk list \<Rightarrow> chunk \<Rightarrow> u64 \<Rightarrow>
    (bool \<times> chunk list \<times> chunk \<times> u64) option" where
  "merge_loop new0 new1 [] nc n = Some (True, [], nc, n)"
| "merge_loop new0 new1 (it # rest) nc n =
     (let cur0 = chunk_index it;
          cur1 = chunk_index it + size64 (chunk_data it)
      in if cur0 \<le> new0 \<and> new1 \<le> cur1 then Some (False, it # rest, nc, n)
         else if new0 \<le> cur0 \<and> cur1 \<le> new1 then
           merge_loop new0 new1 rest nc (n - size64 (chunk_data it))
         else if cur0 \<le> new0 \<and> new0 \<le> cur1 then
           merge_loop new0 new1 rest
             (nc\<lparr>chunk_data := substr_upto (new0 - cur0) (chunk_data it) @ chunk_data nc,
                 chunk_index := cur0\<rparr>)
             (n - size64 (chunk_data it))
         else if new0 \<le> cur0 \<and> cur0 \<le> new1 then
           (case substr_from (new1 - cur0) (chunk_data it) of
              None \<Rightarrow> None
            | Some tail \<Rightarrow>
                merge_loop new0 new1 rest (nc\<lparr>chunk_data := chunk_data nc @ tail\<rparr>)
                  (n - size64 (chunk_data it)))
         else
           (case merge_loop new0 new1 rest nc n of
              None \<Rightarrow> None
            | Some (ret, chunks, nc', n') \<Rightarrow> Some (ret, it # chunks, nc', n')))"

definition merge :: "chunk list \<Rightarrow> chunk \<Rightarrow> u64 \<Rightarrow> (bool \<times> chunk list \<times> chunk \<times> u64) option" where
  "merge chunks new_chunk n =
     merge_loop (chunk_index new_chunk) (chunk_index new_chunk + size64 (chunk_data new_chunk))
       chunks new_chunk n"

text \<open>\<open>push_substring\<close>, in three parts: cutting the new chunk to the window, placing the
  merged chunk, and the check for the end of the stream.\<close>

definition clip_chunk :: "u64 \<Rightarrow> u64 \<Rightarrow> bytes \<Rightarrow> u64 \<Rightarrow> chunk option" where
  "clip_chunk first_unassembled first_unacceptable data index =
     (let nc = \<lparr>chunk_data = data, chunk_index = index\<rparr>;
          nc1 = (if chunk_index nc + size64 (chunk_data nc) > first_unacceptable
                 then nc\<lparr>chunk_data := substr_upto (first_unacceptable - chunk_index nc) (chunk_data nc)\<rparr>
                 else nc)
      in if chunk_index nc1 < first_unassembled
         then (case substr_from (first_unassembled - chunk_index nc1) (chunk_data nc1) of
                 None \<Rightarrow> None
               | Some d \<Rightarrow> Some (nc1\<lparr>chunk_data := d, chunk_index := first_unassembled\<rparr>))
         else Some nc1)"

definition place_chunk :: "chunk \<Rightarrow> stream_reassembler \<Rightarrow> stream_reassembler" where
  "place_chunk nc r =
     (if chunk_index nc = first_unasmb r
      then r\<lparr>ra_output := snd (bs_write (chunk_data nc) (ra_output r)),
             first_unasmb := first_unasmb r + size64 (chunk_data nc)\<rparr>
      else r\<lparr>n_unasmb_bytes := n_unasmb_bytes r + size64 (chunk_data nc),
             unasmb := unasmb r @ [nc]\<rparr>)"

definition check_eof :: "stream_reassembler \<Rightarrow> stream_reassembler" where
  "check_eof r =
     (if eof_set r \<and> last_byte r \<le> first_unasmb r then r\<lparr>ra_output := end_input (ra_output r)\<rparr> else r)"

definition push_substring :: "bytes \<Rightarrow> u64 \<Rightarrow> bool \<Rightarrow> stream_reassembler \<Rightarrow> stream_reassembler option" where
  "push_substring data index eof r =
     (if input_ended (ra_output r) then Some r
      else
        let r1 = (if eof then r\<lparr>eof_set := True, last_byte := index + size64 data\<rparr> else r);
            first_unacceptable = first_unasmb r1 + ra_capacity r1 - buffer_size (ra_output r1)
        in if index + size64 data \<ge> first_unasmb r1 \<and> index < first_unacceptable
           then (case clip_chunk (first_unasmb r1) first_unacceptable data index of
                   None \<Rightarrow> None
                 | Some new_chunk \<Rightarrow>
                     (case merge (unasmb r1) new_chunk (n_unasmb_bytes r1) of
                        None \<Rightarrow> None
                      | Some (ok, chunks, new_chunk', n) \<Rightarrow>
                          let r2 = r1\<lparr>unasmb := chunks, n_unasmb_bytes := n\<rparr>
                          in if \<not> ok then Some r2
                             else Some (check_eof (place_chunk new_chunk' r2))))
           else Some (check_eof r1))"

definition unassembled_bytes :: "stream_reassembler \<Rightarrow> u64" where
  "unassembled_bytes r = n_unasmb_bytes r"

definition ra_empty :: "stream_reassembler \<Rightarrow> bool" where
  "ra_empty r \<longleftrightarrow> unasmb r = []"

subsection \<open>Chunks as intervals of the stream\<close>

definition start :: "chunk \<Rightarrow> nat" where
  "start c = unat (chunk_index c)"

definition stop :: "chunk \<Rightarrow> nat" where
  "stop c = start c + length (chunk_data c)"

definition span :: "chunk \<Rightarrow> nat set" where
  "span c = {start c..<stop c}"

text \<open>A chunk is bounded when its end does not wrap around the 64-bit range.\<close>

definition bounded :: "chunk \<Rightarrow> bool" where
  "bounded c \<longleftrightarrow> stop c < 2 ^ 64"

definition apart :: "chunk \<Rightarrow> chunk \<Rightarrow> bool" where
  "apart c d \<longleftrightarrow> stop c < start d \<or> stop d < start c"

definition agrees :: "(nat \<Rightarrow> byte) \<Rightarrow> chunk \<Rightarrow> bool" where
  "agrees f c \<longleftrightarrow> (\<forall>i < length (chunk_data c). chunk_data c ! i = f (start c + i))"

definition touches :: "nat \<Rightarrow> nat \<Rightarrow> chunk \<Rightarrow> bool" where
  "touches a b c \<longleftrightarrow> start c \<le> b \<and> a \<le> stop c"

definition total_length :: "chunk list \<Rightarrow> nat" where
  "total_length cs = sum_list (map (\<lambda>c. length (chunk_data c)) cs)"

subsection \<open>Merging\<close>

lemma start_le_stop [simp]: "start c \<le> stop c"
  by (simp add: stop_def)

lemma apart_commute: "apart c d \<longleftrightarrow> apart d c"
  by (auto simp: apart_def)

lemma unat_stop: "bounded c \<Longrightarrow> unat (chunk_index c + size64 (chunk_data c)) = stop c"
  by (simp add: bounded_def stop_def start_def unat_simps)

lemma unat_size64_chunk: "bounded c \<Longrightarrow> unat (size64 (chunk_data c)) = length (chunk_data c)"
  by (simp add: bounded_def stop_def unat_simps)

lemma of_nat_total_length_Cons:
  "(of_nat (total_length (c # cs)) :: u64) = size64 (chunk_data c) + of_nat (total_length cs)"
  by (simp add: total_length_def size64_def)

lemma total_length_simps [simp]:
  "total_length [] = 0" "total_length (c # cs) = length (chunk_data c) + total_length cs"
  "total_length (cs @ ds) = total_length cs + total_length ds"
  by (simp_all add: total_length_def)

lemma merge_loop_skip:
  assumes "bounded c" and "unat new0 \<le> unat new1" and "\<not> touches (unat new0) (unat new1) c"
  shows "merge_loop new0 new1 (c # cs) nc n =
    map_option (\<lambda>(ret, chunks, nc', n'). (ret, c # chunks, nc', n')) (merge_loop new0 new1 cs nc n)"
proof -
  let ?a = "unat new0" and ?b = "unat new1"
  have F: "(start c \<le> ?a \<and> ?b \<le> stop c) = False" "(?a \<le> start c \<and> stop c \<le> ?b) = False"
    "(start c \<le> ?a \<and> ?a \<le> stop c) = False" "(?a \<le> start c \<and> start c \<le> ?b) = False"
    using assms(2,3) start_le_stop [of c] unfolding touches_def eq_False by linarith+
  show ?thesis
    unfolding merge_loop.simps Let_def word_le_nat_alt unat_stop [OF assms(1)] start_def [symmetric] F if_False
    by (auto split: option.split)
qed

text \<open>An existing chunk that contains the new one: the list and the count are untouched.\<close>

lemma merge_loop_contained:
  assumes "sorted_wrt apart cs" and "\<forall>c \<in> set cs. bounded c" and "unat new0 \<le> unat new1"
    and "d \<in> set cs" and "start d \<le> unat new0" and "unat new1 \<le> stop d"
  shows "merge_loop new0 new1 cs nc n = Some (False, cs, nc, n)"
  using assms
proof (induction cs)
  case Nil
  then show ?case by simp
next
  case (Cons c cs)
  show ?case
  proof (cases "start c \<le> unat new0 \<and> unat new1 \<le> stop c")
    case True
    with Cons.prems show ?thesis
      by (simp add: Let_def word_le_nat_alt unat_stop start_def)
  next
    case False
    with Cons.prems have "d \<in> set cs" "apart c d" by auto
    with Cons.prems False have "\<not> touches (unat new0) (unat new1) c"
      by (auto simp: apart_def touches_def)
    with Cons \<open>d \<in> set cs\<close> show ?thesis by (simp add: merge_loop_skip del: merge_loop.simps)
  qed
qed

definition merged :: "nat \<Rightarrow> nat \<Rightarrow> chunk list \<Rightarrow> chunk \<Rightarrow> chunk \<Rightarrow> bool" where
  "merged a b cs nc nc' \<longleftrightarrow>
     bounded nc' \<and> span nc' = span nc \<union> (\<Union>c \<in> {c \<in> set cs. touches a b c}. span c) \<and>
     (\<forall>f. agrees f nc \<longrightarrow> (\<forall>c \<in> set cs. agrees f c) \<longrightarrow> agrees f nc') \<and>
     (start nc' = start nc \<or> (\<exists>l \<in> set cs. start l = start nc' \<and> start l < a \<and> a \<le> stop l)) \<and>
     (stop nc' = stop nc \<or> (\<exists>r \<in> set cs. stop r = stop nc' \<and> b < stop r \<and> start r \<le> b))"

lemma merged_step:
  assumes m: "merged a b cs nc1 nc'" and t: "touches a b c" and "span nc1 = span nc \<union> span c"
    and "\<And>f. agrees f nc \<Longrightarrow> agrees f c \<Longrightarrow> agrees f nc1"
    and "start nc1 = start nc \<or> start nc1 = start c \<and> start c < a \<and> a \<le> stop c"
    and "stop nc1 = stop nc \<or> stop nc1 = stop c \<and> b < stop c \<and> start c \<le> b"
  shows "merged a b (c # cs) nc nc'"
proof -
  have "{d \<in> set (c # cs). touches a b d} = insert c {d \<in> set cs. touches a b d}" using t by auto
  then have "span nc' = span nc \<union> (\<Union>d \<in> {d \<in> set (c # cs). touches a b d}. span d)"
    using m assms(3) by (auto simp: merged_def)
  moreover have "start nc' = start nc \<or> (\<exists>l \<in> set (c # cs). start l = start nc' \<and> start l < a \<and> a \<le> stop l)"
    using m assms(5) unfolding merged_def by (metis list.set_intros)
  moreover have "stop nc' = stop nc \<or> (\<exists>r \<in> set (c # cs). stop r = stop nc' \<and> b < stop r \<and> start r \<le> b)"
    using m assms(6) unfolding merged_def by (metis list.set_intros)
  ultimately show ?thesis
    using m assms(4) by (simp add: merged_def)
qed

lemma merged_skip:
  assumes "merged a b cs nc nc'" and "\<not> touches a b c"
  shows "merged a b (c # cs) nc nc'"
proof -
  have "{d \<in> set (c # cs). touches a b d} = {d \<in> set cs. touches a b d}" using assms(2) by auto
  then show ?thesis using assms(1) by (auto simp: merged_def)
qed

lemma prepend_chunk:
  assumes "start c < start nc" and "start nc \<le> stop c" and "stop c \<le> stop nc" and "bounded nc"
  defines "nc1 \<equiv> nc\<lparr>chunk_data := substr_upto (chunk_index nc - chunk_index c) (chunk_data c) @ chunk_data nc,
    chunk_index := chunk_index c\<rparr>"
  shows "start nc1 = start c" "stop nc1 = stop nc" "bounded nc1" "span nc1 = span nc \<union> span c"
    "agrees f nc \<Longrightarrow> agrees f c \<Longrightarrow> agrees f nc1"
proof -
  have k: "unat (chunk_index nc - chunk_index c) = start nc - start c"
    using assms(1) by (simp add: start_def unat_simps)
  have len: "length (chunk_data nc1) = start nc - start c + length (chunk_data nc)"
    using assms(2) by (simp add: nc1_def substr_upto_def k stop_def)
  show s1: "start nc1 = start c" by (simp add: nc1_def start_def)
  show s2: "stop nc1 = stop nc"
    using assms(1) s1 len by (simp add: stop_def)
  show "bounded nc1" using assms(4) s2 by (simp add: bounded_def)
  show "span nc1 = span nc \<union> span c"
    using assms(1-3) s1 s2 by (auto simp: span_def)
  assume ag: "agrees f nc" "agrees f c"
  show "agrees f nc1"
    unfolding agrees_def
  proof (intro allI impI)
    fix i assume i: "i < length (chunk_data nc1)"
    show "chunk_data nc1 ! i = f (start nc1 + i)"
    proof (cases "i < start nc - start c")
      case True
      then have "i < length (chunk_data c)" using assms(2) by (simp add: stop_def)
      with True ag(2) show ?thesis
        unfolding s1 by (simp add: nc1_def substr_upto_def k nth_append agrees_def)
    next
      case False
      then have j: "i - (start nc - start c) < length (chunk_data nc)" using i len by simp
      have "length (substr_upto (chunk_index nc - chunk_index c) (chunk_data c)) = start nc - start c"
        using assms(2) by (simp add: substr_upto_def k stop_def)
      then have "chunk_data nc1 ! i = chunk_data nc ! (i - (start nc - start c))"
        using False by (simp add: nc1_def nth_append)
      also have "\<dots> = f (start nc + (i - (start nc - start c)))"
        using ag(1) j by (simp add: agrees_def)
      also have "start nc + (i - (start nc - start c)) = start nc1 + i"
        using False assms(1) s1 by simp
      finally show ?thesis .
    qed
  qed
qed

lemma append_chunk:
  assumes "start nc \<le> start c" and "start c \<le> stop nc" and "stop nc < stop c" and "bounded c"
    and k: "unat k = stop nc - start c"
  defines "nc1 \<equiv> nc\<lparr>chunk_data := chunk_data nc @ drop (unat k) (chunk_data c)\<rparr>"
  shows "start nc1 = start nc" "stop nc1 = stop c" "bounded nc1" "span nc1 = span nc \<union> span c"
    "agrees f nc \<Longrightarrow> agrees f c \<Longrightarrow> agrees f nc1"
    "substr_from k (chunk_data c) = Some (drop (unat k) (chunk_data c))"
proof -
  have kl: "unat k \<le> length (chunk_data c)" using assms(2,3) k by (simp add: stop_def)
  then show "substr_from k (chunk_data c) = Some (drop (unat k) (chunk_data c))"
    by (simp add: substr_from_def)
  show s1: "start nc1 = start nc" by (simp add: nc1_def start_def)
  have len: "length (chunk_data nc1) = length (chunk_data nc) + (length (chunk_data c) - unat k)"
    by (simp add: nc1_def)
  show s2: "stop nc1 = stop c"
    using assms(2,3) s1 len k by (simp add: stop_def)
  show "bounded nc1" using assms(4) s2 by (simp add: bounded_def)
  show "span nc1 = span nc \<union> span c"
    using assms(1-3) s1 s2 by (auto simp: span_def)
  assume ag: "agrees f nc" "agrees f c"
  show "agrees f nc1"
    unfolding agrees_def
  proof (intro allI impI)
    fix i assume i: "i < length (chunk_data nc1)"
    show "chunk_data nc1 ! i = f (start nc1 + i)"
    proof (cases "i < length (chunk_data nc)")
      case True
      with ag(1) s1 show ?thesis by (simp add: nc1_def nth_append agrees_def)
    next
      case False
      have "chunk_data nc1 ! i = chunk_data c ! (unat k + (i - length (chunk_data nc)))"
        using False kl i len by (simp add: nc1_def nth_append)
      also have "\<dots> = f (start c + (unat k + (i - length (chunk_data nc))))"
        using ag(2) False kl i len by (simp add: agrees_def)
      also have "start c + (unat k + (i - length (chunk_data nc))) = start nc1 + i"
        using False k assms(2) s1 by (simp add: stop_def)
      finally show ?thesis .
    qed
  qed
qed

lemma merge_loop_merged:
  assumes "sorted_wrt apart cs" and "\<forall>c \<in> set cs. bounded c" and "unat new0 \<le> unat new1"
    and "\<forall>d \<in> set cs. \<not> (start d \<le> unat new0 \<and> unat new1 \<le> stop d)"
    and "bounded nc" and "start nc \<le> unat new0" and "unat new1 \<le> stop nc"
    and "start nc = unat new0 \<or> (\<forall>d \<in> set cs. \<not> (start d \<le> unat new0 \<and> unat new0 \<le> stop d))"
    and "stop nc = unat new1 \<or> (\<forall>d \<in> set cs. \<not> (start d \<le> unat new1 \<and> unat new1 \<le> stop d))"
  shows "\<exists>nc'. merge_loop new0 new1 cs nc n =
      Some (True, filter (\<lambda>c. \<not> touches (unat new0) (unat new1) c) cs, nc',
        n - of_nat (total_length (filter (touches (unat new0) (unat new1)) cs))) \<and>
      merged (unat new0) (unat new1) cs nc nc'"
  using assms
proof (induction cs arbitrary: nc n)
  case Nil
  then show ?case by (simp add: merged_def)
next
  case (Cons c cs)
  let ?a = "unat new0" and ?b = "unat new1"
  note conds = word_le_nat_alt unat_stop start_def [symmetric]
  have tl: "sorted_wrt apart cs" "\<forall>c \<in> set cs. bounded c"
    "\<forall>d \<in> set cs. \<not> (start d \<le> ?a \<and> ?b \<le> stop d)"
    and bc: "bounded c" and ap: "\<forall>d \<in> set cs. apart c d"
    using Cons.prems by auto
  have ab: "?a \<le> ?b" by fact
  have notin: "\<not> (start c \<le> ?a \<and> ?b \<le> stop c)" using Cons.prems by simp
  have sz: "n - size64 (chunk_data c) - of_nat m = n - of_nat (length (chunk_data c) + m)" for n :: u64 and m
    by (simp add: size64_def algebra_simps)
  consider (inside) "?a \<le> start c" "stop c \<le> ?b"
    | (left) "start c < ?a" "?a \<le> stop c" "stop c < ?b"
    | (right) "?a < start c" "start c \<le> ?b" "?b < stop c"
    | (off) "\<not> touches ?a ?b c"
    using notin by (auto simp: touches_def) linarith+
  then show ?case
  proof cases
    case inside
    from Cons.IH [OF tl(1,2) ab tl(3), of nc "n - size64 (chunk_data c)"] Cons.prems
    obtain nc' where IH: "merge_loop new0 new1 cs nc (n - size64 (chunk_data c)) =
        Some (True, filter (\<lambda>c. \<not> touches ?a ?b c) cs, nc',
          n - size64 (chunk_data c) - of_nat (total_length (filter (touches ?a ?b) cs)))"
        "merged ?a ?b cs nc nc'" by auto
    have "touches ?a ?b c"
      using inside start_le_stop [of c] unfolding touches_def by linarith
    moreover have "span c \<subseteq> span nc"
      using inside Cons.prems(6,7) by (auto simp: span_def)
    moreover have "merge_loop new0 new1 (c # cs) nc n = merge_loop new0 new1 cs nc (n - size64 (chunk_data c))"
      using inside notin bc by (auto simp: Let_def conds)
    moreover have "merged ?a ?b (c # cs) nc nc'"
      using calculation(1,2) by (intro merged_step [OF IH(2)]) auto
    ultimately show ?thesis using IH(1) sz by (simp del: merge_loop.simps)
  next
    case left
    let ?nc1 = "nc\<lparr>chunk_data := substr_upto (chunk_index nc - chunk_index c) (chunk_data c) @ chunk_data nc,
      chunk_index := chunk_index c\<rparr>"
    have nc0: "chunk_index nc = new0" "start nc = ?a"
      using Cons.prems(8) left by (auto simp: start_def word_eq_unat_iff)
    note pre = prepend_chunk [of c nc, unfolded nc0(2), OF left(1,2) _ Cons.prems(5)]
    have st: "stop c \<le> stop nc" using left(3) Cons.prems(7) by simp
    have "\<forall>d \<in> set cs. \<not> (start d \<le> ?a \<and> ?a \<le> stop d)"
      using ap left by (auto simp: apart_def)
    with Cons.IH [OF tl(1,2) ab tl(3), of ?nc1 "n - size64 (chunk_data c)"] Cons.prems pre [OF st] left
    obtain nc' where IH: "merge_loop new0 new1 cs ?nc1 (n - size64 (chunk_data c)) =
        Some (True, filter (\<lambda>c. \<not> touches ?a ?b c) cs, nc',
          n - size64 (chunk_data c) - of_nat (total_length (filter (touches ?a ?b) cs)))"
        "merged ?a ?b cs ?nc1 nc'" by auto
    have "merge_loop new0 new1 (c # cs) nc n = merge_loop new0 new1 cs ?nc1 (n - size64 (chunk_data c))"
      using left notin bc by (simp add: Let_def conds nc0)
    moreover have "touches ?a ?b c" using left by (simp add: touches_def)
    moreover have "merged ?a ?b (c # cs) nc nc'"
      using pre [OF st] left calculation(2) nc0 by (intro merged_step [OF IH(2)]) auto
    ultimately show ?thesis using IH(1) sz by (simp del: merge_loop.simps)
  next
    case right
    let ?k = "new1 - chunk_index c"
    let ?nc1 = "nc\<lparr>chunk_data := chunk_data nc @ drop (unat ?k) (chunk_data c)\<rparr>"
    have nc1: "stop nc = ?b" using Cons.prems(9) right by auto
    have k: "unat ?k = stop nc - start c" using right(2) nc1 by (simp add: start_def unat_simps)
    have st: "start nc \<le> start c" "start c \<le> stop nc" "stop nc < stop c"
      using right Cons.prems(6) nc1 by simp_all
    note app = append_chunk [OF st bc k]
    have "\<forall>d \<in> set cs. \<not> (start d \<le> ?b \<and> ?b \<le> stop d)"
      using ap right by (auto simp: apart_def)
    with Cons.IH [OF tl(1,2) ab tl(3), of ?nc1 "n - size64 (chunk_data c)"] Cons.prems app right
    obtain nc' where IH: "merge_loop new0 new1 cs ?nc1 (n - size64 (chunk_data c)) =
        Some (True, filter (\<lambda>c. \<not> touches ?a ?b c) cs, nc',
          n - size64 (chunk_data c) - of_nat (total_length (filter (touches ?a ?b) cs)))"
        "merged ?a ?b cs ?nc1 nc'" by auto
    have "merge_loop new0 new1 (c # cs) nc n = merge_loop new0 new1 cs ?nc1 (n - size64 (chunk_data c))"
      using right notin bc app(6) by (simp add: Let_def conds)
    moreover have "touches ?a ?b c" using right start_le_stop [of c] unfolding touches_def by linarith
    moreover have "merged ?a ?b (c # cs) nc nc'"
      using app right calculation(2) nc1 by (intro merged_step [OF IH(2)]) auto
    ultimately show ?thesis using IH(1) sz by (simp del: merge_loop.simps)
  next
    case off
    then have "merge_loop new0 new1 (c # cs) nc n =
      map_option (\<lambda>(ret, chunks, nc', n'). (ret, c # chunks, nc', n')) (merge_loop new0 new1 cs nc n)"
      by (rule merge_loop_skip [OF bc ab])
    moreover obtain nc' where "merge_loop new0 new1 cs nc n =
        Some (True, filter (\<lambda>c. \<not> touches ?a ?b c) cs, nc',
          n - of_nat (total_length (filter (touches ?a ?b) cs)))" "merged ?a ?b cs nc nc'"
      using Cons.IH [OF tl(1,2) ab tl(3), of nc n] Cons.prems by auto
    ultimately show ?thesis using off merged_skip by auto
  qed
qed

lemma merge_contained:
  assumes "sorted_wrt apart cs" and "\<forall>c \<in> set cs. bounded c" and "bounded nc"
    and "d \<in> set cs" and "start d \<le> start nc" and "stop nc \<le> stop d"
  shows "merge cs nc n = Some (False, cs, nc, n)"
  unfolding merge_def
  using assms by (intro merge_loop_contained [of _ _ _ d]) (auto simp: unat_stop start_def [symmetric])

lemma merged_apart:
  assumes "sorted_wrt apart cs" and "merged (start nc) (stop nc) cs nc nc'"
    and "c \<in> set cs" and "\<not> touches (start nc) (stop nc) c"
  shows "apart c nc'"
proof -
  have ap: "apart c d" if "d \<in> set cs" "d \<noteq> c" for d
    using assms(1,3) that by (induction cs) (auto simp: apart_commute)
  have off: "stop c < start nc \<or> stop nc < start c" using assms(4) by (auto simp: touches_def)
  have s: "start nc' = start nc \<or> (\<exists>l \<in> set cs. start l = start nc' \<and> start l < start nc \<and> start nc \<le> stop l)"
    and e: "stop nc' = stop nc \<or> (\<exists>d \<in> set cs. stop d = stop nc' \<and> stop nc < stop d \<and> start d \<le> stop nc)"
    using assms(2) by (simp_all add: merged_def)
  show ?thesis
    using off
  proof
    assume lt: "stop c < start nc"
    from s have "stop c < start nc'"
    proof
      assume "\<exists>l \<in> set cs. start l = start nc' \<and> start l < start nc \<and> start nc \<le> stop l"
      then obtain l where l: "l \<in> set cs" "start l = start nc'" "start nc \<le> stop l" by blast
      with lt ap [of l] start_le_stop [of c] show ?thesis
        by (cases "l = c") (auto simp: apart_def simp del: start_le_stop)
    qed (use lt in simp)
    then show ?thesis by (simp add: apart_def)
  next
    assume lt: "stop nc < start c"
    from e have "stop nc' < start c"
    proof
      assume "\<exists>d \<in> set cs. stop d = stop nc' \<and> stop nc < stop d \<and> start d \<le> stop nc"
      then obtain l where l: "l \<in> set cs" "stop l = stop nc'" "start l \<le> stop nc" by blast
      with lt ap [of l] start_le_stop [of c] show ?thesis
        by (cases "l = c") (auto simp: apart_def simp del: start_le_stop)
    qed (use lt in simp)
    then show ?thesis by (simp add: apart_def)
  qed
qed

lemma merge_merged:
  assumes "sorted_wrt apart cs" and "\<forall>c \<in> set cs. bounded c" and "bounded nc"
    and "\<forall>d \<in> set cs. \<not> (start d \<le> start nc \<and> stop nc \<le> stop d)"
  obtains nc' where "merge cs nc n =
      Some (True, filter (\<lambda>c. \<not> touches (start nc) (stop nc) c) cs, nc',
        n - of_nat (total_length (filter (touches (start nc) (stop nc)) cs)))"
    and "merged (start nc) (stop nc) cs nc nc'"
  using merge_loop_merged [of cs "chunk_index nc" "chunk_index nc + size64 (chunk_data nc)" nc n] assms
  unfolding merge_def by (auto simp: unat_stop start_def [symmetric])

lemma total_length_filter:
  "total_length (filter P cs) + total_length (filter (\<lambda>c. \<not> P c) cs) = total_length cs"
  by (induction cs) simp_all

lemma clip_chunk_correct:
  assumes "unat index + length data < 2 ^ 64" and "unat first \<le> unat limit"
    and "unat first \<le> unat index + length data" and "unat index < unat limit"
  shows "\<exists>nc. clip_chunk first limit data index = Some nc \<and>
    start nc = max (unat index) (unat first) \<and> stop nc = min (unat index + length data) (unat limit) \<and>
    (\<forall>f. (\<forall>i < length data. data ! i = f (unat index + i)) \<longrightarrow> agrees f nc)"
proof -
  let ?i = "unat index" and ?e = "unat index + length data" and ?l = "unat limit"
  define d1 where "d1 = take (?l - ?i) data"
  have c1: "clip_chunk first limit data index =
      (if index < first
       then (case substr_from (first - index) d1 of None \<Rightarrow> None
             | Some d \<Rightarrow> Some \<lparr>chunk_data = d, chunk_index = first\<rparr>)
       else Some \<lparr>chunk_data = d1, chunk_index = index\<rparr>)"
    using assms unfolding clip_chunk_def Let_def d1_def
    by (simp add: word_less_nat_alt unat_simps substr_upto_def split: option.split)
  have len: "length d1 = min ?e ?l - ?i" by (simp add: d1_def)
  show ?thesis
  proof (cases "index < first")
    case True
    then have lt: "?i < unat first" and k: "unat (first - index) = unat first - ?i"
      by (simp_all add: word_less_nat_alt unat_simps)
    then have "substr_from (first - index) d1 = Some (drop (unat first - ?i) d1)"
      using assms len by (simp add: substr_from_def)
    then show ?thesis
      using True lt assms len unfolding c1
      by (auto simp: start_def stop_def agrees_def d1_def)
  next
    case False
    then have "unat first \<le> ?i" by (simp add: word_less_nat_alt)
    with False len assms show ?thesis
      unfolding c1 by (auto simp: start_def stop_def agrees_def d1_def max_def)
  qed
qed

subsection \<open>Invariant and abstract state\<close>

text \<open>
  The window ends at the bytes already read by the application plus the capacity. The invariant
  ties the output stream, the first missing index and the stored chunks together; the abstract
  state is the set of stream indices received, and \<open>content f\<close> says that every byte kept is the
  byte of the stream \<open>f\<close> at its index.
\<close>

definition window_end :: "stream_reassembler \<Rightarrow> nat" where
  "window_end r = unat (n_bytes_read (ra_output r)) + unat (ra_capacity r)"

definition ra_core :: "stream_reassembler \<Rightarrow> bool" where
  "ra_core r \<longleftrightarrow>
     bs_inv (ra_output r) \<and> max_capacity (ra_output r) = ra_capacity r \<and>
     unat (first_unasmb r) = unat (n_bytes_read (ra_output r)) + unat (cur_size (ra_output r)) \<and>
     sorted_wrt apart (unasmb r) \<and>
     (\<forall>c \<in> set (unasmb r). bounded c \<and> unat (first_unasmb r) < start c \<and> stop c \<le> window_end r) \<and>
     n_unasmb_bytes r = of_nat (total_length (unasmb r))"

definition ra_inv :: "stream_reassembler \<Rightarrow> bool" where
  "ra_inv r \<longleftrightarrow> ra_core r \<and>
     (eof_set r \<and> \<not> input_ended (ra_output r) \<longrightarrow> unat (first_unasmb r) < unat (last_byte r))"

definition received :: "stream_reassembler \<Rightarrow> nat set" where
  "received r = {..<unat (first_unasmb r)} \<union> (\<Union>c \<in> set (unasmb r). span c)"

definition content :: "(nat \<Rightarrow> byte) \<Rightarrow> stream_reassembler \<Rightarrow> bool" where
  "content f r \<longleftrightarrow>
     bs_view (ra_output r) = map f [unat (n_bytes_read (ra_output r))..<unat (first_unasmb r)] \<and>
     (\<forall>c \<in> set (unasmb r). agrees f c)"

lemma ra_core_first_le: "ra_core r \<Longrightarrow> unat (first_unasmb r) \<le> window_end r"
  using bs_invD(3) [of "ra_output r"] by (simp add: ra_core_def window_end_def bs_cap_def)

lemma first_unacceptable_eq:
  assumes "ra_core r" and "window_end r < 2 ^ 64"
  shows "unat (first_unasmb r + ra_capacity r - buffer_size (ra_output r)) = window_end r"
proof -
  let ?o = "ra_output r"
  have "first_unasmb r = n_bytes_read ?o + cur_size ?o"
    using assms unat_u64_less [of "first_unasmb r"]
    by (simp add: ra_core_def word_eq_unat_iff unat_simps)
  then have "first_unasmb r + ra_capacity r - buffer_size ?o = n_bytes_read ?o + ra_capacity r"
    by (simp add: buffer_size_def)
  then show ?thesis using assms(2) by (simp only: window_end_def) (simp add: unat_simps)
qed

text \<open>Placing the merged chunk: written when it continues the assembled prefix, stored otherwise.\<close>

lemma place_chunk_write:
  assumes core: "ra_core r" and w: "window_end r < 2 ^ 64" and st: "start nc = unat (first_unasmb r)"
    and sp: "stop nc \<le> window_end r" and ap: "\<forall>c \<in> set (unasmb r). apart c nc"
  shows "ra_core (place_chunk nc r) \<and> received (place_chunk nc r) = received r \<union> span nc \<and>
    (\<forall>f. content f r \<longrightarrow> agrees f nc \<longrightarrow> content f (place_chunk nc r))"
proof -
  let ?r = "place_chunk nc r" and ?o = "ra_output r" and ?d = "chunk_data nc"
  have inv: "bs_inv ?o" and cap: "bs_cap ?o = unat (ra_capacity r)"
    and fst: "unat (first_unasmb r) = unat (n_bytes_read ?o) + unat (cur_size ?o)"
    using core by (simp_all add: ra_core_def bs_cap_def)
  have fits: "length ?d \<le> bs_cap ?o - unat (cur_size ?o)" and len: "length ?d < 2 ^ 64"
    using sp st fst w cap by (simp_all add: stop_def window_end_def)
  have r: "?r = r\<lparr>ra_output := snd (bs_write ?d ?o), first_unasmb := first_unasmb r + size64 ?d\<rparr>"
    using st by (simp add: place_chunk_def start_def word_eq_unat_iff)
  have f': "unat (first_unasmb ?r) = stop nc"
    using st sp w len by (simp add: r stop_def unat_simps)
  have view: "bs_view (ra_output ?r) = bs_view ?o @ ?d"
    using bs_view_write [OF inv len] fits by (simp add: r)
  have cur: "unat (cur_size (ra_output ?r)) = unat (cur_size ?o) + length ?d"
    using arg_cong [OF view, of length] by simp
  have gt: "\<forall>c \<in> set (unasmb r). stop nc < start c"
  proof
    fix c assume c: "c \<in> set (unasmb r)"
    then have "apart c nc" "start nc < start c" using ap core st unfolding ra_core_def by metis+
    then show "stop nc < start c" using start_le_stop [of c] unfolding apart_def by linarith
  qed
  have "ra_core ?r"
    using core bs_inv_write [OF inv len] f' cur fst gt st
    unfolding ra_core_def by (simp add: r stop_def window_end_def)
  moreover have "received ?r = received r \<union> span nc"
    using f' st start_le_stop [of nc] by (auto simp: received_def r span_def)
  moreover have "content f ?r" if c: "content f r" and a: "agrees f nc" for f
  proof -
    have "?d = map f [unat (first_unasmb r)..<stop nc]"
      using a st by (intro nth_equalityI) (simp_all add: agrees_def stop_def)
    moreover have "[unat (n_bytes_read ?o)..<stop nc] =
        [unat (n_bytes_read ?o)..<unat (first_unasmb r)] @ [unat (first_unasmb r)..<stop nc]"
      using fst st by (metis le_add1 upt_add_eq_append start_le_stop le_add_diff_inverse)
    ultimately show ?thesis
      using c view f' by (simp add: content_def) (simp add: r)
  qed
  ultimately show ?thesis by blast
qed

lemma place_chunk_store:
  assumes core: "ra_core r" and st: "unat (first_unasmb r) < start nc" and b: "bounded nc"
    and sp: "stop nc \<le> window_end r" and ap: "\<forall>c \<in> set (unasmb r). apart c nc"
  shows "ra_core (place_chunk nc r) \<and> received (place_chunk nc r) = received r \<union> span nc \<and>
    (\<forall>f. content f r \<longrightarrow> agrees f nc \<longrightarrow> content f (place_chunk nc r))"
proof -
  have r: "place_chunk nc r =
      r\<lparr>n_unasmb_bytes := n_unasmb_bytes r + size64 (chunk_data nc), unasmb := unasmb r @ [nc]\<rparr>"
    using st by (auto simp: place_chunk_def start_def)
  have "ra_core (place_chunk nc r)"
    using assms unfolding ra_core_def r
    by (auto simp: sorted_wrt_append window_end_def size64_def)
  moreover have "received (place_chunk nc r) = received r \<union> span nc"
    by (auto simp: received_def r)
  moreover have "\<forall>f. content f r \<longrightarrow> agrees f nc \<longrightarrow> content f (place_chunk nc r)"
    by (simp add: content_def r)
  ultimately show ?thesis by blast
qed

lemma ra_core_drop_chunks:
  assumes "ra_core r"
  shows "ra_core (r\<lparr>unasmb := filter P (unasmb r),
    n_unasmb_bytes := n_unasmb_bytes r - of_nat (total_length (filter (\<lambda>c. \<not> P c) (unasmb r)))\<rparr>)"
proof -
  have "(of_nat (total_length (unasmb r)) :: u64) =
      of_nat (total_length (filter P (unasmb r))) + of_nat (total_length (filter (\<lambda>c. \<not> P c) (unasmb r)))"
    by (metis total_length_filter of_nat_add)
  with assms show ?thesis
    unfolding ra_core_def by (auto simp: window_end_def sorted_wrt_filter)
qed

text \<open>Absorbing a chunk that lies in the window: what \<open>merge\<close> and the placement do together.\<close>

definition absorb :: "chunk \<Rightarrow> stream_reassembler \<Rightarrow> (bool \<times> stream_reassembler) option" where
  "absorb nc r = (case merge (unasmb r) nc (n_unasmb_bytes r) of None \<Rightarrow> None
     | Some (ok, chunks, nc', n) \<Rightarrow>
         let r2 = r\<lparr>unasmb := chunks, n_unasmb_bytes := n\<rparr>
         in Some (ok, if ok then place_chunk nc' r2 else r2))"

lemma absorb_correct:
  assumes core: "ra_core r" and w: "window_end r < 2 ^ 64"
    and st: "unat (first_unasmb r) \<le> start nc" and sp: "stop nc \<le> window_end r"
  shows "\<exists>ok r'. absorb nc r = Some (ok, r') \<and> ra_core r' \<and> received r' = received r \<union> span nc \<and>
    (\<forall>f. content f r \<longrightarrow> agrees f nc \<longrightarrow> content f r') \<and>
    (ok \<or> r' = r \<and> unat (first_unasmb r) < start nc)"
proof -
  let ?cs = "unasmb r"
  have cs: "sorted_wrt apart ?cs" "\<forall>c \<in> set ?cs. bounded c"
    "\<forall>c \<in> set ?cs. unat (first_unasmb r) < start c \<and> stop c \<le> window_end r"
    using core by (auto simp: ra_core_def)
  have b: "bounded nc" using sp w by (simp add: bounded_def)
  show ?thesis
  proof (cases "\<exists>d \<in> set ?cs. start d \<le> start nc \<and> stop nc \<le> stop d")
    case True
    then obtain d where d: "d \<in> set ?cs" "start d \<le> start nc" "stop nc \<le> stop d" by blast
    have "span nc \<subseteq> received r" using d by (auto simp: received_def span_def)
    then have "received r = received r \<union> span nc" by blast
    moreover have "absorb nc r = Some (False, r)"
      by (simp add: absorb_def merge_contained [OF cs(1,2) b d])
    moreover have "unat (first_unasmb r) < start nc" using d cs(3) by fastforce
    ultimately show ?thesis using core by blast
  next
    case False
    then have nd: "\<forall>d \<in> set ?cs. \<not> (start d \<le> start nc \<and> stop nc \<le> stop d)" by blast
    let ?t = "touches (start nc) (stop nc)"
    define n where "n = n_unasmb_bytes r - of_nat (total_length (filter ?t ?cs))"
    define r2 where "r2 = r\<lparr>unasmb := filter (\<lambda>c. \<not> ?t c) ?cs, n_unasmb_bytes := n\<rparr>"
    obtain nc' where m: "merge ?cs nc (n_unasmb_bytes r) = Some (True, filter (\<lambda>c. \<not> ?t c) ?cs, nc', n)"
      and nc': "merged (start nc) (stop nc) ?cs nc nc'"
      unfolding n_def by (rule merge_merged [OF cs(1,2) b nd])
    have core2: "ra_core r2"
      using ra_core_drop_chunks [OF core, of "\<lambda>c. \<not> ?t c"] by (simp add: r2_def n_def)
    have ap: "\<forall>c \<in> set (unasmb r2). apart c nc'"
      using merged_apart [OF cs(1) nc'] by (simp add: r2_def)
    have w2: "window_end r2 = window_end r" "first_unasmb r2 = first_unasmb r"
      by (simp_all add: r2_def window_end_def)
    have b': "bounded nc'" and st': "unat (first_unasmb r) \<le> start nc'" and sp': "stop nc' \<le> window_end r"
      using nc' st sp cs(3) unfolding merged_def by (auto simp: less_imp_le)
    have pl: "ra_core (place_chunk nc' r2) \<and> received (place_chunk nc' r2) = received r2 \<union> span nc' \<and>
        (\<forall>f. content f r2 \<longrightarrow> agrees f nc' \<longrightarrow> content f (place_chunk nc' r2))"
      using place_chunk_write [OF core2 _ _ _ ap] place_chunk_store [OF core2 _ b' _ ap] w2 w st' sp'
      by (cases "start nc' = unat (first_unasmb r)") simp_all
    have "received r2 \<union> span nc' = received r \<union> span nc"
      using nc' by (auto simp: received_def r2_def merged_def)
    moreover have "content f r2 \<and> agrees f nc'" if "content f r" "agrees f nc" for f
      using that nc' by (simp add: content_def r2_def merged_def)
    moreover have "absorb nc r = Some (True, place_chunk nc' r2)"
      by (simp add: absorb_def m r2_def)
    ultimately show ?thesis using pl by auto
  qed
qed

subsection \<open>One push\<close>

lemma check_eof_simps [simp]:
  "first_unasmb (check_eof r) = first_unasmb r" "unasmb (check_eof r) = unasmb r"
  "ra_capacity (check_eof r) = ra_capacity r" "eof_set (check_eof r) = eof_set r"
  "last_byte (check_eof r) = last_byte r" "n_unasmb_bytes (check_eof r) = n_unasmb_bytes r"
  "n_bytes_read (ra_output (check_eof r)) = n_bytes_read (ra_output r)"
  "bs_view (ra_output (check_eof r)) = bs_view (ra_output r)"
  "bs_inv (ra_output (check_eof r)) = bs_inv (ra_output r)"
  "cur_size (ra_output (check_eof r)) = cur_size (ra_output r)"
  "max_capacity (ra_output (check_eof r)) = max_capacity (ra_output r)"
  by (simp_all add: check_eof_def end_input_def bs_view_def bs_inv_def)

lemma input_ended_check_eof:
  "input_ended (ra_output (check_eof r)) \<longleftrightarrow>
     input_ended (ra_output r) \<or> eof_set r \<and> unat (last_byte r) \<le> unat (first_unasmb r)"
  by (auto simp: check_eof_def end_input_def input_ended_def word_le_nat_alt)

lemma check_eof_frame:
  "ra_core (check_eof r) = ra_core r" "received (check_eof r) = received r"
  "content f (check_eof r) = content f r"
  by (simp_all add: ra_core_def received_def content_def window_end_def)

lemma place_chunk_frame [simp]:
  "ra_capacity (place_chunk nc r) = ra_capacity r" "eof_set (place_chunk nc r) = eof_set r"
  "last_byte (place_chunk nc r) = last_byte r"
  "n_bytes_read (ra_output (place_chunk nc r)) = n_bytes_read (ra_output r)"
  "input_ended (ra_output (place_chunk nc r)) = input_ended (ra_output r)"
  by (simp_all add: place_chunk_def input_ended_def)

lemma absorb_frame:
  assumes "absorb nc r = Some (ok, r')"
  shows "ra_capacity r' = ra_capacity r" "eof_set r' = eof_set r" "last_byte r' = last_byte r"
    "n_bytes_read (ra_output r') = n_bytes_read (ra_output r)"
    "input_ended (ra_output r') = input_ended (ra_output r)"
  using assms by (auto simp: absorb_def Let_def split: option.splits if_splits)

definition note_eof :: "bytes \<Rightarrow> u64 \<Rightarrow> bool \<Rightarrow> stream_reassembler \<Rightarrow> stream_reassembler" where
  "note_eof data index eof r = (if eof then r\<lparr>eof_set := True, last_byte := index + size64 data\<rparr> else r)"

lemma push_substring_absorb:
  "push_substring data index eof r =
     (if input_ended (ra_output r) then Some r
      else
        let r1 = note_eof data index eof r;
            first_unacceptable = first_unasmb r1 + ra_capacity r1 - buffer_size (ra_output r1)
        in if index + size64 data \<ge> first_unasmb r1 \<and> index < first_unacceptable
           then (case clip_chunk (first_unasmb r1) first_unacceptable data index of
                   None \<Rightarrow> None
                 | Some nc \<Rightarrow> map_option (\<lambda>(ok, r2). if ok then check_eof r2 else r2) (absorb nc r1))
           else Some (check_eof r1))"
  unfolding push_substring_def note_eof_def absorb_def Let_def
  by (auto split: option.split)

lemma note_eof_frame:
  "ra_core (note_eof data index eof r) = ra_core r" "received (note_eof data index eof r) = received r"
  "content f (note_eof data index eof r) = content f r"
  "window_end (note_eof data index eof r) = window_end r"
  "first_unasmb (note_eof data index eof r) = first_unasmb r"
  "ra_capacity (note_eof data index eof r) = ra_capacity r"
  "ra_output (note_eof data index eof r) = ra_output r"
  "eof_set (note_eof data index eof r) = (eof_set r \<or> eof)"
  by (simp_all add: note_eof_def ra_core_def received_def content_def window_end_def)

definition push_result :: "bytes \<Rightarrow> u64 \<Rightarrow> bool \<Rightarrow> stream_reassembler \<Rightarrow> stream_reassembler \<Rightarrow> bool" where
  "push_result data index eof r r' \<longleftrightarrow>
     ra_inv r' \<and>
     received r' = received r \<union> ({unat index..<unat index + length data} \<inter> {..<window_end r}) \<and>
     (\<forall>f. content f r \<longrightarrow> (\<forall>i < length data. data ! i = f (unat index + i)) \<longrightarrow> content f r') \<and>
     ra_capacity r' = ra_capacity r \<and> n_bytes_read (ra_output r') = n_bytes_read (ra_output r) \<and>
     (eof_set r' \<longleftrightarrow> eof_set r \<or> eof) \<and>
     last_byte r' = (if eof then index + size64 data else last_byte r) \<and>
     (input_ended (ra_output r') \<longleftrightarrow> eof_set r' \<and> unat (last_byte r') \<le> unat (first_unasmb r'))"

lemma push_result_check_eof:
  assumes "ra_core r2" and "\<not> input_ended (ra_output r2)"
    and "received r2 = received r \<union> ({unat index..<unat index + length data} \<inter> {..<window_end r})"
    and "\<And>f. content f r \<Longrightarrow> (\<forall>i < length data. data ! i = f (unat index + i)) \<Longrightarrow> content f r2"
    and "ra_capacity r2 = ra_capacity r" and "n_bytes_read (ra_output r2) = n_bytes_read (ra_output r)"
    and "eof_set r2 = (eof_set r \<or> eof)" and "last_byte r2 = (if eof then index + size64 data else last_byte r)"
  shows "push_result data index eof r (check_eof r2)"
  using assms by (auto simp: push_result_def ra_inv_def check_eof_frame input_ended_check_eof)

lemma push_substring_correct:
  assumes inv: "ra_inv r" and w: "window_end r < 2 ^ 64" and len: "unat index + length data < 2 ^ 64"
    and open_: "\<not> input_ended (ra_output r)"
  shows "\<exists>r'. push_substring data index eof r = Some r' \<and> push_result data index eof r r'"
proof -
  define r1 where "r1 = note_eof data index eof r"
  have core: "ra_core r1" and w1: "window_end r1 < 2 ^ 64"
    using inv w by (simp_all add: r1_def note_eof_frame ra_inv_def)
  let ?fu = "first_unasmb r1 + ra_capacity r1 - buffer_size (ra_output r1)"
  have fu: "unat ?fu = window_end r" and fw: "unat (first_unasmb r) \<le> window_end r"
    using first_unacceptable_eq [OF core w1] ra_core_first_le [OF core]
    by (simp_all add: r1_def note_eof_frame)
  have lb: "last_byte r1 = (if eof then index + size64 data else last_byte r)"
    by (simp add: r1_def note_eof_def)
  have sz: "unat (index + size64 data) = unat index + length data" using len by (simp add: unat_simps)
  let ?new = "{unat index..<unat index + length data} \<inter> {..<window_end r}"
  show ?thesis
  proof (cases "unat (first_unasmb r) \<le> unat index + length data \<and> unat index < window_end r")
    case True
    then obtain nc where nc: "clip_chunk (first_unasmb r1) ?fu data index = Some nc"
      "start nc = max (unat index) (unat (first_unasmb r))"
      "stop nc = min (unat index + length data) (window_end r)"
      "\<forall>f. (\<forall>i < length data. data ! i = f (unat index + i)) \<longrightarrow> agrees f nc"
      using clip_chunk_correct [OF len, of "first_unasmb r1" ?fu] fu fw
      by (auto simp: r1_def note_eof_frame)
    have sp: "received r \<union> span nc = received r \<union> ?new"
      using nc(2,3) by (auto simp: received_def span_def)
    obtain ok r2 where ab: "absorb nc r1 = Some (ok, r2)" "ra_core r2" "received r2 = received r1 \<union> span nc"
      "\<forall>f. content f r1 \<longrightarrow> agrees f nc \<longrightarrow> content f r2" "ok \<or> r2 = r1 \<and> unat (first_unasmb r1) < start nc"
      using absorb_correct [OF core w1, of nc] nc(2,3) by (auto simp: r1_def note_eof_frame)
    note fr = absorb_frame [OF ab(1)]
    have "push_substring data index eof r = Some (if ok then check_eof r2 else r2)"
      using open_ True ab(1) nc(1) fu sz
      by (simp add: push_substring_absorb Let_def r1_def [symmetric] word_le_nat_alt word_less_nat_alt)
        (simp add: r1_def note_eof_frame)
    moreover have "push_result data index eof r (check_eof r2)"
      using ab(2-4) nc(4) sp open_ fr lb
      by (intro push_result_check_eof) (simp_all add: r1_def note_eof_frame)
    moreover have "check_eof r2 = r2" if "\<not> ok"
    proof -
      have r2: "r2 = r1" "unat (first_unasmb r) < start nc"
        using ab(5) that by (simp_all add: r1_def note_eof_frame)
      then have "eof \<Longrightarrow> unat (first_unasmb r) < unat (last_byte r1)"
        using nc(2) sz lb by (simp add: max_def split: if_splits)
      moreover have "eof_set r \<Longrightarrow> unat (first_unasmb r) < unat (last_byte r)"
        using inv open_ by (simp add: ra_inv_def)
      ultimately show ?thesis
        using lb r2(1) by (auto simp: check_eof_def word_le_nat_alt r1_def note_eof_frame)
    qed
    ultimately show ?thesis by (cases ok) auto
  next
    case False
    then have "push_substring data index eof r = Some (check_eof r1)"
      using open_ fu sz
      by (auto simp: push_substring_absorb Let_def r1_def [symmetric] word_le_nat_alt word_less_nat_alt)
        (simp_all add: r1_def note_eof_frame)
    moreover have "?new \<subseteq> received r"
      using False by (auto simp: received_def)
    then have "push_result data index eof r (check_eof r1)"
      using core open_ lb by (intro push_result_check_eof) (auto simp: r1_def note_eof_frame)
    ultimately show ?thesis by blast
  qed
qed

text \<open>Reading from the output moves the window and keeps the invariant.\<close>

lemma ra_inv_consume:
  assumes inv: "ra_inv r" and cap: "0 < unat (ra_capacity r)"
  shows "\<exists>out. bs_read len (ra_output r) = Some (take (unat len) (bs_view (ra_output r)), out) \<and>
    ra_inv (r\<lparr>ra_output := out\<rparr>) \<and> bs_view out = drop (unat len) (bs_view (ra_output r)) \<and>
    done_writing out = done_writing (ra_output r) \<and>
    unat (n_bytes_read out) = unat (n_bytes_read (ra_output r)) + min (unat len) (unat (cur_size (ra_output r)))"
proof -
  let ?o = "ra_output r" and ?F = "unat (first_unasmb r)"
  define k where "k = unat (min len (cur_size ?o))"
  have core: "ra_core r" using inv by (simp add: ra_inv_def)
  have bs: "bs_inv ?o" and c: "0 < bs_cap ?o" and F: "?F = unat (n_bytes_read ?o) + unat (cur_size ?o)"
    using core cap by (simp_all add: ra_core_def bs_cap_def)
  obtain out where out: "bs_read len ?o = Some (take (unat len) (bs_view ?o), out)" "bs_inv out"
    "bs_view out = drop (unat len) (bs_view ?o)" "n_bytes_read out = n_bytes_read ?o + min len (cur_size ?o)"
    "cur_size out = cur_size ?o - min len (cur_size ?o)"
    "done_writing out = done_writing ?o" "max_capacity out = max_capacity ?o"
    using bs_read_view [OF bs c, of len] by blast
  have k': "k = min (unat len) (unat (cur_size ?o))" and k: "k \<le> unat (cur_size ?o)"
    by (simp_all add: k_def unat_simps)
  have rd: "unat (n_bytes_read out) = unat (n_bytes_read ?o) + k"
    unfolding out(4) using F k unat_u64_less [of "first_unasmb r"]
    by (subst unat_add_no_wrap) (simp_all add: k_def)
  have cs: "unat (cur_size out) = unat (cur_size ?o) - k"
    unfolding out(5) using k by (subst unat_sub_no_wrap) (simp_all add: k_def)
  have "\<forall>c \<in> set (unasmb r). bounded c \<and> ?F < start c \<and> stop c \<le> unat (n_bytes_read out) + unat (ra_capacity r)"
    using core unfolding ra_core_def window_end_def rd by auto
  moreover have "?F = unat (n_bytes_read out) + unat (cur_size out)" using rd cs F k by simp
  ultimately have "ra_core (r\<lparr>ra_output := out\<rparr>)"
    using core out(2,7) unfolding ra_core_def window_end_def by simp
  then have "ra_inv (r\<lparr>ra_output := out\<rparr>)" using inv out(6) by (simp add: ra_inv_def input_ended_def)
  then show ?thesis using out rd k' by auto
qed

text \<open>A substring at any index, even one whose end is not representable, is handled without a throw.\<close>

lemma push_substring_total:
  assumes inv: "ra_inv r" and w: "window_end r < 2 ^ 63" and len: "length data < 2 ^ 63"
  shows "\<exists>r'. push_substring data index eof r = Some r' \<and> ra_inv r' \<and> ra_capacity r' = ra_capacity r \<and>
    n_bytes_read (ra_output r') = n_bytes_read (ra_output r) \<and> received r \<subseteq> received r'"
proof -
  consider "input_ended (ra_output r)" | "\<not> input_ended (ra_output r)" "unat index + length data < 2 ^ 64"
    | "\<not> input_ended (ra_output r)" "2 ^ 64 \<le> unat index + length data" by linarith
  then show ?thesis
  proof cases
    case 1
    then show ?thesis using inv by (simp add: push_substring_def)
  next
    case 2
    have "window_end r < 2 ^ 64" using w by simp
    then obtain r' where "push_substring data index eof r = Some r'" "push_result data index eof r r'"
      using push_substring_correct [OF inv _ 2(2,1)] by blast
    then show ?thesis by (auto simp: push_result_def)
  next
    case 3
    let ?r1 = "note_eof data index eof r"
    have core: "ra_core ?r1" "window_end ?r1 = window_end r" using inv by (simp_all add: note_eof_frame ra_inv_def)
    then have "unat (first_unasmb ?r1 + ra_capacity ?r1 - buffer_size (ra_output ?r1)) = window_end r"
      using first_unacceptable_eq [of ?r1] w by simp
    then have "\<not> index < first_unasmb ?r1 + ra_capacity ?r1 - buffer_size (ra_output ?r1)"
      using 3(2) w len unfolding word_less_nat_alt by simp
    then have "push_substring data index eof r = Some (check_eof ?r1)"
      using 3(1) by (simp add: push_substring_absorb Let_def)
    moreover have "ra_inv (check_eof ?r1)"
      using core(1) by (auto simp: ra_inv_def check_eof_frame input_ended_check_eof)
    ultimately show ?thesis by (simp add: check_eof_frame note_eof_frame)
  qed
qed

subsection \<open>What the state says\<close>

lemma first_unasmb_missing:
  assumes "ra_core r"
  shows "unat (first_unasmb r) = (LEAST i. i \<notin> received r)"
proof (rule Least_equality [symmetric])
  show "unat (first_unasmb r) \<notin> received r"
    using assms by (fastforce simp: received_def ra_core_def span_def)
next
  fix i assume "i \<notin> received r"
  then show "unat (first_unasmb r) \<le> i" by (auto simp: received_def)
qed

lemma card_spans:
  assumes "sorted_wrt apart cs"
  shows "card (\<Union>c \<in> set cs. span c) = total_length cs"
  using assms
proof (induction cs)
  case Nil
  then show ?case by simp
next
  case (Cons c cs)
  have "span c \<inter> (\<Union>d \<in> set cs. span d) = {}"
    using Cons.prems by (fastforce simp: span_def apart_def)
  then have "card (span c \<union> (\<Union>d \<in> set cs. span d)) = card (span c) + total_length cs"
    using Cons by (subst card_Un_disjoint) (simp_all add: span_def)
  then show ?case by (simp add: span_def stop_def)
qed

lemma unassembled_card:
  assumes "ra_core r"
  shows "unat (unassembled_bytes r) = card (received r - {..<unat (first_unasmb r)})"
    "card (received r - {..<unat (first_unasmb r)}) + unat (buffer_size (ra_output r)) \<le> unat (ra_capacity r)"
proof -
  let ?U = "\<Union>c \<in> set (unasmb r). span c" and ?n = "unat (n_bytes_read (ra_output r))"
  have eq: "received r - {..<unat (first_unasmb r)} = ?U"
    using assms by (force simp: received_def ra_core_def span_def)
  have "?U \<subseteq> {unat (first_unasmb r)..<window_end r}"
    using assms by (force simp: ra_core_def span_def)
  from card_mono [OF _ this] have le: "card ?U \<le> window_end r - unat (first_unasmb r)" by simp
  then show "card (received r - {..<unat (first_unasmb r)}) + unat (buffer_size (ra_output r)) \<le> unat (ra_capacity r)"
    using ra_core_first_le [OF assms] assms unfolding eq
    by (simp add: window_end_def buffer_size_def ra_core_def)
  with eq have "card ?U < 2 ^ 64" using unat_u64_less [of "ra_capacity r"] by simp
  then show "unat (unassembled_bytes r) = card (received r - {..<unat (first_unasmb r)})"
    using assms unfolding eq
    by (simp add: unassembled_bytes_def ra_core_def card_spans unat_of_nat)
qed

subsection \<open>Sessions: substrings pushed and output read in any order\<close>

datatype ra_op = Push bytes u64 bool | Consume u64

fun run_ra :: "ra_op list \<Rightarrow> stream_reassembler \<Rightarrow> (bytes \<times> stream_reassembler) option" where
  "run_ra [] r = Some ([], r)"
| "run_ra (Push data index eof # ops) r =
     (case push_substring data index eof r of None \<Rightarrow> None | Some r1 \<Rightarrow> run_ra ops r1)"
| "run_ra (Consume len # ops) r =
     (case bs_read len (ra_output r) of
        None \<Rightarrow> None
      | Some (x, out) \<Rightarrow>
          (case run_ra ops (r\<lparr>ra_output := out\<rparr>) of
             None \<Rightarrow> None
           | Some (y, r1) \<Rightarrow> Some (x @ y, r1)))"

text \<open>An excerpt of the stream \<open>f\<close> of \<open>N\<close> bytes, flagged as its end only at its end; an empty
  excerpt without the flag may carry any index.\<close>

fun excerpt :: "(nat \<Rightarrow> byte) \<Rightarrow> nat \<Rightarrow> ra_op \<Rightarrow> bool" where
  "excerpt f N (Push data index eof) \<longleftrightarrow>
     (\<forall>i < length data. data ! i = f (unat index + i)) \<and>
     (data \<noteq> [] \<longrightarrow> unat index + length data \<le> N) \<and>
     (eof \<longrightarrow> unat index + length data = N)"
| "excerpt f N (Consume len) \<longleftrightarrow> True"

definition on_stream :: "(nat \<Rightarrow> byte) \<Rightarrow> nat \<Rightarrow> u64 \<Rightarrow> stream_reassembler \<Rightarrow> bool" where
  "on_stream f N c r \<longleftrightarrow> ra_inv r \<and> content f r \<and> received r \<subseteq> {..<N} \<and> ra_capacity r = c \<and>
     (eof_set r \<longrightarrow> unat (last_byte r) = N) \<and>
     (input_ended (ra_output r) \<longleftrightarrow> eof_set r \<and> unat (first_unasmb r) = N)"

lemma on_stream_new:
  assumes "unat c < 2 ^ 63"
  shows "on_stream f N c (ra_new c)"
proof -
  have "bs_inv (bs_new c)" using assms by (rule bs_inv_new)
  then show ?thesis
    by (simp add: on_stream_def ra_inv_def ra_core_def ra_new_def content_def received_def)
      (simp add: bs_new_def input_ended_def)
qed

lemma on_stream_bounds:
  assumes "on_stream f N c r"
  shows "unat (first_unasmb r) \<le> N" "window_end r \<le> N + unat c"
proof -
  have "{..<unat (first_unasmb r)} \<subseteq> {..<N}" using assms by (auto simp: on_stream_def received_def)
  then show "unat (first_unasmb r) \<le> N" by simp
  then show "window_end r \<le> N + unat c"
    using assms by (simp add: on_stream_def ra_inv_def ra_core_def window_end_def)
qed

lemma on_stream_push:
  assumes os: "on_stream f N c r" and ex: "excerpt f N (Push data index eof)" and N: "N + unat c < 2 ^ 64"
  shows "\<exists>r'. push_substring data index eof r = Some r' \<and> on_stream f N c r' \<and>
    n_bytes_read (ra_output r') = n_bytes_read (ra_output r) \<and> (eof_set r' \<longleftrightarrow> eof_set r \<or> eof) \<and>
    received r' = received r \<union> ({unat index..<unat index + length data} \<inter> {..<window_end r})"
proof (cases "input_ended (ra_output r)")
  case True
  then have "{..<N} \<subseteq> received r" "eof_set r" using os by (auto simp: on_stream_def received_def)
  then show ?thesis using True os ex by (cases "data = []") (auto simp: push_substring_def)
next
  case False
  have len: "unat index + length data < 2 ^ 64" and w: "window_end r < 2 ^ 64"
    using ex N on_stream_bounds(2) [OF os] unat_u64_less [of index] by (cases "data = []"; auto)+
  have inv: "ra_inv r" using os by (simp add: on_stream_def)
  obtain r' where p: "push_substring data index eof r = Some r'" "push_result data index eof r r'"
    using push_substring_correct [OF inv w len False] by blast
  have "received r' \<subseteq> {..<N}"
    using p(2) os ex by (cases "data = []") (auto simp: push_result_def on_stream_def)
  moreover from this have "unat (first_unasmb r') \<le> N"
    by (metis Un_subset_iff lessThan_subset_iff received_def)
  moreover have "eof_set r' \<Longrightarrow> unat (last_byte r') = N"
    using p(2) os ex len by (auto simp: push_result_def on_stream_def unat_simps)
  ultimately have "on_stream f N c r'"
    using p(2) os ex by (auto simp: push_result_def on_stream_def)
  with p show ?thesis by (auto simp: push_result_def)
qed

lemma on_stream_consume:
  assumes os: "on_stream f N c r" and c: "0 < unat c"
  shows "\<exists>x out. bs_read len (ra_output r) = Some (x, out) \<and> on_stream f N c (r\<lparr>ra_output := out\<rparr>) \<and>
    map f [0..<unat (n_bytes_read (ra_output r))] @ x = map f [0..<unat (n_bytes_read out)] \<and>
    unat (n_bytes_read out) = min (unat (n_bytes_read (ra_output r)) + unat len) (unat (first_unasmb r))"
proof -
  let ?o = "ra_output r" and ?F = "unat (first_unasmb r)"
  have inv: "ra_inv r" and cap: "0 < unat (ra_capacity r)" using os c by (simp_all add: on_stream_def)
  have view: "bs_view ?o = map f [unat (n_bytes_read ?o)..<?F]" using os by (simp add: on_stream_def content_def)
  have F: "?F = unat (n_bytes_read ?o) + unat (cur_size ?o)" using inv by (simp add: ra_inv_def ra_core_def)
  define k where "k = min (unat len) (unat (cur_size ?o))"
  obtain out where out: "bs_read len ?o = Some (take (unat len) (bs_view ?o), out)" "ra_inv (r\<lparr>ra_output := out\<rparr>)"
    "bs_view out = drop (unat len) (bs_view ?o)" "done_writing out = done_writing ?o"
    "unat (n_bytes_read out) = unat (n_bytes_read ?o) + k"
    using ra_inv_consume [OF inv cap, of len] by (auto simp: k_def)
  have tk: "take (unat len) (bs_view ?o) = map f [unat (n_bytes_read ?o)..<unat (n_bytes_read out)]"
    using F unfolding view out(5) by (intro nth_equalityI) (simp_all add: k_def)
  have dr: "bs_view out = map f [unat (n_bytes_read out)..<?F]"
    using F unfolding out(3) view out(5) k_def by (intro nth_equalityI) (auto simp: min_def add.assoc)
  have "on_stream f N c (r\<lparr>ra_output := out\<rparr>)"
    using os out(2,4) dr unfolding on_stream_def
    by (simp add: content_def received_def input_ended_def)
  moreover have "map f [0..<unat (n_bytes_read ?o)] @ take (unat len) (bs_view ?o) =
      map f [0..<unat (n_bytes_read out)]"
    unfolding tk using out(5) by (intro map_upt_append) simp_all
  ultimately show ?thesis using out(1,5) F by (simp add: k_def)
qed

text \<open>
  What the pushes and reads amount to, whatever the reassembler stores: the set \<open>R\<close> of indices that have
  arrived inside the window, and the number \<open>k\<close> of bytes read. The window ends \<open>c\<close> bytes after the last byte read,
  and a reader gets at most what lies before the first missing index.
\<close>

definition first_missing :: "nat \<Rightarrow> nat set \<Rightarrow> nat" where
  "first_missing N R = length (takeWhile (\<lambda>i. i \<in> R) [0..<N])"

fun arrive :: "nat \<Rightarrow> nat \<Rightarrow> ra_op \<Rightarrow> nat set \<times> nat \<Rightarrow> nat set \<times> nat" where
  "arrive N c (Push data index eof) (R, k) = (R \<union> ({unat index..<unat index + length data} \<inter> {..<k + c}), k)"
| "arrive N c (Consume len) (R, k) = (R, min (k + unat len) (first_missing N R))"

definition arrivals :: "nat \<Rightarrow> nat \<Rightarrow> ra_op list \<Rightarrow> nat set \<times> nat" where
  "arrivals N c ops = fold (arrive N c) ops ({}, 0)"

lemma first_missing_eq:
  assumes "{..<m} \<subseteq> R" and "m \<notin> R" and "R \<subseteq> {..<N}"
  shows "first_missing N R = m"
proof -
  have "m \<le> N" using assms(1,3) by (metis dual_order.trans lessThan_subset_iff)
  then have "[0..<N] = [0..<m] @ [m..<N]" by (metis le_add_diff_inverse le0 upt_add_eq_append)
  moreover have "takeWhile (\<lambda>i. i \<in> R) [m..<N] = []" using assms(2) by (cases "m < N") (simp_all add: upt_conv_Cons)
  moreover have "takeWhile (\<lambda>i. i \<in> R) ([0..<m] @ ys) = [0..<m] @ takeWhile (\<lambda>i. i \<in> R) ys" for ys
    by (rule takeWhile_append2) (use assms(1) in auto)
  ultimately show ?thesis by (simp add: first_missing_def)
qed

lemma on_stream_first_missing:
  assumes "on_stream f N c r"
  shows "first_missing N (received r) = unat (first_unasmb r)"
proof (rule first_missing_eq)
  show "unat (first_unasmb r) \<notin> received r"
    using assms by (fastforce simp: on_stream_def ra_inv_def received_def ra_core_def span_def)
qed (use assms in \<open>auto simp: on_stream_def received_def\<close>)

lemma run_ra_on_stream:
  assumes "on_stream f N c r" and "0 < unat c" and "N + unat c < 2 ^ 64" and "list_all (excerpt f N) ops"
  shows "\<exists>out r'. run_ra ops r = Some (out, r') \<and> on_stream f N c r' \<and>
    map f [0..<unat (n_bytes_read (ra_output r))] @ out = map f [0..<unat (n_bytes_read (ra_output r'))] \<and>
    (eof_set r' \<longleftrightarrow> eof_set r \<or> (\<exists>d i. Push d i True \<in> set ops)) \<and>
    (received r', unat (n_bytes_read (ra_output r'))) =
      fold (arrive N (unat c)) ops (received r, unat (n_bytes_read (ra_output r)))"
  using assms
proof (induction ops arbitrary: r)
  case Nil
  then show ?case by simp
next
  case (Cons op ops)
  show ?case
  proof (cases op)
    case (Push data index eof)
    with Cons.prems on_stream_push [of f N c r data index eof] obtain r1 where
      r1: "push_substring data index eof r = Some r1" "on_stream f N c r1"
      "n_bytes_read (ra_output r1) = n_bytes_read (ra_output r)" "eof_set r1 \<longleftrightarrow> eof_set r \<or> eof"
      "received r1 = received r \<union> ({unat index..<unat index + length data} \<inter> {..<window_end r})"
      by auto
    have "window_end r = unat (n_bytes_read (ra_output r)) + unat c"
      using Cons.prems(1) by (simp add: window_end_def on_stream_def)
    with r1(3,5) have "(received r1, unat (n_bytes_read (ra_output r1))) =
        arrive N (unat c) op (received r, unat (n_bytes_read (ra_output r)))" by (simp add: Push)
    moreover have "(\<exists>d i. Push d i True \<in> set (op # ops)) \<longleftrightarrow> eof \<or> (\<exists>d i. Push d i True \<in> set ops)"
      unfolding Push by auto
    ultimately show ?thesis using Cons.IH [of r1] Cons.prems r1(1-4) Push by auto
  next
    case (Consume len)
    with Cons.prems on_stream_consume [of f N c r len] obtain x out where
      out: "bs_read len (ra_output r) = Some (x, out)" "on_stream f N c (r\<lparr>ra_output := out\<rparr>)"
      "map f [0..<unat (n_bytes_read (ra_output r))] @ x = map f [0..<unat (n_bytes_read out)]"
      "unat (n_bytes_read out) = min (unat (n_bytes_read (ra_output r)) + unat len) (unat (first_unasmb r))"
      by auto
    have "(received (r\<lparr>ra_output := out\<rparr>), unat (n_bytes_read out)) =
        arrive N (unat c) op (received r, unat (n_bytes_read (ra_output r)))"
      using out(4) on_stream_first_missing [OF Cons.prems(1)] by (simp add: Consume received_def)
    with Cons.IH [of "r\<lparr>ra_output := out\<rparr>"] Cons.prems Consume out(1-3) show ?thesis
      by (auto simp flip: append_assoc)
  qed
qed

subsection \<open>Properties\<close>

text \<open>
  C3. Exact reassembly. Let excerpts of a stream \<open>f\<close> of \<open>N\<close> bytes be pushed in any order, with any
  overlaps, gaps and repetitions, and let the output be read at any time in between. Let \<open>R\<close> be the set
  of the indices pushed while they lay inside the window and \<open>k\<close> the number of bytes asked for and
  available, both computed from the pushes and reads alone, and let \<open>m\<close> be the first index that is not in \<open>R\<close>.
  Then no step throws; exactly the first \<open>k\<close> bytes of \<open>f\<close> have been read and exactly those from \<open>k\<close> to
  \<open>m\<close> are ready to be read, so nothing that arrived in the window is lost, out of order or not; the bytes
  counted as unassembled are those of \<open>R\<close> beyond \<open>m\<close>; and the output is closed exactly when the whole
  stream has been assembled and its end has been announced.
\<close>

theorem reassembly_exact:
  assumes "0 < unat c" and "unat c < 2 ^ 63" and "N + unat c < 2 ^ 64" and "list_all (excerpt f N) ops"
    and "arrivals N (unat c) ops = (R, k)" and "first_missing N R = m"
  shows "\<exists>r. run_ra ops (ra_new c) = Some (map f [0..<k], r) \<and> bs_view (ra_output r) = map f [k..<m] \<and>
    unat (unassembled_bytes r) = card (R - {..<m}) \<and>
    (input_ended (ra_output r) \<longleftrightarrow> m = N \<and> (\<exists>d i. Push d i True \<in> set ops))"
proof -
  have z: "unat (n_bytes_read (ra_output (ra_new c))) = 0" "\<not> eof_set (ra_new c)" "received (ra_new c) = {}"
    by (simp_all add: ra_new_def bs_new_def received_def)
  obtain out r where r: "run_ra ops (ra_new c) = Some (out, r)" "on_stream f N c r"
    "out = map f [0..<unat (n_bytes_read (ra_output r))]" "eof_set r \<longleftrightarrow> (\<exists>d i. Push d i True \<in> set ops)"
    "(received r, unat (n_bytes_read (ra_output r))) = arrivals N (unat c) ops"
    using run_ra_on_stream [OF on_stream_new [OF assms(2)] assms(1,3,4)] z by (auto simp: arrivals_def)
  then have R: "received r = R" "unat (n_bytes_read (ra_output r)) = k" using assms(5) by simp_all
  have m: "unat (first_unasmb r) = m" using on_stream_first_missing [OF r(2)] assms(6) R(1) by simp
  have core: "ra_core r" using r(2) by (simp add: on_stream_def ra_inv_def)
  have "bs_view (ra_output r) = map f [k..<m]" using r(2) R(2) m by (simp add: on_stream_def content_def)
  then show ?thesis using r R m unassembled_card [OF core] by (auto simp: on_stream_def)
qed

theorem reassembly_exact_witness:
  "\<exists>r. run_ra [Push [12, 13] 2 True, Consume 5, Push [10, 11, 12] 0 False, Consume 3] (ra_new 8) = Some ([10, 11, 12], r) \<and>
     bs_view (ra_output r) = [13] \<and> unassembled_bytes r = 0 \<and> input_ended (ra_output r)"
proof -
  let ?ops = "[Push [12, 13] 2 True, Consume 5, Push [10, 11, 12] 0 False, Consume 3]"
  have ex: "list_all (excerpt (\<lambda>i. of_nat (i + 10)) 4) ?ops" by (simp add: All_less_Suc2)
  have a: "arrivals 4 (unat (8 :: u64)) ?ops = (set [0, 1, 2, 3], 3)" by code_simp
  have m: "first_missing 4 (set [0, 1, 2, 3]) = 4" by code_simp
  show ?thesis using reassembly_exact [OF _ _ _ ex a m] by (simp add: upt_rec unat_eq_0)
qed

text \<open>
  C27. One push, in any reachable state, for any data whose end is representable: it does not throw,
  keeps the invariant, and the set of indices received grows by exactly the part of the substring
  inside the window; the assembled prefix then ends at the first index not received, the count of
  unassembled bytes counts every stored index once, and stored plus buffered bytes fit the capacity.
\<close>

theorem push_substring_window:
  assumes "ra_inv r" and "\<not> input_ended (ra_output r)" and "window_end r < 2 ^ 64"
    and "unat index + length data < 2 ^ 64"
  shows "\<exists>r'. push_substring data index eof r = Some r' \<and> ra_inv r' \<and>
    received r' = received r \<union> ({unat index..<unat index + length data} \<inter> {..<window_end r}) \<and>
    unat (bytes_written (ra_output r')) = (LEAST i. i \<notin> received r') \<and>
    unat (unassembled_bytes r') = card (received r' - {..<unat (first_unasmb r')}) \<and>
    unat (unassembled_bytes r') + unat (buffer_size (ra_output r')) \<le> unat (ra_capacity r)"
proof -
  obtain r' where r': "push_substring data index eof r = Some r'" "push_result data index eof r r'"
    using push_substring_correct [OF assms(1,3,4,2)] by blast
  then have core: "ra_core r'" by (simp add: push_result_def ra_inv_def)
  then have "bytes_written (ra_output r') = first_unasmb r'"
    using unat_u64_less [of "first_unasmb r'"]
    by (simp add: ra_core_def bs_inv_def bytes_written_def word_eq_unat_iff unat_simps)
  with r' first_unasmb_missing [OF core] unassembled_card [OF core] show ?thesis
    by (auto simp: push_result_def)
qed

theorem push_substring_window_witness:
  "\<exists>r'. push_substring [1, 2, 3] 2 False (ra_new 4) = Some r' \<and> ra_inv r' \<and> received r' = {2..<4} \<and>
     unat (unassembled_bytes r') = 2"
proof -
  have inv: "ra_inv (ra_new 4)" using on_stream_new [of 4 f 0] by (simp add: on_stream_def)
  have h: "\<not> input_ended (ra_output (ra_new 4))" "window_end (ra_new 4) = 4" "received (ra_new 4) = {}"
    by (simp_all add: ra_new_def bs_new_def input_ended_def window_end_def received_def)
  obtain r' where r': "push_substring [1, 2, 3] 2 False (ra_new 4) = Some r'" "ra_inv r'"
    "received r' = {2..<5} \<inter> {..<4}" "unat (unassembled_bytes r') = card (received r' - {..<unat (first_unasmb r')})"
    using push_substring_window [OF inv h(1), of 2 "[1, 2, 3]" False] h(2,3) by auto
  have "{2..<5} \<inter> {..<4} = {2..<4::nat}" by auto
  with r'(3) have rc: "received r' = {2..<4}" by (rule trans)
  have "unat (first_unasmb r') = (LEAST i. i \<notin> received r')"
    using r'(2) by (simp add: first_unasmb_missing ra_inv_def)
  also have "\<dots> = 0" by (rule Least_equality) (simp_all add: rc)
  finally show ?thesis using r'(1,2,4) rc by simp
qed
end
