(* ===== verification/Net_Buffer.thy ===== *)
theory Net_Buffer
  imports Sponge_Prelude
begin

text \<open>
  The read-only strings of \<open>libsponge/util/buffer.hh\<close> and \<open>buffer.cc\<close>: \<open>Buffer\<close>, a shared string
  with a starting offset, \<open>BufferList\<close>, a queue of buffers, and \<open>BufferViewList\<close>, a queue of
  string views. All three discard bytes from the front; the locale \<open>prefix_store\<close> states the
  contract they share. A throw is \<^const>\<open>None\<close>.
\<close>

subsection \<open>Buffer\<close>

text \<open>\<open>storage\<close> is the shared pointer, \<^const>\<open>None\<close> when it is null. The string is never
  modified, so sharing it between copies of a buffer cannot be observed.\<close>

record buffer =
  storage :: "bytes option"
  starting_offset :: u64

definition buffer_empty_new :: buffer where
  "buffer_empty_new = \<lparr>storage = None, starting_offset = 0\<rparr>"

definition buffer_new :: "bytes \<Rightarrow> buffer" where
  "buffer_new s = \<lparr>storage = Some s, starting_offset = 0\<rparr>"

definition buffer_str :: "buffer \<Rightarrow> bytes" where
  "buffer_str b = (case storage b of None \<Rightarrow> [] | Some s \<Rightarrow> drop (unat (starting_offset b)) s)"

definition buffer_at :: "buffer \<Rightarrow> u64 \<Rightarrow> u8 option" where
  "buffer_at b n = (if unat n < length (buffer_str b) then Some (buffer_str b ! unat n) else None)"

definition buffer_sz :: "buffer \<Rightarrow> u64" where
  "buffer_sz b = size64 (buffer_str b)"

definition buffer_copy :: "buffer \<Rightarrow> bytes" where
  "buffer_copy b = buffer_str b"

definition buffer_remove_prefix :: "u64 \<Rightarrow> buffer \<Rightarrow> buffer option" where
  "buffer_remove_prefix n b =
     (if n > buffer_sz b then None
      else let b1 = b\<lparr>starting_offset := starting_offset b + n\<rparr>
           in Some (case storage b1 of
                      Some s \<Rightarrow> if starting_offset b1 = size64 s then b1\<lparr>storage := None\<rparr> else b1
                    | None \<Rightarrow> b1))"

definition buffer_inv :: "buffer \<Rightarrow> bool" where
  "buffer_inv b \<longleftrightarrow> (case storage b of None \<Rightarrow> True
     | Some s \<Rightarrow> length s < 2 ^ 64 \<and> unat (starting_offset b) \<le> length s)"

subsection \<open>BufferList\<close>

type_synonym buffer_list = "buffer list"

definition bl_of_buffer :: "buffer \<Rightarrow> buffer_list" where
  "bl_of_buffer b = [b]"

definition bl_append :: "buffer_list \<Rightarrow> buffer_list \<Rightarrow> buffer_list" where
  "bl_append bl other = fold (\<lambda>buf bufs. bufs @ [buf]) other bl"

definition bl_of_string :: "bytes \<Rightarrow> buffer_list" where
  "bl_of_string s = bl_append [] (bl_of_buffer (buffer_new s))"

definition bl_to_buffer :: "buffer_list \<Rightarrow> buffer option" where
  "bl_to_buffer bl = (case bl of [] \<Rightarrow> Some buffer_empty_new | [b] \<Rightarrow> Some b | _ \<Rightarrow> None)"

definition bl_concatenate :: "buffer_list \<Rightarrow> bytes" where
  "bl_concatenate bl = fold (\<lambda>buf ret. ret @ buffer_str buf) bl []"

definition bl_size :: "buffer_list \<Rightarrow> u64" where
  "bl_size bl = fold (\<lambda>buf ret. ret + buffer_sz buf) bl 0"

fun bl_remove_prefix :: "u64 \<Rightarrow> buffer_list \<Rightarrow> buffer_list option" where
  "bl_remove_prefix n [] = (if n > 0 then None else Some [])"
| "bl_remove_prefix n (b # bl) =
     (if n > 0 then
        if n < buffer_sz b then map_option (\<lambda>b'. b' # bl) (buffer_remove_prefix n b)
        else bl_remove_prefix (n - buffer_sz b) bl
      else Some (b # bl))"

subsection \<open>BufferViewList\<close>

text \<open>A string view is the byte sequence it shows; an \<open>iovec\<close> is a pointer and a size, that is,
  again the bytes it designates.\<close>

type_synonym buffer_view_list = "bytes list"

definition bvl_of_string :: "bytes \<Rightarrow> buffer_view_list" where
  "bvl_of_string s = [s]"

definition bvl_of_buffer_list :: "buffer_list \<Rightarrow> buffer_view_list" where
  "bvl_of_buffer_list bl = fold (\<lambda>x views. views @ [buffer_str x]) bl []"

fun bvl_remove_prefix :: "u64 \<Rightarrow> buffer_view_list \<Rightarrow> buffer_view_list option" where
  "bvl_remove_prefix n [] = (if n > 0 then None else Some [])"
| "bvl_remove_prefix n (v # vs) =
     (if n > 0 then
        if n < size64 v then Some (drop (unat n) v # vs)
        else bvl_remove_prefix (n - size64 v) vs
      else Some (v # vs))"

definition bvl_size :: "buffer_view_list \<Rightarrow> u64" where
  "bvl_size vs = fold (\<lambda>v ret. ret + size64 v) vs 0"

definition bvl_as_iovecs :: "buffer_view_list \<Rightarrow> bytes list" where
  "bvl_as_iovecs vs = fold (\<lambda>x ret. ret @ [x]) vs []"

subsection \<open>Folds as list functions\<close>

lemma fold_snoc: "fold (\<lambda>x ys. ys @ [f x]) xs acc = acc @ map f xs"
  by (induction xs arbitrary: acc) simp_all

lemma fold_append: "fold (\<lambda>x ys. ys @ f x) xs acc = acc @ concat (map f xs)"
  by (induction xs arbitrary: acc) simp_all

lemma fold_sum: "fold (\<lambda>x n. n + f x) xs (acc :: 'a :: monoid_add) = acc + sum_list (map f xs)"
  by (induction xs arbitrary: acc) (simp_all add: add.assoc)

lemma bl_append_eq [simp]: "bl_append bl other = bl @ other"
  using fold_snoc [of "\<lambda>x. x" other bl] by (simp add: bl_append_def)

lemma bl_concatenate_eq: "bl_concatenate bl = concat (map buffer_str bl)"
  by (simp add: bl_concatenate_def fold_append)

lemma bvl_of_buffer_list_eq: "bvl_of_buffer_list bl = map buffer_str bl"
  by (simp add: bvl_of_buffer_list_def fold_snoc)

lemma bvl_as_iovecs_eq [simp]: "bvl_as_iovecs vs = vs"
  using fold_snoc [of "\<lambda>x. x" vs "[]"] by (simp add: bvl_as_iovecs_def)

lemma sum_size64: "sum_list (map (\<lambda>x. size64 (f x)) xs) = size64 (concat (map f xs))"
  by (induction xs) (simp_all add: size64_def)

lemma bl_size_eq: "bl_size bl = size64 (bl_concatenate bl)"
  by (simp add: bl_size_def bl_concatenate_eq buffer_sz_def fold_sum sum_size64)

lemma bvl_size_eq: "bvl_size vs = size64 (concat vs)"
  using sum_size64 [of "\<lambda>x. x" vs] by (simp add: bvl_size_def fold_sum)

subsection \<open>Removing a prefix\<close>

lemma buffer_inv_new: "length s < 2 ^ 64 \<Longrightarrow> buffer_inv (buffer_new s)"
  by (simp add: buffer_inv_def buffer_new_def)

lemma buffer_str_new [simp]: "buffer_str (buffer_new s) = s" "buffer_str buffer_empty_new = []"
  by (simp_all add: buffer_str_def buffer_new_def buffer_empty_new_def)

lemma length_buffer_str: "buffer_inv b \<Longrightarrow> length (buffer_str b) < 2 ^ 64"
  by (auto simp: buffer_inv_def buffer_str_def split: option.splits)

lemma unat_buffer_sz: "buffer_inv b \<Longrightarrow> unat (buffer_sz b) = length (buffer_str b)"
  by (simp only: buffer_sz_def length_buffer_str unat_size64)

text \<open>The buffer that is left after the first \<open>n\<close> bytes.\<close>

definition buffer_advance :: "u64 \<Rightarrow> buffer \<Rightarrow> buffer" where
  "buffer_advance n b =
     \<lparr>storage = (case storage b of None \<Rightarrow> None
         | Some s \<Rightarrow> if starting_offset b + n = size64 s then None else Some s),
      starting_offset = starting_offset b + n\<rparr>"

lemma buffer_remove_prefix_eq:
  assumes "buffer_inv b"
  shows "buffer_remove_prefix n b =
    (if unat n \<le> length (buffer_str b) then Some (buffer_advance n b) else None)"
  using assms
  by (auto simp: buffer_remove_prefix_def buffer_advance_def word_less_nat_alt unat_buffer_sz Let_def
      split: option.split)

lemma buffer_advance:
  assumes "buffer_inv b" and "unat n \<le> length (buffer_str b)"
  shows "buffer_str (buffer_advance n b) = drop (unat n) (buffer_str b)" "buffer_inv (buffer_advance n b)"
proof -
  have *: "unat (starting_offset b + n) = unat (starting_offset b) + unat n" if "storage b = Some s" for s
    using assms that by (intro unat_add_no_wrap) (auto simp: buffer_inv_def buffer_str_def)
  show "buffer_str (buffer_advance n b) = drop (unat n) (buffer_str b)"
    using assms *
    by (auto simp: buffer_str_def buffer_advance_def buffer_inv_def word_eq_unat_iff unat_size64 add.commute
        split: option.splits)
  show "buffer_inv (buffer_advance n b)"
    using assms *
    by (auto simp: buffer_str_def buffer_advance_def buffer_inv_def split: option.splits)
qed

text \<open>
  The contract: removing at most what is there leaves the rest; removing more throws. The client
  lemma says that two removals are one.
\<close>

locale prefix_store =
  fixes invar :: "'s \<Rightarrow> bool"
    and contents :: "'s \<Rightarrow> bytes"
    and remove :: "u64 \<Rightarrow> 's \<Rightarrow> 's option"
  assumes remove_ok: "invar s \<Longrightarrow> unat n \<le> length (contents s) \<Longrightarrow>
      \<exists>s'. remove n s = Some s' \<and> invar s' \<and> contents s' = drop (unat n) (contents s)"
    and remove_throws: "invar s \<Longrightarrow> length (contents s) < unat n \<Longrightarrow> remove n s = None"
begin

lemma remove_iff:
  assumes "invar s"
  shows "(\<exists>s'. remove n s = Some s') \<longleftrightarrow> unat n \<le> length (contents s)"
  using assms remove_ok [of s n] remove_throws [of s n] by (metis option.distinct(1) not_le)

lemma remove_remove:
  assumes "invar s" and "unat m + unat n < 2 ^ 64"
  shows "map_option contents (Option.bind (remove m s) (remove n)) = map_option contents (remove (m + n) s)"
proof -
  have mn: "unat (m + n) = unat m + unat n" using assms(2) by (simp add: unat_simps)
  consider "length (contents s) < unat m" | "unat m \<le> length (contents s)" "length (contents s) < unat m + unat n"
    | "unat m + unat n \<le> length (contents s)" by linarith
  then show ?thesis
  proof cases
    case 1
    then show ?thesis using assms(1) mn by (simp add: remove_throws)
  next
    case 2
    then obtain s' where "remove m s = Some s'" "invar s'" "contents s' = drop (unat m) (contents s)"
      using remove_ok assms(1) by blast
    with 2 show ?thesis using assms(1) mn by (simp add: remove_throws)
  next
    case 3
    then have "unat m \<le> length (contents s)" by simp
    then obtain s' where s': "remove m s = Some s'" "invar s'" "contents s' = drop (unat m) (contents s)"
      using remove_ok assms(1) by blast
    then obtain s2 where "remove n s' = Some s2" "contents s2 = drop (unat n) (contents s')"
      using remove_ok [of s' n] 3 by fastforce
    moreover obtain s3 where "remove (m + n) s = Some s3" "contents s3 = drop (unat m + unat n) (contents s)"
      using remove_ok [of s "m + n"] assms(1) 3 mn by auto
    ultimately show ?thesis using s' by (simp add: add.commute)
  qed
qed

end

interpretation buf: prefix_store buffer_inv buffer_str buffer_remove_prefix
  by unfold_locales (auto simp: buffer_remove_prefix_eq buffer_advance)

definition bl_inv :: "buffer_list \<Rightarrow> bool" where
  "bl_inv bl \<longleftrightarrow> (\<forall>b \<in> set bl. buffer_inv b)"

lemma bl_remove_prefix_ok:
  assumes "bl_inv bl" and "unat n \<le> length (bl_concatenate bl)"
  shows "\<exists>bl'. bl_remove_prefix n bl = Some bl' \<and> bl_inv bl' \<and>
    bl_concatenate bl' = drop (unat n) (bl_concatenate bl)"
  using assms
proof (induction bl arbitrary: n)
  case Nil
  then show ?case by (simp add: bl_concatenate_eq word_less_nat_alt)
next
  case (Cons b bl)
  have inv: "buffer_inv b" "bl_inv bl" using Cons.prems(1) by (simp_all add: bl_inv_def)
  consider "n = 0" | "0 < n" "unat n < length (buffer_str b)" | "0 < n" "length (buffer_str b) \<le> unat n"
    by (metis not_le word_neq_0_conv)
  then show ?case
  proof cases
    case 1
    with Cons.prems show ?thesis by simp
  next
    case 2
    with inv Cons.prems(1) show ?thesis
      by (auto simp: word_less_nat_alt unat_buffer_sz buffer_remove_prefix_eq buffer_advance bl_inv_def
          bl_concatenate_eq)
  next
    case 3
    with inv have k: "unat (n - buffer_sz b) = unat n - length (buffer_str b)"
      by (simp add: unat_simps unat_buffer_sz)
    with Cons.IH [OF inv(2), of "n - buffer_sz b"] Cons.prems(2) 3 inv show ?thesis
      by (auto simp: word_less_nat_alt unat_buffer_sz bl_concatenate_eq)
  qed
qed

lemma bl_remove_prefix_throws:
  assumes "bl_inv bl" and "length (bl_concatenate bl) < unat n"
  shows "bl_remove_prefix n bl = None"
  using assms
proof (induction bl arbitrary: n)
  case Nil
  then show ?case by (auto simp: word_less_nat_alt)
next
  case (Cons b bl)
  have inv: "buffer_inv b" "bl_inv bl" using Cons.prems(1) by (simp_all add: bl_inv_def)
  have le: "length (buffer_str b) \<le> unat n" "0 < unat n"
    using Cons.prems(2) by (simp_all add: bl_concatenate_eq)
  then have "unat (n - buffer_sz b) = unat n - length (buffer_str b)"
    using inv by (simp add: unat_simps unat_buffer_sz)
  with Cons.IH [OF inv(2), of "n - buffer_sz b"] Cons.prems(2) le inv show ?case
    by (auto simp: word_less_nat_alt unat_buffer_sz bl_concatenate_eq)
qed

interpretation bl: prefix_store bl_inv bl_concatenate bl_remove_prefix
  by unfold_locales (simp_all add: bl_remove_prefix_ok bl_remove_prefix_throws)

text \<open>A view list over the buffers behaves as the buffers do.\<close>

definition bvl_inv :: "buffer_view_list \<Rightarrow> bool" where
  "bvl_inv vs \<longleftrightarrow> (\<forall>v \<in> set vs. length v < 2 ^ 64)"

lemma bvl_remove_prefix_bl:
  assumes "bl_inv bl"
  shows "bvl_remove_prefix n (map buffer_str bl) = map_option (map buffer_str) (bl_remove_prefix n bl)"
  using assms
proof (induction bl arbitrary: n)
  case Nil
  then show ?case by simp
next
  case (Cons b bl)
  then have "buffer_inv b" by (simp add: bl_inv_def)
  moreover from this have "unat (size64 (buffer_str b)) = length (buffer_str b)"
    using unat_buffer_sz by (simp add: buffer_sz_def)
  ultimately show ?case
    using Cons
    by (auto simp: bl_inv_def buffer_remove_prefix_eq buffer_advance word_less_nat_alt buffer_sz_def)
qed

lemma bvl_via_buffers:
  assumes "bvl_inv vs"
  obtains bl where "bl_inv bl" "vs = map buffer_str bl" "concat vs = bl_concatenate bl"
proof
  show "bl_inv (map buffer_new vs)" using assms by (auto simp: bl_inv_def bvl_inv_def buffer_inv_new)
  show "vs = map buffer_str (map buffer_new vs)" by (simp add: comp_def)
  show "concat vs = bl_concatenate (map buffer_new vs)" by (simp add: bl_concatenate_eq comp_def)
qed

interpretation bvl: prefix_store bvl_inv concat bvl_remove_prefix
proof unfold_locales
  fix vs :: buffer_view_list and n :: u64
  assume "bvl_inv vs"
  then obtain bl where bl: "bl_inv bl" "vs = map buffer_str bl" "concat vs = bl_concatenate bl"
    by (rule bvl_via_buffers)
  note eq = bvl_remove_prefix_bl [OF bl(1), of n, folded bl(2)]
  show "\<exists>s'. bvl_remove_prefix n vs = Some s' \<and> bvl_inv s' \<and> concat s' = drop (unat n) (concat vs)"
    if le: "unat n \<le> length (concat vs)"
  proof -
    obtain bl' where "bl_remove_prefix n bl = Some bl'" "bl_inv bl'"
      "bl_concatenate bl' = drop (unat n) (bl_concatenate bl)"
      using bl_remove_prefix_ok [OF bl(1), of n] le unfolding bl(3) by blast
    then show ?thesis
      using eq bl(3) by (auto simp: bl_concatenate_eq bvl_inv_def bl_inv_def length_buffer_str [simplified])
  qed
  show "bvl_remove_prefix n vs = None" if "length (concat vs) < unat n"
    using eq that bl(3) bl_remove_prefix_throws [OF bl(1), of n] by simp
qed

subsection \<open>Properties\<close>

text \<open>
  \<open>BufferList::remove_prefix\<close> drops exactly the first \<open>n\<close> bytes of the concatenation, however
  the bytes are split into buffers, and throws exactly when \<open>n\<close> exceeds \<open>size()\<close>; \<open>size()\<close>
  shrinks by \<open>n\<close>; the \<open>BufferViewList\<close> over the same buffers takes the same steps.
\<close>

theorem buffer_list_remove_prefix:
  assumes "bl_inv bl" and "length (bl_concatenate bl) < 2 ^ 64"
  shows "map_option bl_concatenate (bl_remove_prefix n bl) =
      (if n \<le> bl_size bl then Some (drop (unat n) (bl_concatenate bl)) else None) \<and>
    map_option bl_size (bl_remove_prefix n bl) = (if n \<le> bl_size bl then Some (bl_size bl - n) else None) \<and>
    map_option concat (bvl_remove_prefix n (bvl_of_buffer_list bl)) =
      map_option bl_concatenate (bl_remove_prefix n bl)"
proof (cases "n \<le> bl_size bl")
  case True
  then have n: "unat n \<le> length (bl_concatenate bl)"
    using assms(2) by (simp add: word_le_nat_alt bl_size_eq unat_simps)
  then obtain bl' where bl': "bl_remove_prefix n bl = Some bl'" "bl_concatenate bl' = drop (unat n) (bl_concatenate bl)"
    using bl.remove_ok [OF assms(1)] by blast
  have "bl_size bl' = bl_size bl - n"
    using n assms(2) True by (simp add: bl_size_eq bl'(2) word_eq_unat_iff unat_simps)
  with True bl' bvl_remove_prefix_bl [OF assms(1), of n] show ?thesis
    by (simp add: bvl_of_buffer_list_eq bl_concatenate_eq)
next
  case False
  then have "bl_remove_prefix n bl = None"
    using bl.remove_throws [OF assms(1)] assms(2) by (simp add: word_le_nat_alt bl_size_eq unat_simps)
  with False bvl_remove_prefix_bl [OF assms(1), of n] show ?thesis by (simp add: bvl_of_buffer_list_eq)
qed

theorem buffer_list_remove_prefix_witness:
  "map_option bl_concatenate (bl_remove_prefix 3 [buffer_new [1, 2], buffer_new [3, 4, 5]]) = Some [4, 5]"
proof -
  let ?bl = "[buffer_new [1, 2], buffer_new [3, 4, 5]]"
  have h: "bl_inv ?bl" "length (bl_concatenate ?bl) < 2 ^ 64"
    by (simp_all add: bl_inv_def buffer_inv_new bl_concatenate_eq)
  have "3 \<le> bl_size ?bl" by (simp add: bl_size_eq bl_concatenate_eq size64_def)
  then show ?thesis
    using buffer_list_remove_prefix [OF h, of 3] by (simp add: bl_concatenate_eq del: bl_remove_prefix.simps)
qed

end
