(* ===== verification/Net_Parser.thy ===== *)
theory Net_Parser
  imports Net_Buffer "HOL-Library.Monad_Syntax"
begin

text \<open>
  Big-endian integers on the wire, \<open>libsponge/util/parser.hh\<close> and \<open>parser.cc\<close>: \<open>NetParser\<close>
  reads 8, 16 and 32-bit integers from the front of a buffer and remembers the first failure;
  \<open>NetUnparser\<close> appends them to a string. The three widths are instances of one template, here
  one definition at a word type of any width. Exceptions of the buffer are \<^const>\<open>None\<close>; it is
  shown that a parser on a well-formed buffer never meets one.
\<close>

datatype ParseResult =
  NoError | BadChecksum | PacketTooShort | WrongIPVersion | HeaderTooShort | TruncatedPacket | Unsupported

text \<open>\<open>as_string\<close> indexes a table by the enumerator; past the end of the table the access is
  undefined, here \<^const>\<open>None\<close>.\<close>

fun parse_result_index :: "ParseResult \<Rightarrow> nat" where
  "parse_result_index NoError = 0"
| "parse_result_index BadChecksum = 1"
| "parse_result_index PacketTooShort = 2"
| "parse_result_index WrongIPVersion = 3"
| "parse_result_index HeaderTooShort = 4"
| "parse_result_index TruncatedPacket = 5"
| "parse_result_index Unsupported = 6"

definition parse_result_names :: "string list" where
  "parse_result_names = [''NoError'', ''BadChecksum'', ''PacketTooShort'', ''WrongIPVersion'',
     ''HeaderTooShort'', ''TruncatedPacket'']"

definition as_string :: "ParseResult \<Rightarrow> string option" where
  "as_string r = (if parse_result_index r < length parse_result_names
     then Some (parse_result_names ! parse_result_index r) else None)"

record net_parser =
  np_buffer :: buffer
  np_error :: ParseResult

definition np_new :: "buffer \<Rightarrow> net_parser" where
  "np_new b = \<lparr>np_buffer = b, np_error = NoError\<rparr>"

definition np_failed :: "net_parser \<Rightarrow> bool" where
  "np_failed p \<longleftrightarrow> np_error p \<noteq> NoError"

definition np_set_error :: "ParseResult \<Rightarrow> net_parser \<Rightarrow> net_parser" where
  "np_set_error e p = p\<lparr>np_error := e\<rparr>"

definition np_check_size :: "u64 \<Rightarrow> net_parser \<Rightarrow> net_parser" where
  "np_check_size sz p = (if sz > buffer_sz (np_buffer p) then np_set_error PacketTooShort p else p)"

fun np_parse_loop :: "nat list \<Rightarrow> buffer \<Rightarrow> 'a :: len word \<Rightarrow> 'a word option" where
  "np_parse_loop [] b ret = Some ret"
| "np_parse_loop (i # is) b ret =
     (case buffer_at b (of_nat i) of None \<Rightarrow> None
      | Some x \<Rightarrow> np_parse_loop is b (push_bit 8 ret + ucast x))"

definition np_parse_int :: "net_parser \<Rightarrow> ('a :: len word \<times> net_parser) option" where
  "np_parse_int p =
     (let len = LENGTH('a) div 8;
          p1 = np_check_size (of_nat len) p
      in if np_failed p1 then Some (0, p1)
         else do {
           ret \<leftarrow> np_parse_loop [0..<len] (np_buffer p1) 0;
           b \<leftarrow> buffer_remove_prefix (of_nat len) (np_buffer p1);
           Some (ret, p1\<lparr>np_buffer := b\<rparr>)
         })"

definition np_u32 :: "net_parser \<Rightarrow> (u32 \<times> net_parser) option" where
  "np_u32 p = np_parse_int p"

definition np_u16 :: "net_parser \<Rightarrow> (u16 \<times> net_parser) option" where
  "np_u16 p = np_parse_int p"

definition np_u8 :: "net_parser \<Rightarrow> (u8 \<times> net_parser) option" where
  "np_u8 p = np_parse_int p"

definition np_remove_prefix :: "u64 \<Rightarrow> net_parser \<Rightarrow> net_parser option" where
  "np_remove_prefix n p =
     (let p1 = np_check_size n p
      in if np_failed p1 then Some p1
         else do {
           b \<leftarrow> buffer_remove_prefix n (np_buffer p1);
           Some (p1\<lparr>np_buffer := b\<rparr>)
         })"

definition unparse_int :: "bytes \<Rightarrow> 'a :: len word \<Rightarrow> bytes" where
  "unparse_int s val =
     (let len = LENGTH('a) div 8
      in fold (\<lambda>i s. s @ [ucast (drop_bit ((len - i - 1) * 8) val AND 0xff)]) [0..<len] s)"

definition unparse_u32 :: "bytes \<Rightarrow> u32 \<Rightarrow> bytes" where
  "unparse_u32 s val = unparse_int s val"

definition unparse_u16 :: "bytes \<Rightarrow> u16 \<Rightarrow> bytes" where
  "unparse_u16 s val = unparse_int s val"

definition unparse_u8 :: "bytes \<Rightarrow> u8 \<Rightarrow> bytes" where
  "unparse_u8 s val = unparse_int s val"

text \<open>\<open>std::string::resize\<close>.\<close>

definition resize :: "nat \<Rightarrow> bytes \<Rightarrow> bytes" where
  "resize n s = take n s @ replicate (n - length s) 0"

subsection \<open>Big-endian encoding\<close>

named_theorems wire_simps \<open>evaluation of parsers on serialized fields\<close>

definition be_bytes :: "'a :: len word \<Rightarrow> bytes" where
  "be_bytes v = map (\<lambda>i. ucast (drop_bit ((LENGTH('a) div 8 - i - 1) * 8) v)) [0..<LENGTH('a) div 8]"

definition be_int :: "bytes \<Rightarrow> 'a :: len word" where
  "be_int xs = fold (\<lambda>x r. push_bit 8 r + ucast x) xs 0"

lemma length_be_bytes: "length (be_bytes (v :: 'a :: len word)) = LENGTH('a) div 8"
  by (simp add: be_bytes_def)

lemma length_be_bytes_num [simp]:
  "length (be_bytes (v8 :: u8)) = 1" "length (be_bytes (v16 :: u16)) = 2" "length (be_bytes (v32 :: u32)) = 4"
  by (simp_all add: length_be_bytes)

lemma ucast_and_byte: "(ucast (w AND 0xff) :: u8) = ucast w" for w :: "'a :: len word"
proof -
  have eq: "(0xff :: 'a word) = mask 8" by (simp add: mask_eq_exp_minus_1)
  show ?thesis
    unfolding eq by (rule bit_eqI) (simp only: bit_simps, auto dest: bit_imp_le_length)
qed

lemma unparse_int_eq: "unparse_int s v = s @ be_bytes v"
  by (simp add: unparse_int_def be_bytes_def Let_def fold_snoc ucast_and_byte)

lemma unparse_eq [wire_simps]:
  "unparse_u32 s v32 = s @ be_bytes v32" "unparse_u16 s v16 = s @ be_bytes v16"
  "unparse_u8 s v8 = s @ be_bytes v8"
  by (simp_all add: unparse_u32_def unparse_u16_def unparse_u8_def unparse_int_eq)

lemma push_drop_byte: "push_bit 8 (drop_bit 8 w) + ucast (ucast w :: u8) = w" for w :: "'a :: len word"
proof -
  have "(ucast (ucast w :: u8) :: 'a word) = take_bit 8 w"
    by (intro bit_eqI) (auto simp: bit_simps)
  moreover have "push_bit 8 (drop_bit 8 w) + take_bit 8 w = w" by (simp add: bits_ident)
  ultimately show ?thesis by simp
qed

lemma be_int_be_bytes:
  fixes v :: "'a :: len word"
  assumes "LENGTH('a) = n * 8"
  shows "be_int (be_bytes v) = v"
proof -
  have "fold (\<lambda>x r. push_bit 8 r + ucast x)
      (map (\<lambda>i. ucast (drop_bit ((n - i - 1) * 8) v) :: u8) [0..<m]) 0 = drop_bit ((n - m) * 8) v"
    if "m \<le> n" for m
    using that
  proof (induction m)
    case 0
    have "drop_bit (n * 8) v = 0" by (intro bit_eqI) (simp add: bit_simps assms [symmetric] not_le)
    then show ?case by simp
  next
    case (Suc m)
    define w where "w = drop_bit ((n - Suc m) * 8) v"
    have "(n - m) * 8 = 8 + (n - Suc m) * 8" using Suc.prems by simp
    then have "drop_bit ((n - m) * 8) v = drop_bit 8 w" by (simp add: w_def drop_bit_drop_bit)
    then show ?case using Suc push_drop_byte [of w] by (simp add: w_def)
  qed
  from this [of n] assms show ?thesis by (simp add: be_int_def be_bytes_def)
qed

lemma be_int_be_bytes_num [simp]:
  "be_int (be_bytes (v8 :: u8)) = v8" "be_int (be_bytes (v16 :: u16)) = v16"
  "be_int (be_bytes (v32 :: u32)) = v32"
  by (simp_all add: be_int_be_bytes)

lemma be_bytes_be_int:
  assumes "LENGTH('a :: len) = n * 8" and "length xs = n"
  shows "be_bytes (be_int xs :: 'a word) = xs"
proof -
  have inj: "inj (be_bytes :: 'a word \<Rightarrow> bytes)"
    using be_int_be_bytes [OF assms(1)] by (rule inj_on_inverseI)
  have fin: "finite {ys :: bytes. length ys = n}" using finite_lists_length_eq [of "UNIV :: byte set" n] by simp
  have "card (range (be_bytes :: 'a word \<Rightarrow> bytes)) = 2 ^ (n * 8)"
    using inj assms(1) by (simp add: card_image card_word)
  also have "\<dots> = card {ys :: bytes. length ys = n}"
    using card_lists_length_eq [of "UNIV :: byte set" n] by (simp add: card_word power_mult [symmetric] mult.commute [of n]) (simp add: power_mult)
  finally have "range (be_bytes :: 'a word \<Rightarrow> bytes) = {ys. length ys = n}"
    using assms(1) by (intro card_subset_eq [OF fin]) (auto simp: length_be_bytes)
  with assms(2) obtain v :: "'a word" where "xs = be_bytes v" by blast
  then show ?thesis by (simp add: be_int_be_bytes [OF assms(1)])
qed

lemma drop_push_nibble:
  fixes d :: u8
  assumes "d < 16"
  shows "drop_bit 4 (push_bit 4 d) = d"
proof (rule bit_word_eqI)
  fix n assume n: "n < LENGTH(8)"
  have "d = take_bit 4 d" 
    using assms by (simp only: word_eq_unat_iff unsigned_take_bit_eq) (simp add: take_bit_eq_mod word_less_nat_alt)
  then have "bit d n \<Longrightarrow> n < 4" by (metis bit_take_bit_iff)
  then show "bit (drop_bit 4 (push_bit 4 d)) n = bit d n" using n by (auto simp: bit_simps)
qed

subsection \<open>Parsing steps\<close>

text \<open>\<open>np_ok n p\<close>: no failure so far and at least \<open>n\<close> bytes left.\<close>

definition np_contents :: "net_parser \<Rightarrow> bytes" where
  "np_contents p = buffer_str (np_buffer p)"

definition np_inv :: "net_parser \<Rightarrow> bool" where
  "np_inv p \<longleftrightarrow> buffer_inv (np_buffer p)"

definition np_adv :: "nat \<Rightarrow> net_parser \<Rightarrow> net_parser" where
  "np_adv n p = p\<lparr>np_buffer := buffer_advance (of_nat n) (np_buffer p)\<rparr>"

lemma np_new_simps [simp]:
  "np_error (np_new b) = NoError" "np_contents (np_new b) = buffer_str b" "np_inv (np_new b) = buffer_inv b"
  by (simp_all add: np_new_def np_contents_def np_inv_def)

lemma np_inv_length: "np_inv p \<Longrightarrow> length (np_contents p) < 2 ^ 64"
  unfolding np_inv_def np_contents_def by (rule length_buffer_str)

lemma np_adv [simp]:
  assumes "np_inv p" and "n \<le> length (np_contents p)"
  shows "np_contents (np_adv n p) = drop n (np_contents p)" "np_inv (np_adv n p)"
proof -
  have "unat (of_nat n :: u64) = n" using assms np_inv_length [of p] by (simp add: unat_of_nat)
  then show "np_contents (np_adv n p) = drop n (np_contents p)" "np_inv (np_adv n p)"
    using assms buffer_advance [of "np_buffer p" "of_nat n"]
    by (simp_all add: np_adv_def np_inv_def np_contents_def)
qed

lemma np_error_adv [simp]: "np_error (np_adv n p) = np_error p"
  by (simp add: np_adv_def)

lemma np_parse_loop_eq:
  assumes "\<forall>i \<in> set is. i < length (buffer_str b)" and "length (buffer_str b) < 2 ^ 64"
  shows "np_parse_loop is b r = Some (fold (\<lambda>i r. push_bit 8 r + ucast (buffer_str b ! i)) is r)"
  using assms(1)
proof (induction "is" arbitrary: r)
  case Nil
  then show ?case by simp
next
  case (Cons i "is")
  then have "unat (of_nat i :: u64) = i" using assms(2) by (simp add: unat_of_nat)
  with Cons show ?case by (simp add: buffer_at_def)
qed

lemma fold_take_nth: "n \<le> length xs \<Longrightarrow> fold (\<lambda>i. g (xs ! i)) [0..<n] a = fold g (take n xs) a"
proof (induction n)
  case (Suc n)
  then show ?case by (simp add: take_Suc_conv_app_nth)
qed simp

lemma np_parse_int_ok:
  fixes p :: net_parser
  defines "n \<equiv> LENGTH('a :: len) div 8"
  assumes inv: "np_inv p" and ok: "np_error p = NoError" and le: "n \<le> length (np_contents p)"
  shows "np_parse_int p = Some (be_int (take n (np_contents p)) :: 'a word, np_adv n p)"
proof -
  let ?b = "np_buffer p"
  have len: "length (buffer_str ?b) < 2 ^ 64" using np_inv_length [OF inv] by (simp add: np_contents_def)
  have n: "unat (of_nat n :: u64) = n" using le np_inv_length [OF inv] by (simp add: unat_of_nat)
  have c: "np_check_size (of_nat n) p = p"
    using n le inv by (simp add: np_check_size_def word_less_nat_alt unat_buffer_sz np_inv_def np_contents_def)
  have "np_parse_loop [0..<n] ?b (0 :: 'a word) = Some (be_int (take n (np_contents p)))"
    using le len by (subst np_parse_loop_eq)
      (simp_all add: be_int_def np_contents_def fold_take_nth [where g = "\<lambda>x r. push_bit 8 r + ucast x"])
  then show ?thesis
    using ok inv le n c
    by (simp add: np_parse_int_def n_def [symmetric] Let_def np_failed_def buffer_remove_prefix_eq np_inv_def
        np_contents_def np_adv_def)
qed

lemma np_parse_int_fail:
  assumes "np_inv p" and "np_error p \<noteq> NoError \<or> length (np_contents p) < LENGTH('a :: len) div 8"
    and "LENGTH('a) < 2 ^ 64"
  shows "\<exists>e. e \<noteq> NoError \<and> (np_error p = NoError \<longrightarrow> e = PacketTooShort) \<and>
    np_parse_int p = Some (0 :: 'a word, p\<lparr>np_error := e\<rparr>)"
proof -
  have n: "unat (of_nat (LENGTH('a) div 8) :: u64) = LENGTH('a) div 8"
    using assms(3) by (simp add: unat_of_nat)
  let ?p = "np_check_size (of_nat (LENGTH('a) div 8)) p"
  have "np_failed ?p" and "?p = p\<lparr>np_error := np_error ?p\<rparr>" and "np_error p = NoError \<longrightarrow> np_error ?p = PacketTooShort"
    using assms(1,2) n
    by (auto simp: np_check_size_def np_failed_def np_set_error_def word_less_nat_alt unat_buffer_sz
        np_inv_def np_contents_def)
  then show ?thesis by (auto simp: np_parse_int_def Let_def np_failed_def)
qed

lemma np_remove_prefix_ok [wire_simps]:
  assumes "np_inv p" and "np_error p = NoError" and "unat n \<le> length (np_contents p)"
  shows "np_remove_prefix n p = Some (np_adv (unat n) p)"
  using assms
  by (simp add: np_remove_prefix_def np_check_size_def Let_def np_failed_def word_less_nat_alt unat_buffer_sz
      buffer_remove_prefix_eq np_inv_def np_contents_def np_adv_def)

lemma np_remove_prefix_fail:
  assumes "np_inv p" and "np_error p \<noteq> NoError \<or> length (np_contents p) < unat n"
  shows "\<exists>e. e \<noteq> NoError \<and> (np_error p = NoError \<longrightarrow> e = PacketTooShort) \<and>
    np_remove_prefix n p = Some (p\<lparr>np_error := e\<rparr>)"
  using assms
  by (auto simp: np_remove_prefix_def np_check_size_def Let_def np_failed_def np_set_error_def word_less_nat_alt
      unat_buffer_sz np_inv_def np_contents_def intro: exI [of _ "np_error p"])

lemmas np_int_defs = np_u32_def np_u16_def np_u8_def

lemma np_ints_ok [wire_simps]:
  assumes "np_inv p" and "np_error p = NoError"
  shows "4 \<le> length (np_contents p) \<Longrightarrow> np_u32 p = Some (be_int (take 4 (np_contents p)), np_adv 4 p)"
    and "2 \<le> length (np_contents p) \<Longrightarrow> np_u16 p = Some (be_int (take 2 (np_contents p)), np_adv 2 p)"
    and "1 \<le> length (np_contents p) \<Longrightarrow> np_u8 p = Some (be_int (take 1 (np_contents p)), np_adv 1 p)"
  using np_parse_int_ok [OF assms, where 'a = 32] np_parse_int_ok [OF assms, where 'a = 16]
    np_parse_int_ok [OF assms, where 'a = 8]
  by (simp_all add: np_int_defs)

text \<open>The parser stands at the bytes \<open>bs\<close>.\<close>

definition np_at :: "net_parser \<Rightarrow> bytes \<Rightarrow> bool" where
  "np_at p bs \<longleftrightarrow> np_inv p \<and> np_error p = NoError \<and> np_contents p = bs"

lemma np_at_size: "np_at p bs \<Longrightarrow> unat (buffer_sz (np_buffer p)) = length bs"
  using unat_buffer_sz [of "np_buffer p"] by (auto simp: np_at_def np_inv_def np_contents_def)

lemma np_at_new: "length bs < 2 ^ 64 \<Longrightarrow> np_at (np_new (buffer_new bs)) bs"
  using buffer_inv_new [of bs] by (simp add: np_at_def)

lemma np_at_adv: "np_at p (xs @ bs) \<Longrightarrow> np_at (np_adv (length xs) p) bs"
  by (simp add: np_at_def)

lemma np_at_not_failed: "np_at p bs \<Longrightarrow> \<not> np_failed p"
  by (simp add: np_at_def np_failed_def)

lemmas bind_simps = bind.simps case_prod_conv prod.case

lemma np_at_u32: "np_at p (be_bytes v @ bs) \<Longrightarrow> np_u32 p = Some (v, np_adv 4 p) \<and> np_at (np_adv 4 p) bs"
  using np_at_adv [of p "be_bytes v" bs] by (simp add: np_at_def wire_simps)

lemma np_at_u16: "np_at p (be_bytes v @ bs) \<Longrightarrow> np_u16 p = Some (v, np_adv 2 p) \<and> np_at (np_adv 2 p) bs"
  using np_at_adv [of p "be_bytes v" bs] by (simp add: np_at_def wire_simps)

lemma np_at_u8: "np_at p (be_bytes v @ bs) \<Longrightarrow> np_u8 p = Some (v, np_adv 1 p) \<and> np_at (np_adv 1 p) bs"
  using np_at_adv [of p "be_bytes v" bs] by (simp add: np_at_def wire_simps)

lemma np_at_remove_prefix:
  "np_at p (xs @ bs) \<Longrightarrow> unat n = length xs \<Longrightarrow>
     np_remove_prefix n p = Some (np_adv (length xs) p) \<and> np_at (np_adv (length xs) p) bs"
  using np_at_adv [of p xs bs] by (simp add: np_at_def wire_simps)

text \<open>
  Tracking a parser over arbitrary input: after attempts to consume \<open>k\<close> bytes of \<open>bs\<close>, either all
  of them were there, or the failure is recorded and nothing more is consumed.
\<close>

definition np_track :: "bytes \<Rightarrow> nat \<Rightarrow> net_parser \<Rightarrow> bool" where
  "np_track bs k p \<longleftrightarrow> np_inv p \<and>
     (if k \<le> length bs then np_error p = NoError \<and> np_contents p = drop k bs else np_error p = PacketTooShort)"

lemma np_track_new: "buffer_inv b \<Longrightarrow> np_track (buffer_str b) 0 (np_new b)"
  by (simp add: np_track_def)

lemma np_track_error: "np_track bs k p \<Longrightarrow> np_error p = (if k \<le> length bs then NoError else PacketTooShort)"
  by (simp add: np_track_def)

lemma np_track_parse_int:
  fixes p :: net_parser
  defines "n \<equiv> LENGTH('a :: len) div 8"
  assumes tr: "np_track bs k p" and len: "LENGTH('a) < 2 ^ 64"
  shows "\<exists>v p'. np_parse_int p = Some (v :: 'a word, p') \<and> np_track bs (k + n) p' \<and>
    (k + n \<le> length bs \<longrightarrow> v = be_int (take n (drop k bs)))"
proof (cases "k + n \<le> length bs")
  case True
  then have "np_inv p" "np_error p = NoError" "n \<le> length (np_contents p)" "np_contents p = drop k bs"
    using tr by (auto simp: np_track_def)
  with np_parse_int_ok [of p, where 'a = 'a] True show ?thesis
    by (simp add: np_track_def n_def add.commute)
next
  case False
  then have "np_inv p" "np_error p \<noteq> NoError \<or> length (np_contents p) < LENGTH('a) div 8"
    "np_error p \<noteq> NoError \<Longrightarrow> np_error p = PacketTooShort"
    using tr by (auto simp: np_track_def n_def split: if_splits)
  from this(1,2) show ?thesis
  proof (cases "np_error p = NoError")
    case True
    then show ?thesis
      using np_parse_int_fail [OF \<open>np_inv p\<close> _ len] \<open>np_error p \<noteq> NoError \<or> _\<close> False \<open>np_inv p\<close>
      by (auto simp: np_track_def np_inv_def)
  next
    case err: False
    have "np_error (np_check_size (of_nat n) p) = PacketTooShort"
      using \<open>np_error p \<noteq> NoError \<Longrightarrow> np_error p = PacketTooShort\<close> err
      by (simp add: np_check_size_def np_set_error_def)
    then show ?thesis
      using False \<open>np_inv p\<close> unfolding np_parse_int_def n_def [symmetric] Let_def
      by (auto simp: np_failed_def np_track_def np_check_size_def np_set_error_def np_inv_def)
  qed
qed

lemma np_track_ints:
  assumes "np_track bs k p"
  shows np_track_u32: "k + 4 = m \<Longrightarrow> \<exists>v p'. np_u32 p = Some (v, p') \<and> np_track bs m p' \<and>
      (m \<le> length bs \<longrightarrow> v = be_int (take 4 (drop k bs)))"
    and np_track_u16: "k + 2 = m \<Longrightarrow> \<exists>v p'. np_u16 p = Some (v, p') \<and> np_track bs m p' \<and>
      (m \<le> length bs \<longrightarrow> v = be_int (take 2 (drop k bs)))"
    and np_track_u8: "k + 1 = m \<Longrightarrow> \<exists>v p'. np_u8 p = Some (v, p') \<and> np_track bs m p' \<and>
      (m \<le> length bs \<longrightarrow> v = be_int (take 1 (drop k bs)))"
  using np_track_parse_int [OF assms, where 'a = 32] np_track_parse_int [OF assms, where 'a = 16]
    np_track_parse_int [OF assms, where 'a = 8]
  by (auto simp: np_int_defs)

lemma np_track_remove_prefix:
  assumes "np_track bs k p"
  shows "\<exists>p'. np_remove_prefix n p = Some p' \<and> np_track bs (k + unat n) p'"
proof (cases "k + unat n \<le> length bs")
  case True
  then have "np_inv p" "np_error p = NoError" "unat n \<le> length (np_contents p)" "np_contents p = drop k bs"
    using assms by (auto simp: np_track_def)
  with np_remove_prefix_ok [of p n] True show ?thesis by (simp add: np_track_def add.commute)
next
  case False
  then have "np_inv p" "np_error (np_check_size n p) = PacketTooShort"
    using assms unat_buffer_sz [of "np_buffer p"]
    by (auto simp: np_track_def np_check_size_def np_set_error_def word_less_nat_alt np_inv_def np_contents_def
        split: if_splits)
  with False show ?thesis
    by (auto simp: np_remove_prefix_def Let_def np_failed_def np_track_def np_check_size_def np_set_error_def np_inv_def)
qed

subsection \<open>The contract of a wire format\<close>

text \<open>
  Every header of the stack promises the same: a valid value can be encoded, and decoding the
  encoding followed by any bytes gives the value and these bytes back.
\<close>

locale wire_format =
  fixes valid :: "'a \<Rightarrow> bool"
    and enc :: "'a \<Rightarrow> bytes option"
    and dec :: "bytes \<Rightarrow> ('a \<times> bytes) option"
  assumes encodes: "valid x \<Longrightarrow> \<exists>w. enc x = Some w \<and> w \<noteq> []"
    and decodes: "valid x \<Longrightarrow> enc x = Some w \<Longrightarrow> length (w @ rest) < 2 ^ 64 \<Longrightarrow> dec (w @ rest) = Some (x, rest)"
begin

text \<open>No valid encoding is a prefix of the encoding of a different value.\<close>

lemma prefix_free:
  assumes "valid x" and "valid y" and "enc x = Some v" and "enc y = Some (v @ w)" and "length (v @ w) < 2 ^ 64"
  shows "x = y \<and> w = []"
  using decodes [OF assms(1,3,5)] decodes [OF assms(2,4), of "[]"] assms(5) by simp

lemma enc_inj:
  assumes "valid x" and "valid y" and "enc x = enc y" and "enc x = Some v" and "length v < 2 ^ 64"
  shows "x = y"
  using prefix_free [of x y v "[]"] assms by simp

end

end
