(* ===== verification/Internet_Checksum.thy ===== *)
theory Internet_Checksum
  imports Net_Parser
begin

text \<open>
  The Internet checksum, \<open>InternetChecksum\<close> in \<open>libsponge/util/util.hh\<close> and \<open>util.cc\<close>: a
  32-bit running sum of big-endian 16-bit words, folded to 16 bits and complemented on demand.
  The sum is a 32-bit word and wraps as in the code; the results below are for inputs whose sum
  stays below \<open>2 ^ 32\<close>, which every packet of at most 128 KiB does.
\<close>

record internet_checksum =
  ck_sum :: u32
  ck_parity :: bool

definition ck_new :: "u32 \<Rightarrow> internet_checksum" where
  "ck_new initial_sum = \<lparr>ck_sum = initial_sum, ck_parity = False\<rparr>"

definition ck_add_byte :: "u8 \<Rightarrow> internet_checksum \<Rightarrow> internet_checksum" where
  "ck_add_byte x c =
     (let val = (ucast x :: u16);
          val = (if \<not> ck_parity c then push_bit 8 val else val)
      in c\<lparr>ck_sum := ck_sum c + ucast val, ck_parity := \<not> ck_parity c\<rparr>)"

definition ck_add :: "bytes \<Rightarrow> internet_checksum \<Rightarrow> internet_checksum" where
  "ck_add data c = fold ck_add_byte data c"

text \<open>The loop of \<open>value()\<close>.\<close>

lemma fold_step_nat:
  "unat (drop_bit 16 r + (r AND 0xffff)) = unat r div 65536 + unat r mod 65536" for r :: u32
proof -
  have m: "(0xffff :: u32) = mask 16" by (simp add: mask_eq_exp_minus_1)
  have 1: "unat (drop_bit 16 r) = unat r div 65536"
    by (simp only: unat_drop_bit_eq) (simp add: drop_bit_eq_div)
  have 2: "unat (r AND 0xffff) = unat r mod 65536"
    unfolding m by (simp only: take_bit_eq_mask [symmetric] unsigned_take_bit_eq) (simp add: take_bit_eq_mod)
  have "unat r div 65536 < 65536" "unat r mod 65536 < 65536"
    using unat_u32_less [of r] by (simp_all add: less_mult_imp_div_less)
  with 1 2 show ?thesis by (simp add: unat_add_no_wrap)
qed

function ck_fold :: "u32 \<Rightarrow> u32" where
  "ck_fold ret = (if ret > 0xffff then ck_fold (drop_bit 16 ret + (ret AND 0xffff)) else ret)"
  by pat_completeness auto

termination ck_fold
proof (relation "measure unat")
  fix ret :: u32
  assume "0xffff < ret"
  then have "65535 < unat ret" by (simp add: word_less_nat_alt)
  then have "0 < unat ret div 65536" by (simp add: div_greater_zero_iff)
  then have "unat ret div 65536 + unat ret mod 65536 < unat ret"
    using div_mult_mod_eq [of "unat ret" 65536] by linarith
  then show "(drop_bit 16 ret + (ret AND 0xffff), ret) \<in> measure unat"
    by (simp only: in_measure fold_step_nat)
qed simp

declare ck_fold.simps [simp del]

definition ck_value :: "internet_checksum \<Rightarrow> u16" where
  "ck_value c = ucast (NOT (ck_fold (ck_sum c)))"

subsection \<open>Sums as natural numbers\<close>

fun weight :: "bool \<Rightarrow> bytes \<Rightarrow> nat" where
  "weight odd_pos [] = 0"
| "weight odd_pos (x # xs) = (if odd_pos then unat x else 256 * unat x) + weight (\<not> odd_pos) xs"

definition parity_after :: "bool \<Rightarrow> bytes \<Rightarrow> bool" where
  "parity_after odd_pos xs = (if even (length xs) then odd_pos else \<not> odd_pos)"

lemma parity_after_Cons: "parity_after p (x # xs) = parity_after (\<not> p) xs"
  by (simp add: parity_after_def)

lemma weight_append: "weight p (xs @ ys) = weight p xs + weight (parity_after p xs) ys"
  by (induction xs arbitrary: p) (simp_all add: parity_after_Cons, simp add: parity_after_def)

lemma weight_zeros: "weight p (replicate n 0) = 0"
  by (induction n arbitrary: p) simp_all

lemma ck_add_sum:
  assumes "unat (ck_sum c) + weight (ck_parity c) data < 2 ^ 32"
  shows "unat (ck_sum (ck_add data c)) = unat (ck_sum c) + weight (ck_parity c) data \<and>
    ck_parity (ck_add data c) = parity_after (ck_parity c) data"
  using assms
proof (induction data arbitrary: c)
  case Nil
  then show ?case by (simp add: ck_add_def parity_after_def)
next
  case (Cons x xs)
  have hi: "unat (ucast (push_bit 8 (ucast x :: u16)) :: u32) = 256 * unat x"
    using unat_u8_less [of x] by (simp add: unat_ucast_mod push_bit_eq_mult unat_mult_lem)
      (simp add: unat_word_ariths unat_ucast_mod)
  have lo: "unat (ucast (ucast x :: u16) :: u32) = unat x"
    using unat_u8_less [of x] by (simp add: unat_ucast_mod)
  have "unat (ck_sum (ck_add_byte x c)) = unat (ck_sum c) + (if ck_parity c then unat x else 256 * unat x)"
    and "ck_parity (ck_add_byte x c) = (\<not> ck_parity c)"
    using Cons.prems hi lo by (auto simp: ck_add_byte_def unat_add_no_wrap)
  with Cons.IH [of "ck_add_byte x c"] Cons.prems show ?case
    by (simp add: ck_add_def parity_after_Cons)
qed

text \<open>Folding computes the residue modulo 65535, with 65535 in place of 0 for a positive sum.\<close>

definition fold16 :: "nat \<Rightarrow> nat" where
  "fold16 n = (if n = 0 then 0 else (n - 1) mod 65535 + 1)"

lemma fold16_le: "fold16 n \<le> 65535"
proof -
  have "(n - 1) mod 65535 < 65535" by simp
  then show ?thesis by (auto simp: fold16_def)
qed

lemma fold16_small: "n \<le> 65535 \<Longrightarrow> fold16 n = n"
  by (simp add: fold16_def)

lemma fold16_step:
  assumes "65535 < n"
  shows "fold16 (n div 65536 + n mod 65536) = fold16 n"
proof -
  define q s where "q = n div 65536" and "s = n mod 65536"
  have n: "n = 65536 * q + s" by (simp add: q_def s_def)
  have q: "0 < q" using assms by (simp add: q_def div_greater_zero_iff)
  then have "n - 1 = (q + s - 1) + 65535 * q" using n by simp
  then have "(n - 1) mod 65535 = (q + s - 1) mod 65535" by (metis mod_mult_self2)
  with q assms show ?thesis by (simp add: fold16_def q_def [symmetric] s_def [symmetric])
qed

lemma ck_fold_nat: "unat (ck_fold r) = fold16 (unat r)"
proof (induction r rule: ck_fold.induct)
  case (1 r)
  show ?case
  proof (cases "0xffff < r")
    case True
    then have "65535 < unat r" by (simp add: word_less_nat_alt)
    with 1 [OF True] True show ?thesis
      by (subst ck_fold.simps) (simp only: if_True fold_step_nat fold16_step)
  next
    case False
    then have "unat r \<le> 65535" by (simp add: word_less_nat_alt)
    with False show ?thesis by (subst ck_fold.simps) (simp add: fold16_small)
  qed
qed

lemma unat_not_u32: "unat (NOT r) = 4294967295 - unat r" for r :: u32
proof -
  have "NOT r = - 1 - r" by (simp add: not_eq_complement)
  moreover have "unat (- 1 :: u32) = 4294967295"
    by (simp add: unsigned_minus_1_eq_mask mask_eq_exp_minus_1)
  ultimately show ?thesis using unat_u32_less [of r] by (simp add: unat_sub_no_wrap)
qed

lemma ck_value_nat: "unat (ck_value c) = 65535 - fold16 (unat (ck_sum c))"
proof -
  define k where "k = fold16 (unat (ck_sum c))"
  have k: "k \<le> 65535" unfolding k_def by (rule fold16_le)
  have "unat (ck_value c) = (4294967295 - k) mod 65536"
    by (simp add: ck_value_def unat_ucast_mod unat_not_u32 ck_fold_nat k_def)
  also have "4294967295 - k = 65535 - k + 65535 * 65536" using k by simp
  also have "(65535 - k + 65535 * 65536) mod 65536 = 65535 - k" using k by (subst mod_mult_self1) simp
  finally show ?thesis by (simp add: k_def)
qed

lemma fold16_complete: "fold16 (n + (65535 - fold16 n)) = 65535"
proof (cases "n = 0")
  case False
  define q s where "q = (n - 1) div 65535" and "s = (n - 1) mod 65535"
  have s: "s < 65535" by (simp add: s_def)
  have n: "n = 65535 * q + s + 1" using False by (simp add: q_def s_def)
  have f: "fold16 n = s + 1" using False by (simp add: fold16_def s_def)
  have "n + (65535 - fold16 n) - 1 = 65534 + 65535 * q" unfolding f using n s by simp
  moreover have "(65534 + 65535 * q) mod 65535 = 65534" by (subst mod_mult_self2) simp
  ultimately show ?thesis using s n f by (simp add: fold16_def)
qed (simp add: fold16_def)

lemma fold16_eq_max: "fold16 n = 65535 \<longleftrightarrow> n \<noteq> 0 \<and> n mod 65535 = 0"
proof (cases "n = 0")
  case False
  then obtain m where n: "n = Suc m" by (cases n) auto
  have "Suc m mod 65535 = 0 \<longleftrightarrow> m mod 65535 = 65534" by (simp add: mod_Suc)
  then show ?thesis by (simp add: n fold16_def)
qed (simp add: fold16_def)

lemma ck_value_zero_iff: "ck_value c = 0 \<longleftrightarrow> unat (ck_sum c) \<noteq> 0 \<and> unat (ck_sum c) mod 65535 = 0"
  using ck_value_nat [of c] fold16_le [of "unat (ck_sum c)"] fold16_eq_max [of "unat (ck_sum c)"]
  by (simp add: word_eq_unat_iff)

lemma be_bytes_u16: "be_bytes (v :: u16) = [ucast (drop_bit 8 v), ucast v]"
  by (simp add: be_bytes_def upt_conv_Cons)

lemma weight_be_bytes_u16: "weight False (be_bytes (v :: u16)) = unat v"
proof -
  have "unat (ucast (drop_bit 8 v) :: u8) = unat v div 256"
    using unat_u16_less [of v] unfolding unat_ucast_mod unat_drop_bit_eq
    by (simp add: drop_bit_eq_div less_mult_imp_div_less)
  moreover have "unat (ucast v :: u8) = unat v mod 256" by (simp add: unat_ucast_mod)
  ultimately show ?thesis by (simp add: be_bytes_u16)
qed

text \<open>The sum over a string, from an initial value.\<close>

definition checksum :: "u32 \<Rightarrow> bytes \<Rightarrow> u16" where
  "checksum initial data = ck_value (ck_add data (ck_new initial))"

definition summable :: "u32 \<Rightarrow> bytes \<Rightarrow> bool" where
  "summable initial data \<longleftrightarrow> unat initial + weight False data < 2 ^ 32"

lemma summable_length: "unat initial + 255 * 256 * length data < 2 ^ 32 \<Longrightarrow> summable initial data"
proof -
  have "weight p xs \<le> 255 * 256 * length xs" for p xs
  proof (induction xs arbitrary: p)
    case (Cons x xs)
    have "unat x \<le> 255" using unat_u8_less [of x] by simp
    with Cons [of "\<not> p"] show ?case by auto
  qed simp
  from this [of False data] show "unat initial + 255 * 256 * length data < 2 ^ 32 \<Longrightarrow> summable initial data"
    by (simp add: summable_def)
qed

lemma checksum_sum:
  "summable initial data \<Longrightarrow> unat (ck_sum (ck_add data (ck_new initial))) = unat initial + weight False data"
  using ck_add_sum [of "ck_new initial" data] by (simp add: summable_def ck_new_def)

lemma ck_add_append: "ck_add (xs @ ys) c = ck_add ys (ck_add xs c)"
  by (simp add: ck_add_def)

lemma checksum_fill:
  assumes "even (length pre)"
    and "summable initial (pre @ be_bytes (checksum initial (pre @ be_bytes (0 :: u16) @ post)) @ post)"
  shows "checksum initial (pre @ be_bytes (checksum initial (pre @ be_bytes (0 :: u16) @ post)) @ post) = 0"
proof -
  let ?v = "checksum initial (pre @ be_bytes (0 :: u16) @ post)"
  let ?n = "unat initial + weight False pre + weight False post"
  have w: "weight False (pre @ be_bytes v @ post) = weight False pre + unat v + weight False post" for v :: u16
    using assms(1) by (simp add: weight_append parity_after_def weight_be_bytes_u16)
  have "summable initial (pre @ be_bytes (0 :: u16) @ post)"
    using assms(2) by (simp add: summable_def w)
  then have v: "unat ?v = 65535 - fold16 ?n"
    by (simp add: checksum_def ck_value_nat checksum_sum w add.assoc)
  have "unat (ck_sum (ck_add (pre @ be_bytes ?v @ post) (ck_new initial))) = ?n + (65535 - fold16 ?n)"
    unfolding checksum_sum [OF assms(2)] w v by simp
  then show ?thesis
    using ck_value_nat [of "ck_add (pre @ be_bytes ?v @ post) (ck_new initial)"] fold16_complete [of ?n]
    by (simp add: checksum_def word_eq_unat_iff)
qed

lemma weight_update:
  assumes "i < length xs"
  shows "\<exists>k \<in> {1, 256}. weight p (xs[i := y]) + k * unat (xs ! i) = weight p xs + k * unat y"
  using assms
proof (induction xs arbitrary: i p)
  case Nil
  then show ?case by simp
next
  case (Cons x xs)
  show ?case
  proof (cases i)
    case 0
    then show ?thesis by simp
  next
    case (Suc j)
    with Cons.IH [of j "\<not> p"] Cons.prems show ?thesis by auto
  qed
qed

lemma mod_eq_zero_close:
  fixes a b :: nat
  assumes "a mod 65535 = 0" and "b mod 65535 = 0" and "a \<le> b" and "b < a + 65535"
  shows "a = b"
proof -
  obtain i j where ij: "a = 65535 * i" "b = 65535 * j" using assms(1,2) by (auto simp: mod_eq_0_iff_dvd elim!: dvdE)
  with assms(3,4) have "i \<le> j" "j < i + 1" by linarith+
  then show ?thesis using ij by simp
qed

text \<open>A changed byte changes the sum by less than 65535.\<close>

lemma checksum_single_byte:
  assumes "checksum initial data = 0" and "i < length data" and "y \<noteq> data ! i"
    and "summable initial data" and "summable initial (data[i := y])"
  shows "checksum initial (data[i := y]) \<noteq> 0"
proof
  assume z: "checksum initial (data[i := y]) = 0"
  let ?a = "unat initial + weight False data" and ?b = "unat initial + weight False (data[i := y])"
  have m: "?a mod 65535 = 0" "?b mod 65535 = 0"
    using assms(1) z by (simp_all add: checksum_def ck_value_zero_iff checksum_sum assms(4,5))
  obtain k where k: "k \<in> {1, 256}" "weight False (data[i := y]) + k * unat (data ! i) = weight False data + k * unat y"
    using weight_update [OF assms(2)] by blast
  have ne: "unat (data ! i) \<noteq> unat y" using assms(3) by (simp add: word_eq_unat_iff)
  have lt: "k * unat (data ! i) < 65535" "k * unat y < 65535"
    using k(1) unat_u8_less [of "data ! i"] unat_u8_less [of y] by auto
  have "?a = ?b"
    using mod_eq_zero_close [of ?a ?b] mod_eq_zero_close [of ?b ?a] m k(2) lt by (cases "?a \<le> ?b") simp_all
  with k ne show False by auto
qed

subsection \<open>Properties\<close>

text \<open>
  The checksum written by a sender is accepted by a receiver. Computing \<open>value()\<close> over a
  packet whose checksum field is zero, and writing the result into that field, gives a packet over
  which \<open>value()\<close> is zero; the field may stand at any even offset, the initial sum may be any
  pseudo-header sum.
\<close>

theorem checksum_accepts_own:
  assumes "even (length pre)" and "unat initial + 255 * 256 * (length pre + length post + 2) < 2 ^ 32"
  shows "checksum initial (pre @ be_bytes (checksum initial (pre @ be_bytes (0 :: u16) @ post)) @ post) = 0"
  using assms by (intro checksum_fill summable_length) simp_all

theorem checksum_accepts_own_witness:
  "even (length [0x45 :: u8, 0]) \<and>
   checksum 7 ([0x45, 0] @ be_bytes (checksum 7 ([0x45, 0] @ be_bytes (0 :: u16) @ [1, 2, 3])) @ [1, 2, 3]) = 0"
  using checksum_accepts_own [of "[0x45, 0]" 7 "[1, 2, 3]"] by simp

end
