(* ===== verification/Wrapping_Integers.thy ===== *)
theory Wrapping_Integers
  imports Sponge_Prelude
begin

text \<open>
  Sequence numbers: \<open>libsponge/wrapping_integers.hh\<close> and \<open>wrapping_integers.cc\<close>.
  A \<open>WrappingInt32\<close> is a 32-bit sequence number relative to an initial sequence number;
  \<open>wrap\<close> produces it from a 64-bit stream position and \<open>unwrap\<close> finds the stream
  position it stands for that is closest to a checkpoint.
\<close>

datatype WrappingInt32 = WrappingInt32 (raw_value: u32)

subsection \<open>Operators\<close>

text \<open>The difference of two sequence numbers has type \<open>int32_t\<close>: a value of
  \<^typ>\<open>int\<close> read in two's complement.\<close>

definition wi_minus :: "WrappingInt32 \<Rightarrow> WrappingInt32 \<Rightarrow> int" where
  "wi_minus a b = sint (raw_value a - raw_value b)"

definition wi_eq :: "WrappingInt32 \<Rightarrow> WrappingInt32 \<Rightarrow> bool" where
  "wi_eq a b \<longleftrightarrow> raw_value a = raw_value b"

definition wi_neq :: "WrappingInt32 \<Rightarrow> WrappingInt32 \<Rightarrow> bool" where
  "wi_neq a b \<longleftrightarrow> \<not> wi_eq a b"

definition wi_plus :: "WrappingInt32 \<Rightarrow> u32 \<Rightarrow> WrappingInt32" where
  "wi_plus a b = WrappingInt32 (raw_value a + b)"

definition wi_minus_u32 :: "WrappingInt32 \<Rightarrow> u32 \<Rightarrow> WrappingInt32" where
  "wi_minus_u32 a b = wi_plus a (- b)"

subsection \<open>Conversions\<close>

definition wrap :: "u64 \<Rightarrow> WrappingInt32 \<Rightarrow> WrappingInt32" where
  "wrap n isn = WrappingInt32 (ucast ((n + ucast (raw_value isn)) mod push_bit 32 1))"

definition diff_u64 :: "u64 \<Rightarrow> u64 \<Rightarrow> u64" where
  "diff_u64 a b = (if a < b then b - a else a - b)"

definition unwrap_abs_n :: "WrappingInt32 \<Rightarrow> WrappingInt32 \<Rightarrow> u32" where
  "unwrap_abs_n n isn =
     (if raw_value n \<ge> raw_value isn then word_of_int (wi_minus n isn)
      else ucast (push_bit 32 1 - (word_of_int (wi_minus isn n) :: u64)))"

definition unwrap :: "WrappingInt32 \<Rightarrow> WrappingInt32 \<Rightarrow> u64 \<Rightarrow> u64" where
  "unwrap n isn checkpoint =
     (let abs_n = unwrap_abs_n n isn;
          n_wraps = checkpoint div push_bit 32 1;
          a = ucast abs_n + n_wraps * push_bit 32 1;
          n_wraps' = n_wraps + (if a < checkpoint then 1 else - 1);
          b = ucast abs_n + n_wraps' * push_bit 32 1
      in if diff_u64 checkpoint a > diff_u64 checkpoint b then b else a)"

text \<open>Specification vocabulary: the position of a sequence number after the initial one, modulo
  \<open>2 ^ 32\<close>, and the distance between two stream positions.\<close>

definition seq_abs :: "WrappingInt32 \<Rightarrow> WrappingInt32 \<Rightarrow> nat" where
  "seq_abs n isn = unat (raw_value n - raw_value isn)"

definition dist_nat :: "nat \<Rightarrow> nat \<Rightarrow> nat" where
  "dist_nat a b = (if a < b then b - a else a - b)"

subsection \<open>The two conversions on natural numbers\<close>

lemma push_bit_32_u64: "(push_bit 32 1 :: u64) = 4294967296"
  by (simp add: push_bit_eq_mult)

lemma unwrap_abs_n_eq: "unwrap_abs_n n isn = raw_value n - raw_value isn"
proof (cases "raw_value n \<ge> raw_value isn")
  case True
  then show ?thesis by (simp add: unwrap_abs_n_def wi_minus_def)
next
  case False
  let ?k = "sint (raw_value isn - raw_value n)"
  have "(push_bit 32 1 :: u64) - word_of_int ?k = word_of_int (2 ^ 32 - ?k)"
    by (simp only: of_int_diff push_bit_32_u64) simp
  then have "unwrap_abs_n n isn = word_of_int (2 ^ 32 - ?k)"
    using False by (simp only: unwrap_abs_n_def wi_minus_def ucast_u64_of_int if_False)
  also have "\<dots> = word_of_int (2 ^ 32) - (raw_value isn - raw_value n)"
    by (simp only: of_int_diff word_of_int_sint)
  also have "\<dots> = raw_value n - raw_value isn"
    by simp
  finally show ?thesis .
qed

lemma seq_abs_less: "seq_abs n isn < 4294967296"
  using unat_u32_less [of "raw_value n - raw_value isn"] by (simp add: seq_abs_def)

lemma raw_value_wrap: "raw_value (wrap x isn) = ucast x + raw_value isn"
  by (simp add: wrap_def push_bit_32_u64 word_eq_unat_iff unat_word_ariths unat_ucast_mod mod_mod_cancel mod_simps)

lemma wrap_eq_iff: "wrap x isn = n \<longleftrightarrow> unat x mod 4294967296 = seq_abs n isn"
proof -
  have "wrap x isn = n \<longleftrightarrow> (ucast x :: u32) = raw_value n - raw_value isn"
    by (auto simp: raw_value_wrap WrappingInt32.expand algebra_simps)
  also have "\<dots> \<longleftrightarrow> unat x mod 4294967296 = seq_abs n isn"
    by (simp add: word_eq_unat_iff unat_ucast_mod seq_abs_def)
  finally show ?thesis .
qed


lemma wrap_0: "wrap 0 isn = isn"
  by (simp add: wrap_eq_iff seq_abs_def)

lemma unat_diff_u64: "unat (diff_u64 a b) = dist_nat (unat a) (unat b)"
  by (auto simp: diff_u64_def dist_nat_def word_less_nat_alt unat_simps)

lemma unat_wraps:
  fixes w :: u64 and k :: nat
  assumes "unat w = k" and "A < 4294967296"
  shows "unat ((of_nat A :: u64) + w * 4294967296) = (A + k * 4294967296) mod 2 ^ 64"
  using assms by (simp add: unat_word_ariths unat_of_nat mod_simps)

lemma unat_block_up:
  fixes w :: u64
  assumes w: "unat w = q" and q: "q < 4294967296" and A: "A < 4294967296"
  shows "unat ((of_nat A :: u64) + (w + 1) * 4294967296) =
    (if q < 4294967295 then A + q * 4294967296 + 4294967296 else A)"
proof (cases "q < 4294967295")
  case True
  then have "unat (w + 1) = q + 1"
    using w by (simp add: unat_word_ariths)
  from unat_wraps [OF this A] True A show ?thesis by simp
next
  case False
  then have "unat (w + 1) = 4294967296"
    using w q by (simp add: unat_word_ariths)
  from unat_wraps [OF this A] False A show ?thesis by simp
qed

lemma unat_block_down:
  fixes w :: u64
  assumes w: "unat w = q" and q: "q < 4294967296" and A: "A < 4294967296"
  shows "unat ((of_nat A :: u64) + (w + - 1) * 4294967296) =
    (if 0 < q then A + q * 4294967296 - 4294967296 else 18446744069414584320 + A)"
proof (cases "0 < q")
  case True
  then have "unat (w + - 1) = q - 1"
    using w by (simp add: unat_sub_no_wrap)
  from unat_wraps [OF this A] True A q show ?thesis
    by (cases q) simp_all
next
  case False
  then have "unat (w + - 1) = 18446744073709551615"
    using w by (simp add: unat_eq_0 unsigned_minus_1_eq_mask mask_eq_exp_minus_1)
  from unat_wraps [OF this A] have "unat ((of_nat A :: u64) + (w + - 1) * 4294967296) =
      ((A + 18446744069414584320) + 4294967295 * 2 ^ 64) mod 2 ^ 64"
    by (simp add: add.commute)
  also have "\<dots> = 18446744069414584320 + A"
    using A by (simp only: mod_mult_self1) simp
  finally show ?thesis using False by simp
qed

lemma unwrap_nat:
  "unat (unwrap n isn c) =
     (let A = seq_abs n isn; cp = unat c; q = cp div 4294967296; a = A + q * 4294967296
      in if a < cp \<and> q < 4294967295 \<and> a + 4294967296 - cp < cp - a then a + 4294967296
         else if cp \<le> a \<and> 0 < q \<and> cp - (a - 4294967296) < a - cp then a - 4294967296
         else a)"
proof -
  define A where "A = seq_abs n isn"
  define cp where "cp = unat c"
  define q where "q = cp div 4294967296"
  define a where "a = A + q * 4294967296"
  have A: "A < 4294967296" by (simp add: A_def seq_abs_less)
  have cp: "cp < 2 ^ 64" by (simp add: cp_def unat_u64_less [simplified])
  then have q: "q < 4294967296" by (simp add: q_def)
  have rem: "q * 4294967296 \<le> cp" "cp < q * 4294967296 + 4294967296"
    by (auto simp: q_def)
  have ucA: "(ucast (unwrap_abs_n n isn) :: u64) = of_nat A"
    by (simp add: A_def seq_abs_def unwrap_abs_n_eq)
  have uq: "unat (c div 4294967296) = q"
    by (simp add: unat_div q_def cp_def)
  let ?a = "(of_nat A :: u64) + (c div 4294967296) * 4294967296"
  have ua: "unat ?a = a"
    using unat_wraps [OF uq A] A q by (simp add: a_def)
  have less: "?a < c \<longleftrightarrow> a < cp"
    by (simp only: word_less_nat_alt ua cp_def)
  let ?b = "\<lambda>d. (of_nat A :: u64) + (c div 4294967296 + d) * 4294967296"
  note up = unat_block_up [OF uq q A, folded a_def]
  note down = unat_block_down [OF uq q A, folded a_def]
  define b where "b = ?b (if a < cp then 1 else - 1)"
  have ub: "unat b = (if a < cp then if q < 4294967295 then a + 4294967296 else A
      else if 0 < q then a - 4294967296 else 18446744069414584320 + A)"
    by (cases "a < cp") (simp_all only: b_def up down if_True if_False)
  have "unwrap n isn c = (if diff_u64 c ?a > diff_u64 c b then b else ?a)"
    by (simp only: unwrap_def Let_def push_bit_32_u64 ucA less b_def)
  then have u: "unat (unwrap n isn c) = (if dist_nat cp a > dist_nat cp (unat b) then unat b else a)"
    by (simp only: word_less_nat_alt unat_diff_u64 ua cp_def if_distrib [of unat])
  have bounds: "cp < a + 4294967296" "A \<le> a" "0 < q \<Longrightarrow> a - 4294967296 \<le> cp" "q = 0 \<Longrightarrow> a = A"
    using A rem by (simp_all add: a_def)
  show ?thesis
    unfolding Let_def A_def [symmetric] cp_def [symmetric] q_def [symmetric] a_def [symmetric]
  proof (cases "a < cp")
    case True
    then show "unat (unwrap n isn c) =
        (if a < cp \<and> q < 4294967295 \<and> a + 4294967296 - cp < cp - a then a + 4294967296
         else if cp \<le> a \<and> 0 < q \<and> cp - (a - 4294967296) < a - cp then a - 4294967296 else a)"
      using bounds(1,2) by (auto simp: u ub dist_nat_def)
  next
    case False
    then show "unat (unwrap n isn c) =
        (if a < cp \<and> q < 4294967295 \<and> a + 4294967296 - cp < cp - a then a + 4294967296
         else if cp \<le> a \<and> 0 < q \<and> cp - (a - 4294967296) < a - cp then a - 4294967296 else a)"
      using A cp bounds(3,4) by (cases "0 < q") (auto simp: u ub dist_nat_def)
  qed
qed

lemma wrap_unwrap: "wrap (unwrap n isn c) isn = n"
proof -
  have "(x + k * 4294967296) mod 4294967296 = x" if "x < 4294967296" for x k :: nat
    using that by simp
  moreover have "(x + k * 4294967296 - 4294967296) mod 4294967296 = x" if "x < 4294967296" "0 < k" for x k :: nat
    using that by (cases k) simp_all
  ultimately show ?thesis
    using seq_abs_less [of n isn]
    by (auto simp: wrap_eq_iff unwrap_nat Let_def)
qed

lemma dist_residue:
  fixes A q k cp :: nat
  assumes "A < m" and "q * m \<le> cp" and "cp < q * m + m"
  shows "k < q \<Longrightarrow> A + k * m + m \<le> A + q * m" "q < k \<Longrightarrow> A + q * m + m \<le> A + k * m"
proof -
  show "A + k * m + m \<le> A + q * m" if "k < q"
    using mult_le_mono1 [of "Suc k" q m] that by simp
  show "A + q * m + m \<le> A + k * m" if "q < k"
    using mult_le_mono1 [of "Suc q" k m] that by simp
qed

lemma unwrap_closest:
  assumes "wrap x isn = n"
  shows "dist_nat (unat (unwrap n isn c)) (unat c) \<le> dist_nat (unat x) (unat c)"
proof -
  define A where "A = seq_abs n isn"
  define cp where "cp = unat c"
  define q where "q = cp div 4294967296"
  define k where "k = unat x div 4294967296"
  have A: "A < 4294967296" by (simp add: A_def seq_abs_less)
  have rem: "q * 4294967296 \<le> cp" "cp < q * 4294967296 + 4294967296"
    by (auto simp: q_def)
  have x: "unat x = A + k * 4294967296"
    using assms mod_div_mult_eq [of "unat x" 4294967296] by (simp add: wrap_eq_iff A_def k_def)
  have k: "k < 4294967296"
    using unat_u64_less [of x] by (simp add: k_def)
  note near = dist_residue [OF A rem, of k]
  define Q where "Q = q * 4294967296"
  define K where "K = k * 4294967296"
  have kq: "k < q \<Longrightarrow> K + 4294967296 \<le> Q" "q < k \<Longrightarrow> Q + 4294967296 \<le> K" "k = q \<Longrightarrow> K = Q"
    using near by (auto simp: Q_def K_def)
  have top: "q < k \<Longrightarrow> q < 4294967295" using k by simp
  have u: "unat (unwrap n isn c) =
      (if A + Q < cp \<and> q < 4294967295 \<and> A + Q + 4294967296 - cp < cp - (A + Q) then A + Q + 4294967296
       else if cp \<le> A + Q \<and> 0 < q \<and> cp - (A + Q - 4294967296) < A + Q - cp then A + Q - 4294967296
       else A + Q)"
    by (simp only: unwrap_nat Let_def A_def cp_def q_def Q_def)
  have x': "unat x = A + K" by (simp add: x K_def)
  note rem' = rem [folded Q_def]
  show ?thesis
  proof (cases "A + Q < cp")
    case True
    with A rem' kq top show ?thesis
      unfolding cp_def [symmetric] u x' by (cases k q rule: linorder_cases) (auto simp: dist_nat_def)
  next
    case False
    with A rem' kq top show ?thesis
      unfolding cp_def [symmetric] u x' by (cases k q rule: linorder_cases) (auto simp: dist_nat_def)
  qed
qed

lemma dist_same_residue:
  fixes x y c :: nat
  assumes "x mod m = y mod m" and "2 * dist_nat x c < m" and "dist_nat y c \<le> dist_nat x c"
  shows "x = y"
proof (rule ccontr)
  assume "x \<noteq> y"
  have gap: "m \<le> b - a" if ab: "a mod m = b mod m" "a < b" for a b :: nat
  proof -
    have "m dvd b - a" using ab by (metis mod_eq_dvd_iff_nat less_imp_le)
    then show ?thesis using ab(2) by (simp add: dvd_imp_le)
  qed
  show False
  proof (cases "x < y")
    case True
    with gap [of x y] assms show False by (auto simp: dist_nat_def split: if_splits)
  next
    case False
    with \<open>x \<noteq> y\<close> gap [of y x] assms show False by (auto simp: dist_nat_def split: if_splits)
  qed
qed

lemma unwrap_wrap:
  assumes "dist_nat (unat x) (unat c) < 2147483648"
  shows "unwrap (wrap x isn) isn c = x"
proof -
  have "unat x mod 4294967296 = unat (unwrap (wrap x isn) isn c) mod 4294967296"
    using wrap_unwrap [of "wrap x isn" isn c] by (metis wrap_eq_iff)
  moreover have "2 * dist_nat (unat x) (unat c) < 4294967296"
    using assms by simp
  ultimately have "unat x = unat (unwrap (wrap x isn) isn c)"
    using unwrap_closest [OF refl, of x isn c] by (rule dist_same_residue)
  then show ?thesis by (simp add: word_eq_unat_iff)
qed
subsection \<open>Properties\<close>

text \<open>
  C4. \<open>unwrap\<close> returns a 64-bit position that wraps to the given sequence number, and no
  64-bit position that wraps to it is closer to the checkpoint. Both ends of the 64-bit range
  are included: the candidate that would fall outside it is never chosen.
\<close>

theorem unwrap_is_closest_preimage:
  "wrap (unwrap n isn checkpoint) isn = n \<and>
   (\<forall>x. wrap x isn = n \<longrightarrow>
      dist_nat (unat (unwrap n isn checkpoint)) (unat checkpoint) \<le> dist_nat (unat x) (unat checkpoint))"
  by (simp add: wrap_unwrap unwrap_closest)

theorem unwrap_is_closest_preimage_witness:
  "wrap (2 ^ 32 + 16) (WrappingInt32 5) = WrappingInt32 21 \<and>
   dist_nat (unat (unwrap (WrappingInt32 21) (WrappingInt32 5) 10)) (unat (10 :: u64))
     \<le> dist_nat (unat (2 ^ 32 + 16 :: u64)) (unat (10 :: u64))"
proof -
  have "wrap (2 ^ 32 + 16) (WrappingInt32 5) = WrappingInt32 21"
    by (simp add: wrap_def push_bit_32_u64)
  with unwrap_is_closest_preimage [of "WrappingInt32 21" "WrappingInt32 5" 10] show ?thesis
    by blast
qed

text \<open>
  Round trip: a 64-bit stream position within less than \<open>2 ^ 31\<close> of the checkpoint
  survives being wrapped to 32 bits and unwrapped again.
\<close>

theorem unwrap_wrap_roundtrip:
  assumes "dist_nat (unat x) (unat checkpoint) < 2 ^ 31"
  shows "unwrap (wrap x isn) isn checkpoint = x"
  using assms by (intro unwrap_wrap) simp

theorem unwrap_wrap_roundtrip_witness:
  "dist_nat (unat (2 ^ 33 + 7 :: u64)) (unat (2 ^ 33 - 9 :: u64)) < 2 ^ 31 \<and>
   unwrap (wrap (2 ^ 33 + 7) (WrappingInt32 4294967290)) (WrappingInt32 4294967290) (2 ^ 33 - 9) = 2 ^ 33 + 7"
proof -
  have h: "dist_nat (unat (2 ^ 33 + 7 :: u64)) (unat (2 ^ 33 - 9 :: u64)) < 2 ^ 31"
    by (simp add: dist_nat_def)
  with unwrap_wrap_roundtrip [OF h, of "WrappingInt32 4294967290"] show ?thesis by blast
qed

end
