(* ===== verification/TCP_Segment.thy ===== *)
theory TCP_Segment
  imports Internet_Checksum Wrapping_Integers
begin

text \<open>
  TCP headers and segments, \<open>libsponge/tcp_helpers/tcp_header.hh\<close>, \<open>tcp_header.cc\<close>,
  \<open>tcp_segment.hh\<close> and \<open>tcp_segment.cc\<close>: the fields, parsing and serialization, and the length
  in sequence space. The locale \<open>wire_format\<close> is the round-trip contract of the headers of all
  layers.
\<close>

record tcp_header =
  sport :: u16
  dport :: u16
  seqno :: WrappingInt32
  ackno :: WrappingInt32
  doff :: u8
  urg :: bool
  ack :: bool
  psh :: bool
  rst :: bool
  syn :: bool
  fin :: bool
  win :: u16
  tcp_cksum :: u16
  uptr :: u16

definition tcp_header_LENGTH :: u64 where
  "tcp_header_LENGTH = 20"

definition tcp_header_default :: tcp_header where
  "tcp_header_default = \<lparr>sport = 0, dport = 0, seqno = WrappingInt32 0, ackno = WrappingInt32 0,
     doff = ucast (tcp_header_LENGTH div 4), urg = False, ack = False, psh = False, rst = False,
     syn = False, fin = False, win = 0, tcp_cksum = 0, uptr = 0\<rparr>"

definition tcp_header_parse :: "net_parser \<Rightarrow> (ParseResult \<times> tcp_header \<times> net_parser) option" where
  "tcp_header_parse p = do {
     (sport, p) \<leftarrow> np_u16 p;
     (dport, p) \<leftarrow> np_u16 p;
     (seqno, p) \<leftarrow> np_u32 p;
     (ackno, p) \<leftarrow> np_u32 p;
     (doff_b, p) \<leftarrow> np_u8 p;
     (fl_b, p) \<leftarrow> np_u8 p;
     (win, p) \<leftarrow> np_u16 p;
     (cksum, p) \<leftarrow> np_u16 p;
     (uptr, p) \<leftarrow> np_u16 p;
     let doff = drop_bit 4 doff_b;
         h = \<lparr>sport = sport, dport = dport, seqno = WrappingInt32 seqno, ackno = WrappingInt32 ackno,
              doff = doff,
              urg = (fl_b AND 0x20 \<noteq> 0), ack = (fl_b AND 0x10 \<noteq> 0), psh = (fl_b AND 0x08 \<noteq> 0),
              rst = (fl_b AND 0x04 \<noteq> 0), syn = (fl_b AND 0x02 \<noteq> 0), fin = (fl_b AND 0x01 \<noteq> 0),
              win = win, tcp_cksum = cksum, uptr = uptr\<rparr>
     in if doff < 5 then Some (HeaderTooShort, h, p)
        else do {
          p \<leftarrow> np_remove_prefix (ucast doff * 4 - tcp_header_LENGTH) p;
          if np_failed p then Some (np_error p, h, p) else Some (NoError, h, p)
        }
   }"

definition flag_bit :: "bool \<Rightarrow> u8 \<Rightarrow> u8" where
  "flag_bit b m = (if b then m else 0)"

definition tcp_flags :: "tcp_header \<Rightarrow> u8" where
  "tcp_flags h = flag_bit (urg h) 0x20 OR flag_bit (ack h) 0x10 OR flag_bit (psh h) 0x08 OR
     flag_bit (rst h) 0x04 OR flag_bit (syn h) 0x02 OR flag_bit (fin h) 0x01"

definition tcp_header_serialize :: "tcp_header \<Rightarrow> bytes option" where
  "tcp_header_serialize h =
     (if doff h < 5 then None
      else
        let ret = unparse_u16 [] (sport h);
            ret = unparse_u16 ret (dport h);
            ret = unparse_u32 ret (raw_value (seqno h));
            ret = unparse_u32 ret (raw_value (ackno h));
            ret = unparse_u8 ret (push_bit 4 (doff h));
            ret = unparse_u8 ret (tcp_flags h);
            ret = unparse_u16 ret (win h);
            ret = unparse_u16 ret (tcp_cksum h);
            ret = unparse_u16 ret (uptr h)
        in Some (resize (4 * unat (doff h)) ret))"

text \<open>\<open>operator==\<close> leaves out the ports and the checksum.\<close>

definition tcp_header_eq :: "tcp_header \<Rightarrow> tcp_header \<Rightarrow> bool" where
  "tcp_header_eq h other \<longleftrightarrow>
     wi_eq (seqno h) (seqno other) \<and> wi_eq (ackno h) (ackno other) \<and> doff h = doff other \<and>
     urg h = urg other \<and> ack h = ack other \<and> psh h = psh other \<and> rst h = rst other \<and>
     syn h = syn other \<and> fin h = fin other \<and> win h = win other \<and> uptr h = uptr other"

record tcp_segment =
  header :: tcp_header
  payload :: buffer

definition tcp_segment_default :: tcp_segment where
  "tcp_segment_default = \<lparr>header = tcp_header_default, payload = buffer_empty_new\<rparr>"

definition tcp_segment_parse :: "buffer \<Rightarrow> u32 \<Rightarrow> tcp_segment \<Rightarrow> (ParseResult \<times> tcp_segment) option" where
  "tcp_segment_parse buf datagram_layer_checksum seg =
     (let check = ck_add (buffer_str buf) (ck_new datagram_layer_checksum)
      in if ck_value check \<noteq> 0 then Some (BadChecksum, seg)
         else do {
           (_, h, p) \<leftarrow> tcp_header_parse (np_new buf);
           Some (np_error p, \<lparr>header = h, payload = np_buffer p\<rparr>)
         })"

definition length_in_sequence_space :: "tcp_segment \<Rightarrow> u64" where
  "length_in_sequence_space seg =
     size64 (buffer_str (payload seg)) + (if syn (header seg) then 1 else 0) + (if fin (header seg) then 1 else 0)"

definition tcp_segment_serialize :: "u32 \<Rightarrow> tcp_segment \<Rightarrow> buffer_list option" where
  "tcp_segment_serialize datagram_layer_checksum seg =
     (let header_out = header seg\<lparr>tcp_cksum := 0\<rparr>
      in do {
        h0 \<leftarrow> tcp_header_serialize header_out;
        let check = ck_add (buffer_str (payload seg)) (ck_add h0 (ck_new datagram_layer_checksum));
            header_out = header_out\<lparr>tcp_cksum := ck_value check\<rparr>
        in do {
          h1 \<leftarrow> tcp_header_serialize header_out;
          Some (bl_append (bl_append [] (bl_of_string h1)) (bl_of_buffer (payload seg)))
        }
      })"

subsection \<open>Parsing what was serialized\<close>

lemma fields_of_flags:
  "(tcp_flags h AND 0x20 \<noteq> 0) = urg h" "(tcp_flags h AND 0x10 \<noteq> 0) = ack h"
  "(tcp_flags h AND 0x08 \<noteq> 0) = psh h" "(tcp_flags h AND 0x04 \<noteq> 0) = rst h"
  "(tcp_flags h AND 0x02 \<noteq> 0) = syn h" "(tcp_flags h AND 0x01 \<noteq> 0) = fin h"
  unfolding tcp_flags_def flag_bit_def
  by (cases "urg h"; cases "ack h"; cases "psh h"; cases "rst h"; cases "syn h"; cases "fin h"; simp)+

definition tcp_header_fields :: "tcp_header \<Rightarrow> bytes" where
  "tcp_header_fields h = be_bytes (sport h) @ be_bytes (dport h) @ be_bytes (raw_value (seqno h)) @
     be_bytes (raw_value (ackno h)) @ be_bytes (push_bit 4 (doff h)) @ be_bytes (tcp_flags h) @
     be_bytes (win h) @ be_bytes (tcp_cksum h) @ be_bytes (uptr h)"

lemma length_tcp_header_fields [simp]: "length (tcp_header_fields h) = 20"
  by (simp add: tcp_header_fields_def)

lemma tcp_header_serialize_eq:
  "tcp_header_serialize h = (if unat (doff h) < 5 then None
     else Some (tcp_header_fields h @ replicate (4 * unat (doff h) - 20) 0))"
proof -
  have "resize (4 * unat (doff h)) (tcp_header_fields h) =
      tcp_header_fields h @ replicate (4 * unat (doff h) - 20) 0" if "5 \<le> unat (doff h)"
    using that by (simp add: resize_def)
  then show ?thesis
    unfolding tcp_header_serialize_def Let_def unparse_eq append_assoc append_Nil tcp_header_fields_def [symmetric]
    by (simp add: word_less_nat_alt)
qed


lemma tcp_header_parse_at:
  assumes "np_at p (tcp_header_fields h @ opts @ rest)"
    and "5 \<le> unat (doff h)" and "unat (doff h) < 16" and "length opts = 4 * unat (doff h) - 20"
  shows "\<exists>p'. tcp_header_parse p = Some (NoError, h, p') \<and> np_at p' rest"
proof -
  have d: "drop_bit 4 (push_bit 4 (doff h)) = doff h" using assms(3) by (intro drop_push_nibble) (simp add: word_less_nat_alt)
  have n: "unat ((ucast (doff h) :: u64) * 4 - tcp_header_LENGTH) = length opts"
    using assms(2-4) by (simp add: tcp_header_LENGTH_def unat_word_ariths unat_ucast_mod unat_sub_no_wrap)
  note 1 = np_at_u16 [OF assms(1) [unfolded tcp_header_fields_def append_assoc]]
  note 2 = np_at_u16 [OF conjunct2 [OF 1]]
  note 3 = np_at_u32 [OF conjunct2 [OF 2]]
  note 4 = np_at_u32 [OF conjunct2 [OF 3]]
  note 5 = np_at_u8 [OF conjunct2 [OF 4]]
  note 6 = np_at_u8 [OF conjunct2 [OF 5]]
  note 7 = np_at_u16 [OF conjunct2 [OF 6]]
  note 8 = np_at_u16 [OF conjunct2 [OF 7]]
  note 9 = np_at_u16 [OF conjunct2 [OF 8]]
  note 10 = np_at_remove_prefix [OF conjunct2 [OF 9] n]
  have "\<not> doff h < 5" using assms(2) by (simp add: word_less_nat_alt)
  then have "tcp_header_parse p = Some (NoError, h, np_adv (length opts)
      (np_adv 2 (np_adv 2 (np_adv 2 (np_adv 1 (np_adv 1 (np_adv 4 (np_adv 4 (np_adv 2 (np_adv 2 p))))))))))"
    using np_at_not_failed [OF conjunct2 [OF 10]]
    unfolding tcp_header_parse_def
    by (simp only: bind_simps Let_def fields_of_flags d if_False
       conjunct1 [OF 1] conjunct1 [OF 2] conjunct1 [OF 3] conjunct1 [OF 4] conjunct1 [OF 5]
       conjunct1 [OF 6] conjunct1 [OF 7] conjunct1 [OF 8] conjunct1 [OF 9] conjunct1 [OF 10]) simp
  with 10 show ?thesis by blast
qed

definition tcp_header_valid :: "tcp_header \<Rightarrow> bool" where
  "tcp_header_valid h \<longleftrightarrow> 5 \<le> unat (doff h) \<and> unat (doff h) < 16"

definition tcp_header_decode :: "bytes \<Rightarrow> (tcp_header \<times> bytes) option" where
  "tcp_header_decode bs = (case tcp_header_parse (np_new (buffer_new bs)) of
     Some (NoError, h, p) \<Rightarrow> Some (h, np_contents p) | _ \<Rightarrow> None)"

lemma tcp_header_fields_nonempty: "tcp_header_fields h \<noteq> []"
  using length_tcp_header_fields [of h] by (metis list.size(3) zero_neq_numeral)

interpretation tcph: wire_format tcp_header_valid tcp_header_serialize tcp_header_decode
proof unfold_locales
  fix h :: tcp_header assume v: "tcp_header_valid h"
  then show "\<exists>w. tcp_header_serialize h = Some w \<and> w \<noteq> []"
    by (auto simp: tcp_header_serialize_eq tcp_header_valid_def tcp_header_fields_nonempty)
  fix w rest assume w: "tcp_header_serialize h = Some w" and len: "length (w @ rest) < 2 ^ 64"
  have "np_at (np_new (buffer_new (w @ rest))) (w @ rest)"
    using buffer_inv_new [OF len] by (simp add: np_at_def)
  moreover have "w = tcp_header_fields h @ replicate (4 * unat (doff h) - 20) 0"
    using v w by (simp add: tcp_header_serialize_eq tcp_header_valid_def)
  ultimately obtain p' where "tcp_header_parse (np_new (buffer_new (w @ rest))) = Some (NoError, h, p')" "np_at p' rest"
    using tcp_header_parse_at [of _ h "replicate (4 * unat (doff h) - 20) 0" rest] v
    by (auto simp: tcp_header_valid_def)
  then show "tcp_header_decode (w @ rest) = Some (h, rest)"
    by (simp add: tcp_header_decode_def np_at_def)
qed

lemma tcp_header_fields_cksum:
  "tcp_header_fields (h\<lparr>tcp_cksum := v\<rparr>) =
     take 16 (tcp_header_fields h) @ be_bytes v @ be_bytes (uptr h)"
  by (simp add: tcp_header_fields_def tcp_flags_def)

definition header_opts :: "tcp_header \<Rightarrow> bytes" where
  "header_opts h = replicate (4 * unat (doff h) - 20) 0"

lemma tcp_segment_serialize_ok:
  assumes "tcp_header_valid (header seg)"
    and "unat c + 255 * 256 * (4 * unat (doff (header seg)) + length (buffer_str (payload seg))) < 2 ^ 32"
  obtains bl h where "tcp_segment_serialize c seg = Some bl"
    and "bl_concatenate bl = tcp_header_fields h @ header_opts h @ buffer_str (payload seg)"
    and "h = header seg\<lparr>tcp_cksum := tcp_cksum h\<rparr>" and "checksum c (bl_concatenate bl) = 0"
proof
  let ?h = "header seg" and ?d = "buffer_str (payload seg)"
  let ?pre = "take 16 (tcp_header_fields ?h)" and ?post = "be_bytes (uptr ?h) @ header_opts ?h @ ?d"
  let ?v = "checksum c (?pre @ be_bytes (0 :: u16) @ ?post)"
  let ?bl = "[buffer_new (tcp_header_fields (?h\<lparr>tcp_cksum := ?v\<rparr>) @ header_opts ?h), payload seg]"
  have ser: "tcp_header_serialize (?h\<lparr>tcp_cksum := v\<rparr>) =
      Some (?pre @ be_bytes v @ be_bytes (uptr ?h) @ header_opts ?h)" for v
    using assms(1) by (simp add: tcp_header_serialize_eq tcp_header_valid_def header_opts_def
        tcp_header_fields_cksum)
  have "ck_value (ck_add ?d (ck_add (?pre @ be_bytes (0 :: u16) @ be_bytes (uptr ?h) @ header_opts ?h) (ck_new c))) = ?v"
    by (simp add: checksum_def flip: ck_add_append)
  then show "tcp_segment_serialize c seg = Some ?bl"
    by (simp add: tcp_segment_serialize_def ser Let_def bl_of_string_def bl_of_buffer_def tcp_header_fields_cksum
       del: be_bytes_u16)
  show c: "bl_concatenate ?bl = tcp_header_fields (?h\<lparr>tcp_cksum := ?v\<rparr>) @ header_opts (?h\<lparr>tcp_cksum := ?v\<rparr>) @ ?d"
    by (simp add: bl_concatenate_eq header_opts_def)
  show "?h\<lparr>tcp_cksum := ?v\<rparr> = ?h\<lparr>tcp_cksum := tcp_cksum (?h\<lparr>tcp_cksum := ?v\<rparr>)\<rparr>" by simp
  have "summable c (?pre @ be_bytes ?v @ ?post)" 
  proof (rule summable_length)
    have "length (?pre @ be_bytes ?v @ ?post) = 4 * unat (doff ?h) + length ?d"
      using assms(1) by (auto simp: header_opts_def tcp_header_valid_def)
    then show "unat c + 255 * 256 * length (?pre @ be_bytes ?v @ ?post) < 2 ^ 32"
      using assms(2) by (simp only:)
  qed
  then have "checksum c (?pre @ be_bytes ?v @ ?post) = 0"
    by (intro checksum_fill) simp_all
  then show "checksum c (bl_concatenate ?bl) = 0"
    unfolding c by (simp add: tcp_header_fields_cksum header_opts_def)
qed

text \<open>Bytes that read as the segment \<open>seg\<close>, up to its checksum field.\<close>

definition tcp_reads :: "u32 \<Rightarrow> bytes \<Rightarrow> tcp_segment \<Rightarrow> bool" where
  "tcp_reads c bs seg \<longleftrightarrow> (\<forall>b seg0. buffer_inv b \<longrightarrow> buffer_str b = bs \<longrightarrow>
     (\<exists>seg'. tcp_segment_parse b c seg0 = Some (NoError, seg') \<and>
        header seg' = header seg\<lparr>tcp_cksum := tcp_cksum (header seg')\<rparr> \<and>
        buffer_str (payload seg') = buffer_str (payload seg)))"

lemma tcp_readsD:
  "tcp_reads c bs seg \<Longrightarrow> buffer_inv b \<Longrightarrow> buffer_str b = bs \<Longrightarrow>
     \<exists>seg'. tcp_segment_parse b c seg0 = Some (NoError, seg') \<and>
        header seg' = header seg\<lparr>tcp_cksum := tcp_cksum (header seg')\<rparr> \<and>
        buffer_str (payload seg') = buffer_str (payload seg)"
  by (simp add: tcp_reads_def)

lemma tcp_segment_parse_own:
  assumes "tcp_header_valid (header seg)"
    and "unat c + 255 * 256 * (4 * unat (doff (header seg)) + length (buffer_str (payload seg))) < 2 ^ 32"
  obtains bl where "tcp_segment_serialize c seg = Some bl"
    "length (bl_concatenate bl) = 4 * unat (doff (header seg)) + length (buffer_str (payload seg))"
    "tcp_reads c (bl_concatenate bl) seg"
proof -
  obtain bl h where bl: "tcp_segment_serialize c seg = Some bl"
    "bl_concatenate bl = tcp_header_fields h @ header_opts h @ buffer_str (payload seg)"
    "h = header seg\<lparr>tcp_cksum := tcp_cksum h\<rparr>" "checksum c (bl_concatenate bl) = 0"
    by (rule tcp_segment_serialize_ok [OF assms])
  have d: "doff h = doff (header seg)" by (subst bl(3)) simp
  then have h: "5 \<le> unat (doff h)" "unat (doff h) < 16" "length (header_opts h) = 4 * unat (doff h) - 20"
    using assms(1) by (simp_all add: tcp_header_valid_def header_opts_def)
  have "tcp_reads c (bl_concatenate bl) seg"
    unfolding tcp_reads_def
  proof (intro allI impI)
    fix b and seg0 :: tcp_segment assume b: "buffer_inv b" "buffer_str b = bl_concatenate bl"
    then have "np_at (np_new b) (tcp_header_fields h @ header_opts h @ buffer_str (payload seg))"
      by (simp add: np_at_def np_new_def np_inv_def np_contents_def bl(2))
    from tcp_header_parse_at [OF this h] obtain p' where
      "tcp_header_parse (np_new b) = Some (NoError, h, p')" "np_at p' (buffer_str (payload seg))" by blast
    with bl b show "\<exists>seg'. tcp_segment_parse b c seg0 = Some (NoError, seg') \<and>
        header seg' = header seg\<lparr>tcp_cksum := tcp_cksum (header seg')\<rparr> \<and>
        buffer_str (payload seg') = buffer_str (payload seg)"
      by (auto simp: tcp_segment_parse_def Let_def checksum_def np_at_def np_contents_def)
  qed
  moreover have "length (bl_concatenate bl) = 4 * unat (doff (header seg)) + length (buffer_str (payload seg))"
    using h d by (simp add: bl(2))
  ultimately show thesis using that bl(1) by blast
qed

text \<open>The header of arbitrary bytes: which of them the parser reads, and when it fails.\<close>

lemma tcp_header_parse_track:
  assumes "np_track bs 0 p"
  shows "\<exists>res h p'. tcp_header_parse p = Some (res, h, p') \<and>
    (20 \<le> length bs \<longrightarrow> unat (doff h) = unat (bs ! 12) div 16) \<and>
    np_track bs (if unat (doff h) < 5 then 20 else 4 * unat (doff h)) p' \<and>
    (res = HeaderTooShort \<longleftrightarrow> unat (doff h) < 5) \<and>
    (5 \<le> unat (doff h) \<longrightarrow> res = np_error p')"
proof -
  obtain v1 p1 where 1: "np_u16 p = Some (v1, p1)" "np_track bs 2 p1" using np_track_u16 [OF assms, of 2] by auto
  obtain v2 p2 where 2: "np_u16 p1 = Some (v2, p2)" "np_track bs 4 p2" using np_track_u16 [OF 1(2), of 4] by auto
  obtain v3 p3 where 3: "np_u32 p2 = Some (v3, p3)" "np_track bs 8 p3" using np_track_u32 [OF 2(2), of 8] by auto
  obtain v4 p4 where 4: "np_u32 p3 = Some (v4, p4)" "np_track bs 12 p4" using np_track_u32 [OF 3(2), of 12] by auto
  obtain v5 p5 where 5: "np_u8 p4 = Some (v5, p5)" "np_track bs 13 p5"
    "13 \<le> length bs \<Longrightarrow> v5 = be_int (take 1 (drop 12 bs))" using np_track_u8 [OF 4(2), of 13] by auto
  obtain v6 p6 where 6: "np_u8 p5 = Some (v6, p6)" "np_track bs 14 p6" using np_track_u8 [OF 5(2), of 14] by auto
  obtain v7 p7 where 7: "np_u16 p6 = Some (v7, p7)" "np_track bs 16 p7" using np_track_u16 [OF 6(2), of 16] by auto
  obtain v8 p8 where 8: "np_u16 p7 = Some (v8, p8)" "np_track bs 18 p8" using np_track_u16 [OF 7(2), of 18] by auto
  obtain v9 p9 where 9: "np_u16 p8 = Some (v9, p9)" "np_track bs 20 p9" using np_track_u16 [OF 8(2), of 20] by auto
  let ?d = "drop_bit 4 v5"
  have ud: "unat ?d = unat v5 div 16" by (simp only: unat_drop_bit_eq) (simp add: drop_bit_eq_div)
  have v5: "20 \<le> length bs \<Longrightarrow> v5 = bs ! 12"
    using 5(3) by (simp add: be_int_def take_Suc_conv_app_nth)
  have n: "5 \<le> unat ?d \<Longrightarrow> 20 + unat ((ucast ?d :: u64) * 4 - tcp_header_LENGTH) = 4 * unat ?d"
    using unat_u8_less [of ?d]
    by (simp add: tcp_header_LENGTH_def unat_word_ariths unat_ucast_mod unat_sub_no_wrap)
  obtain p10 where 10: "np_remove_prefix (ucast ?d * 4 - tcp_header_LENGTH) p9 = Some p10"
    "np_track bs (20 + unat ((ucast ?d :: u64) * 4 - tcp_header_LENGTH)) p10"
    using np_track_remove_prefix [OF 9(2)] by auto
  note steps = 1(1) 2(1) 3(1) 4(1) 5(1) 6(1) 7(1) 8(1) 9(1) 10(1)
  show ?thesis
    unfolding tcp_header_parse_def steps bind_simps Let_def word_less_nat_alt
    using 9(2) 10(2) n ud v5 np_track_error [OF 10(2)]
    by (cases "unat ?d < 5") (auto simp: np_failed_def)
qed

subsection \<open>Segments of one stream\<close>

text \<open>
  \<open>seg_of f N isn k seg\<close>: the segment carries, at absolute sequence number \<open>k\<close>, bytes of the stream
  \<open>f\<close> of \<open>N\<close> bytes: number 0 is the SYN, numbers 1 to \<open>N\<close> are the bytes, \<open>N + 1\<close> is the FIN.
  Segments without payload and flags, which only acknowledge, may carry any number up to \<open>N + 2\<close>.
\<close>

definition seg_of :: "(nat \<Rightarrow> byte) \<Rightarrow> nat \<Rightarrow> WrappingInt32 \<Rightarrow> nat \<Rightarrow> tcp_segment \<Rightarrow> bool" where
  "seg_of f N isn k seg \<longleftrightarrow>
     (let data = buffer_str (payload seg); i = (if syn (header seg) then 0 else k - 1)
      in seqno (header seg) = wrap (of_nat k) isn \<and>
         (syn (header seg) \<longrightarrow> k = 0) \<and>
         (k = 0 \<and> \<not> syn (header seg) \<longrightarrow> data = [] \<and> \<not> fin (header seg)) \<and>
         (\<forall>j < length data. data ! j = f (i + j)) \<and>
         (data \<noteq> [] \<longrightarrow> i + length data \<le> N) \<and>
         (fin (header seg) \<longrightarrow> i + length data = N) \<and> k \<le> N + 2)"

text \<open>The stream indices of the payload.\<close>

definition seg_bytes :: "nat \<Rightarrow> tcp_segment \<Rightarrow> nat set" where
  "seg_bytes k seg = (let i = (if syn (header seg) then 0 else k - 1)
     in {i..<i + length (buffer_str (payload seg))})"

subsection \<open>Properties\<close>

text \<open>
  C14. Round trip of a segment. A segment whose data offset is legal is serialized without a throw,
  and parsing the bytes with the same pseudo-header sum succeeds and gives back every header field,
  except that the checksum field now holds the computed checksum, and the payload.
\<close>

theorem tcp_segment_roundtrip:
  assumes "tcp_header_valid (header seg)"
    and "unat c + 255 * 256 * (4 * unat (doff (header seg)) + length (buffer_str (payload seg))) < 2 ^ 32"
  shows "\<exists>bl seg'. tcp_segment_serialize c seg = Some bl \<and>
    tcp_segment_parse (buffer_new (bl_concatenate bl)) c seg0 = Some (NoError, seg') \<and>
    header seg' = header seg\<lparr>tcp_cksum := tcp_cksum (header seg')\<rparr> \<and>
    buffer_str (payload seg') = buffer_str (payload seg)"
proof -
  obtain bl where bl: "tcp_segment_serialize c seg = Some bl"
    "length (bl_concatenate bl) = 4 * unat (doff (header seg)) + length (buffer_str (payload seg))"
    "tcp_reads c (bl_concatenate bl) seg"
    by (rule tcp_segment_parse_own [OF assms])
  have "buffer_inv (buffer_new (bl_concatenate bl))" using bl(2) assms(2) by (intro buffer_inv_new) simp
  from tcp_readsD [OF bl(3) this] bl(1) show ?thesis by auto
qed

theorem tcp_segment_roundtrip_witness:
  "\<exists>bl seg'. tcp_segment_serialize 9 \<lparr>header = tcp_header_default\<lparr>syn := True, doff := 6\<rparr>, payload = buffer_new [1, 2, 3]\<rparr> = Some bl \<and>
     tcp_segment_parse (buffer_new (bl_concatenate bl)) 9 tcp_segment_default = Some (NoError, seg') \<and>
     syn (header seg') \<and> doff (header seg') = 6 \<and> buffer_str (payload seg') = [1, 2, 3]"
proof -
  let ?seg = "\<lparr>header = tcp_header_default\<lparr>syn := True, doff := 6\<rparr>, payload = buffer_new [1, 2, 3]\<rparr>"
  have h: "tcp_header_valid (header ?seg)" "unat (9 :: u32) + 255 * 256 * (4 * unat (doff (header ?seg)) +
      length (buffer_str (payload ?seg))) < 2 ^ 32" by (simp_all add: tcp_header_valid_def)
  obtain bl seg' where r: "tcp_segment_serialize 9 ?seg = Some bl"
     "tcp_segment_parse (buffer_new (bl_concatenate bl)) 9 tcp_segment_default = Some (NoError, seg')"
     "header seg' = header ?seg\<lparr>tcp_cksum := tcp_cksum (header seg')\<rparr>" "buffer_str (payload seg') = [1, 2, 3]"
    using tcp_segment_roundtrip [OF h, of tcp_segment_default] by auto
  moreover have "syn (header seg')" "doff (header seg') = 6" by (subst r(3), simp)+
  ultimately show ?thesis by blast
qed

text \<open>
  C28. A segment damaged in one byte on the wire, anywhere in header or payload, is rejected with
  \<open>BadChecksum\<close> and leaves the receiving segment object untouched.
\<close>

theorem tcp_segment_damage_detected:
  assumes "tcp_header_valid (header seg)"
    and "unat c + 255 * 256 * (4 * unat (doff (header seg)) + length (buffer_str (payload seg))) < 2 ^ 32"
    and "tcp_segment_serialize c seg = Some bl" and "i < length (bl_concatenate bl)"
    and "y \<noteq> bl_concatenate bl ! i"
  shows "tcp_segment_parse (buffer_new ((bl_concatenate bl)[i := y])) c seg0 = Some (BadChecksum, seg0)"
proof -
  obtain bl' h where bl': "tcp_segment_serialize c seg = Some bl'"
    "bl_concatenate bl' = tcp_header_fields h @ header_opts h @ buffer_str (payload seg)"
    "h = header seg\<lparr>tcp_cksum := tcp_cksum h\<rparr>" "checksum c (bl_concatenate bl') = 0"
    by (rule tcp_segment_serialize_ok [OF assms(1,2)])
  have bl: "bl' = bl" using bl'(1) assms(3) by simp
  have d: "doff h = doff (header seg)" by (subst bl'(3)) simp
  have len: "length (bl_concatenate bl) = 4 * unat (doff (header seg)) + length (buffer_str (payload seg))"
    using assms(1) bl'(2) d by (auto simp: bl header_opts_def tcp_header_valid_def)
  have "summable c (bl_concatenate bl)" "summable c ((bl_concatenate bl)[i := y])"
    using assms(2) len by (intro summable_length; simp)+
  with checksum_single_byte [OF bl'(4) [unfolded bl] assms(4,5)] show ?thesis
    by (simp add: tcp_segment_parse_def checksum_def Let_def)
qed

theorem tcp_segment_damage_detected_witness:
  "\<exists>bl. tcp_segment_serialize 9 \<lparr>header = tcp_header_default, payload = buffer_new [1, 2]\<rparr> = Some bl \<and>
     tcp_segment_parse (buffer_new ((bl_concatenate bl)[21 := 3])) 9 tcp_segment_default =
       Some (BadChecksum, tcp_segment_default)"
proof -
  let ?seg = "\<lparr>header = tcp_header_default, payload = buffer_new [1, 2]\<rparr>"
  have v: "tcp_header_valid (header ?seg)" and s: "unat (9 :: u32) + 255 * 256 * (4 * unat (doff (header ?seg)) +
      length (buffer_str (payload ?seg))) < 2 ^ 32"
    by (simp_all add: tcp_header_valid_def tcp_header_default_def tcp_header_LENGTH_def)
  obtain bl h where bl: "tcp_segment_serialize 9 ?seg = Some bl"
    "bl_concatenate bl = tcp_header_fields h @ header_opts h @ [1, 2]" "h = header ?seg\<lparr>tcp_cksum := tcp_cksum h\<rparr>"
    by (rule tcp_segment_serialize_ok [OF v s]) simp
  have "header_opts h = []"
    by (subst bl(3)) (simp add: header_opts_def tcp_header_default_def tcp_header_LENGTH_def)
  then have "21 < length (bl_concatenate bl)" "3 \<noteq> bl_concatenate bl ! 21"
    by (simp_all add: bl(2) nth_append)
  with tcp_segment_damage_detected [OF v s bl(1)] bl(1) show ?thesis by blast
qed

text \<open>
  C33. Parsing is total on arbitrary bytes, and this is its exact outcome: a wrong checksum is
  reported first and changes nothing; otherwise bytes that end before the header does are reported
  as \<open>PacketTooShort\<close>, and everything else is accepted. In particular a data offset below five,
  for which \<open>TCPHeader::parse\<close> returns \<open>HeaderTooShort\<close>, is accepted by \<open>TCPSegment::parse\<close> as
  \<open>NoError\<close>, with the bytes after the first twenty as payload.
\<close>

theorem tcp_segment_parse_outcome:
  fixes b :: buffer and c :: u32
  defines "bs \<equiv> buffer_str b"
  defines "d \<equiv> unat (bs ! 12) div 16"
  assumes "buffer_inv b"
  shows "\<exists>res seg'. tcp_segment_parse b c seg = Some (res, seg') \<and>
    res = (if checksum c bs \<noteq> 0 then BadChecksum
           else if length bs < 20 \<or> 5 \<le> d \<and> length bs < 4 * d then PacketTooShort else NoError) \<and>
    (res = BadChecksum \<longrightarrow> seg' = seg) \<and>
    (res = NoError \<longrightarrow> buffer_str (payload seg') = drop (if d < 5 then 20 else 4 * d) bs)"
proof -
  obtain r h p where p: "tcp_header_parse (np_new b) = Some (r, h, p)"
    "20 \<le> length bs \<Longrightarrow> unat (doff h) = d"
    "np_track bs (if unat (doff h) < 5 then 20 else 4 * unat (doff h)) p"
    using tcp_header_parse_track [OF np_track_new [OF assms(3)]] unfolding bs_def [symmetric] d_def by blast
  have "tcp_segment_parse b c seg = Some (if checksum c bs \<noteq> 0 then (BadChecksum, seg)
      else (np_error p, \<lparr>header = h, payload = np_buffer p\<rparr>))"
    using p(1) by (simp add: tcp_segment_parse_def checksum_def bs_def Let_def)
  with p(2,3) show ?thesis
    by (auto simp: np_track_def np_contents_def split: if_splits)
qed

theorem tcp_segment_parse_outcome_witness:
  "\<exists>seg'. tcp_segment_parse (buffer_new (replicate 20 0 @ [0xff, 0xff])) 0 tcp_segment_default = Some (NoError, seg') \<and>
     buffer_str (payload seg') = [0xff, 0xff]"
proof -
  let ?b = "buffer_new (replicate 20 0 @ [0xff, 0xff])"
  have inv: "buffer_inv ?b" by (simp add: buffer_inv_new)
  have s: "summable 0 (replicate 20 0 @ [0xff, 0xff])" by (rule summable_length) simp
  have "weight False (replicate 20 0 @ [0xff, 0xff]) = 65535"
    by (simp add: weight_append weight_zeros parity_after_def)
  then have "checksum 0 (replicate 20 0 @ [0xff, 0xff]) = 0"
    by (simp add: checksum_def ck_value_zero_iff checksum_sum [OF s])
  then show ?thesis
    using tcp_segment_parse_outcome [OF inv, of 0 tcp_segment_default] by (auto simp: nth_append)
qed
end
