(* ===== verification/TCP_Receiver.thy ===== *)
theory TCP_Receiver
  imports Stream_Reassembler TCP_Segment
begin

text \<open>
  The TCP receiver, \<open>libsponge/tcp_receiver.hh\<close> and \<open>tcp_receiver.cc\<close>: it turns the 32-bit
  sequence number of every incoming segment into a 64-bit stream index, hands the payload to the
  reassembler, and reports the acknowledgment number and the window. A throw of the reassembler is
  \<^const>\<open>None\<close>.
\<close>

record tcp_receiver =
  rcv_reassembler :: stream_reassembler
  rcv_capacity :: u64
  syn_received :: bool
  rcv_isn :: WrappingInt32

definition rcv_new :: "u64 \<Rightarrow> tcp_receiver" where
  "rcv_new capacity = \<lparr>rcv_reassembler = ra_new capacity, rcv_capacity = capacity,
     syn_received = False, rcv_isn = WrappingInt32 0\<rparr>"

definition rcv_stream_out :: "tcp_receiver \<Rightarrow> byte_stream" where
  "rcv_stream_out r = ra_output (rcv_reassembler r)"

definition rcv_segment_received :: "tcp_segment \<Rightarrow> tcp_receiver \<Rightarrow> tcp_receiver option" where
  "rcv_segment_received seg r =
     (let r1 = (if syn (header seg) then r\<lparr>syn_received := True, rcv_isn := seqno (header seg)\<rparr> else r)
      in if \<not> syn_received r1 then Some r1
         else
           let abs_seqno = unwrap (seqno (header seg)) (rcv_isn r1) (bytes_written (rcv_stream_out r1) + 1)
           in map_option (\<lambda>ra. r1\<lparr>rcv_reassembler := ra\<rparr>)
                (push_substring (buffer_copy (payload seg)) (abs_seqno - (if syn (header seg) then 0 else 1))
                   (fin (header seg)) (rcv_reassembler r1)))"

definition rcv_ackno :: "tcp_receiver \<Rightarrow> WrappingInt32 option" where
  "rcv_ackno r =
     (if syn_received r
      then Some (wrap (bytes_written (rcv_stream_out r) + (if syn_received r then 1 else 0) +
             (if input_ended (rcv_stream_out r) then 1 else 0)) (rcv_isn r))
      else None)"

definition rcv_window_size :: "tcp_receiver \<Rightarrow> u64" where
  "rcv_window_size r = remaining_capacity (rcv_stream_out r)"

definition rcv_unassembled_bytes :: "tcp_receiver \<Rightarrow> u64" where
  "rcv_unassembled_bytes r = unassembled_bytes (rcv_reassembler r)"

subsection \<open>The receiver on a stream\<close>

definition on_connection :: "(nat \<Rightarrow> byte) \<Rightarrow> nat \<Rightarrow> u64 \<Rightarrow> WrappingInt32 \<Rightarrow> tcp_receiver \<Rightarrow> bool" where
  "on_connection f N c isn r \<longleftrightarrow>
     on_stream f N c (rcv_reassembler r) \<and> (syn_received r \<longrightarrow> rcv_isn r = isn) \<and>
     (\<not> syn_received r \<longrightarrow> received (rcv_reassembler r) = {} \<and> \<not> input_ended (rcv_stream_out r))"

subsection \<open>One segment\<close>

lemma on_stream_written:
  assumes "on_stream f N c r"
  shows "unat (bytes_written (ra_output r)) = unat (first_unasmb r)"
    "unat (first_unasmb r) = (LEAST i. i \<notin> received r)"
proof -
  have core: "ra_core r" using assms by (simp add: on_stream_def ra_inv_def)
  then show "unat (bytes_written (ra_output r)) = unat (first_unasmb r)"
    using unat_u64_less [of "first_unasmb r"]
    by (simp add: ra_core_def bs_inv_def bytes_written_def unat_simps)
  show "unat (first_unasmb r) = (LEAST i. i \<notin> received r)" by (rule first_unasmb_missing [OF core])
qed

lemma seg_index:
  assumes seg: "seg_of f N isn k seg" and N: "N + 3 < 2 ^ 64"
    and d: "dist_nat k (unat w + 1) < 2147483648" and w: "unat w \<le> N"
  shows "unwrap (seqno (header seg)) isn (w + 1) = of_nat k"
    "excerpt f N (Push (buffer_str (payload seg)) (of_nat k - (if syn (header seg) then 0 else 1)) (fin (header seg)))"
    "buffer_str (payload seg) \<noteq> [] \<Longrightarrow> unat (of_nat k - (if syn (header seg) then 0 else 1) :: u64) =
       (if syn (header seg) then 0 else k - 1)"
proof -
  let ?i = "of_nat k - (if syn (header seg) then 0 else 1) :: u64"
  have k: "unat (of_nat k :: u64) = k" using seg N by (simp add: seg_of_def Let_def unat_of_nat)
  have "unat (w + 1) = unat w + 1" using w N by (simp add: unat_simps)
  then show "unwrap (seqno (header seg)) isn (w + 1) = of_nat k"
    using seg d k unwrap_wrap [of "of_nat k" "w + 1" isn] by (simp add: seg_of_def Let_def)
  have i: "unat ?i = (if syn (header seg) then 0 else k - 1)" if "k \<noteq> 0 \<or> syn (header seg)"
    using that seg k by (auto simp: seg_of_def Let_def unat_sub_no_wrap)
  show "excerpt f N (Push (buffer_str (payload seg)) ?i (fin (header seg)))"
    using seg i by (cases "k \<noteq> 0 \<or> syn (header seg)") (auto simp: seg_of_def Let_def)
  show "buffer_str (payload seg) \<noteq> [] \<Longrightarrow> unat ?i = (if syn (header seg) then 0 else k - 1)"
    using seg i by (cases "k \<noteq> 0 \<or> syn (header seg)") (auto simp: seg_of_def Let_def)
qed

lemma rcv_segment_on_connection:
  assumes oc: "on_connection f N c isn r" and seg: "seg_of f N isn k seg" and N: "N + unat c + 3 < 2 ^ 64"
    and d: "dist_nat k (unat (bytes_written (rcv_stream_out r)) + 1) < 2147483648"
  shows "\<exists>r'. rcv_segment_received seg r = Some r' \<and> on_connection f N c isn r' \<and>
    n_bytes_read (rcv_stream_out r') = n_bytes_read (rcv_stream_out r) \<and>
    (syn_received r' \<longleftrightarrow> syn_received r \<or> syn (header seg)) \<and>
    received (rcv_reassembler r) \<subseteq> received (rcv_reassembler r') \<and>
    (syn_received r' \<longrightarrow> seg_bytes k seg \<inter> {..<window_end (rcv_reassembler r)} \<subseteq> received (rcv_reassembler r'))"
proof -
  define r1 where "r1 = (if syn (header seg) then r\<lparr>syn_received := True, rcv_isn := seqno (header seg)\<rparr> else r)"
  have ra: "rcv_reassembler r1 = rcv_reassembler r" "rcv_stream_out r1 = rcv_stream_out r"
    by (simp_all add: r1_def rcv_stream_out_def)
  show ?thesis
  proof (cases "syn_received r1")
    case False
    then have "rcv_segment_received seg r = Some r" "\<not> syn_received r" "\<not> syn (header seg)"
      by (auto simp: rcv_segment_received_def r1_def Let_def split: if_splits)
    then show ?thesis using oc by simp
  next
    case True
    let ?ra = "rcv_reassembler r" and ?w = "bytes_written (rcv_stream_out r)"
    let ?i = "of_nat k - (if syn (header seg) then 0 else 1) :: u64"
    have os: "on_stream f N c ?ra" using oc by (simp add: on_connection_def)
    have w: "unat ?w \<le> N"
      using on_stream_written [OF os] on_stream_bounds(1) [OF os] by (simp add: rcv_stream_out_def)
    have isn: "rcv_isn r1 = isn"
      using True oc seg by (auto simp: r1_def on_connection_def seg_of_def Let_def wrap_eq_iff seq_abs_def split: if_splits)
    have N3: "N + 3 < 2 ^ 64" using N by simp
    note idx = seg_index [OF seg N3 d w]
    obtain ra' where ra': "push_substring (buffer_str (payload seg)) ?i (fin (header seg)) ?ra = Some ra'"
      "on_stream f N c ra'" "n_bytes_read (ra_output ra') = n_bytes_read (ra_output ?ra)"
      "received ?ra \<subseteq> received ra'"
      "{unat ?i..<unat ?i + length (buffer_str (payload seg))} \<inter> {..<window_end ?ra} \<subseteq> received ra'"
      using on_stream_push [OF os idx(2)] N by auto
    have "rcv_segment_received seg r = Some (r1\<lparr>rcv_reassembler := ra'\<rparr>)"
      using True ra isn idx(1) ra'(1)
      by (simp add: rcv_segment_received_def r1_def [symmetric] Let_def buffer_copy_def)
    moreover have "on_connection f N c isn (r1\<lparr>rcv_reassembler := ra'\<rparr>)"
      using True isn ra'(2) by (simp add: on_connection_def)
    moreover have "seg_bytes k seg \<inter> {..<window_end ?ra} \<subseteq> received ra'"
      using ra'(5) idx(3) by (cases "buffer_str (payload seg) = []") (auto simp: seg_bytes_def Let_def)
    ultimately show ?thesis
      using ra'(3,4) True by (auto simp: r1_def rcv_stream_out_def)
  qed
qed

lemma on_connection_new:
  assumes "unat c < 2 ^ 63"
  shows "on_connection f N c isn (rcv_new c)"
  using on_stream_new [OF assms, of f N]
  by (simp add: on_connection_def rcv_new_def rcv_stream_out_def)
    (simp add: received_def ra_new_def input_ended_def bs_new_def)

lemma rcv_ackno_eq:
  assumes "on_connection f N c isn r" and "N + 2 < 2 ^ 64"
  shows "rcv_ackno r = (if syn_received r
    then Some (wrap (of_nat ((LEAST i. i \<notin> received (rcv_reassembler r)) + 1 +
           of_bool (input_ended (rcv_stream_out r)))) isn)
    else None)"
proof -
  have os: "on_stream f N c (rcv_reassembler r)" using assms(1) by (simp add: on_connection_def)
  note w = on_stream_written [OF os]
  have "bytes_written (rcv_stream_out r) = of_nat (LEAST i. i \<notin> received (rcv_reassembler r))"
    unfolding w(2) [symmetric] w(1) [symmetric] rcv_stream_out_def by (simp only: of_nat_unat ucast_id)
  then show ?thesis using assms(1) by (simp add: rcv_ackno_def on_connection_def add.commute)
qed

lemma rcv_right_edge:
  assumes "on_connection f N c isn r"
  shows "unat (bytes_written (rcv_stream_out r)) + unat (rcv_window_size r) =
    unat (n_bytes_read (rcv_stream_out r)) + unat c"
proof -
  let ?o = "rcv_stream_out r"
  have os: "on_stream f N c (rcv_reassembler r)" using assms by (simp add: on_connection_def)
  then have core: "ra_core (rcv_reassembler r)" and c: "ra_capacity (rcv_reassembler r) = c"
    by (simp_all add: on_stream_def ra_inv_def)
  then have "bs_inv ?o" "bs_cap ?o = unat c" "unat (first_unasmb (rcv_reassembler r)) =
      unat (n_bytes_read ?o) + unat (cur_size ?o)"
    by (simp_all add: ra_core_def rcv_stream_out_def bs_cap_def)
  with bs_invD(3,6) [of ?o] on_stream_written(1) [OF os] show ?thesis
    by (simp add: rcv_window_size_def rcv_stream_out_def)
qed

subsection \<open>Properties\<close>

text \<open>
  C11. One segment of the peer's stream, in any state reached by receiving that stream: nothing
  throws; bytes before the SYN are dropped, and once the SYN is there every byte of the segment
  inside the window is kept and no byte received earlier is forgotten. The acknowledgment number is
  then one past the first missing byte, one more when the stream has ended, in the peer's sequence
  space; acknowledgment plus window, the right edge of what the peer may send, moves only when the
  application reads.
\<close>

theorem receiver_segment_step:
  assumes "on_connection f N c isn r" and "seg_of f N isn k seg" and "N + unat c + 3 < 2 ^ 64"
    and "dist_nat k (unat (bytes_written (rcv_stream_out r)) + 1) < 2 ^ 31"
  shows "\<exists>r'. rcv_segment_received seg r = Some r' \<and> on_connection f N c isn r' \<and>
    received (rcv_reassembler r) \<subseteq> received (rcv_reassembler r') \<and>
    (syn_received r' \<longrightarrow> seg_bytes k seg \<inter> {..<window_end (rcv_reassembler r)} \<subseteq> received (rcv_reassembler r')) \<and>
    rcv_ackno r' = (if syn_received r \<or> syn (header seg)
      then Some (wrap (of_nat ((LEAST i. i \<notin> received (rcv_reassembler r')) + 1 +
             of_bool (input_ended (rcv_stream_out r')))) isn)
      else None) \<and>
    unat (bytes_written (rcv_stream_out r')) + unat (rcv_window_size r') =
      unat (bytes_written (rcv_stream_out r)) + unat (rcv_window_size r)"
proof -
  have d: "dist_nat k (unat (bytes_written (rcv_stream_out r)) + 1) < 2147483648" using assms(4) by simp
  obtain r' where r': "rcv_segment_received seg r = Some r'" "on_connection f N c isn r'"
    "n_bytes_read (rcv_stream_out r') = n_bytes_read (rcv_stream_out r)"
    "syn_received r' \<longleftrightarrow> syn_received r \<or> syn (header seg)"
    "received (rcv_reassembler r) \<subseteq> received (rcv_reassembler r')"
    "syn_received r' \<longrightarrow> seg_bytes k seg \<inter> {..<window_end (rcv_reassembler r)} \<subseteq> received (rcv_reassembler r')"
    using rcv_segment_on_connection [OF assms(1-3) d] by blast
  have "unat (bytes_written (rcv_stream_out r')) + unat (rcv_window_size r') =
      unat (bytes_written (rcv_stream_out r)) + unat (rcv_window_size r)"
    using rcv_right_edge [OF r'(2)] rcv_right_edge [OF assms(1)] r'(3) by simp
  with r' rcv_ackno_eq [OF r'(2)] assms(3) show ?thesis by auto
qed

theorem receiver_segment_step_witness:
  "\<exists>r'. rcv_segment_received \<lparr>header = tcp_header_default\<lparr>syn := True, seqno := WrappingInt32 7\<rparr>,
       payload = buffer_new [65, 66]\<rparr> (rcv_new 10) = Some r' \<and> {0, 1} \<subseteq> received (rcv_reassembler r')"
proof -
  let ?seg = "\<lparr>header = tcp_header_default\<lparr>syn := True, seqno := WrappingInt32 7\<rparr>, payload = buffer_new [65, 66]\<rparr>"
  let ?f = "\<lambda>i. of_nat (i + 65)"
  have oc: "on_connection ?f 3 10 (WrappingInt32 7) (rcv_new 10)" by (rule on_connection_new) simp
  have seg: "seg_of ?f 3 (WrappingInt32 7) 0 ?seg"
    by (simp add: seg_of_def All_less_Suc2 wrap_def tcp_header_default_def)
  have n: "3 + unat (10 :: u64) + 3 < 2 ^ 64" by simp
  have d: "dist_nat 0 (unat (bytes_written (rcv_stream_out (rcv_new 10))) + 1) < 2 ^ 31"
    by (simp add: dist_nat_def rcv_stream_out_def rcv_new_def ra_new_def bs_new_def bytes_written_def)
  obtain r' where r': "rcv_segment_received ?seg (rcv_new 10) = Some r'"
    "syn_received r' \<longrightarrow> seg_bytes 0 ?seg \<inter> {..<window_end (rcv_reassembler (rcv_new 10))} \<subseteq> received (rcv_reassembler r')"
    "rcv_ackno r' \<noteq> None"
    using receiver_segment_step [OF oc seg n d] by auto
  have "syn_received r'" using r'(3) by (simp add: rcv_ackno_def split: if_splits)
  moreover have "window_end (rcv_reassembler (rcv_new 10)) = 10"
    by (simp add: window_end_def rcv_new_def ra_new_def bs_new_def)
  ultimately have "{0..<2} \<subseteq> received (rcv_reassembler r')" using r'(2) by (auto simp: seg_bytes_def)
  then show ?thesis using r'(1) by (auto simp: subset_iff)
qed

text \<open>
  C37. A segment without SYN whose sequence number is the peer's initial sequence number gets the
  stream index \<open>2 ^ 64 - 1\<close>; if it carries one byte and the FIN flag, the end of the stream computes
  to index 0 and the receiver closes the stream, whatever is still missing from it.
\<close>

theorem receiver_closed_by_stray_fin:
  assumes "on_connection f N c (rcv_isn r) r" and "syn_received r" and "\<not> input_ended (rcv_stream_out r)"
    and "N < 2 ^ 31 - 1" and "N + unat c < 2 ^ 64"
    and "seqno (header seg) = rcv_isn r" and "\<not> syn (header seg)" and "fin (header seg)"
    and "buffer_str (payload seg) = [x]"
  shows "\<exists>r'. rcv_segment_received seg r = Some r' \<and> input_ended (rcv_stream_out r') \<and>
    bytes_written (rcv_stream_out r') = bytes_written (rcv_stream_out r)"
proof -
  let ?ra = "rcv_reassembler r" and ?w = "bytes_written (rcv_stream_out r)"
  have os: "on_stream f N c ?ra" using assms(1) by (simp add: on_connection_def)
  have w: "unat ?w \<le> N"
    using on_stream_written [OF os] on_stream_bounds(1) [OF os] by (simp add: rcv_stream_out_def)
  then have "dist_nat (unat (0 :: u64)) (unat (?w + 1)) < 2147483648"
    using assms(4) by (simp add: dist_nat_def unat_simps)
  from unwrap_wrap [OF this, of "rcv_isn r"] have z: "unwrap (rcv_isn r) (rcv_isn r) (?w + 1) = 0"
    by (simp add: wrap_0)
  let ?fu = "first_unasmb ?ra + ra_capacity ?ra - buffer_size (ra_output ?ra)"
  have core: "ra_core ?ra" using os by (simp add: on_stream_def ra_inv_def)
  have "unat ?fu \<le> N + unat c"
    using first_unacceptable_eq [OF core] on_stream_bounds(2) [OF os] assms(5) by simp
  then have nlt: "\<not> (- 1 :: u64) < ?fu" using word_order.extremum [of ?fu] by (simp add: not_less)
  have "push_substring [x] (- 1) True ?ra =
      Some (check_eof (?ra\<lparr>eof_set := True, last_byte := 0\<rparr>))"
    using assms(3) nlt by (simp add: push_substring_def Let_def rcv_stream_out_def size64_def)
  then have "rcv_segment_received seg r =
      Some (r\<lparr>rcv_reassembler := check_eof (?ra\<lparr>eof_set := True, last_byte := 0\<rparr>)\<rparr>)"
    using assms(2,6-9) z by (simp add: rcv_segment_received_def Let_def buffer_copy_def)
  then show ?thesis
    by (simp add: rcv_stream_out_def input_ended_check_eof)
      (simp add: check_eof_def bytes_written_def end_input_def)
qed

theorem receiver_closed_by_stray_fin_witness:
  "\<exists>r'. rcv_segment_received \<lparr>header = tcp_header_default\<lparr>fin := True\<rparr>, payload = buffer_new [65]\<rparr>
       ((rcv_new 10)\<lparr>syn_received := True\<rparr>) = Some r' \<and> input_ended (rcv_stream_out r')"
proof -
  let ?seg = "\<lparr>header = tcp_header_default\<lparr>fin := True\<rparr>, payload = buffer_new [65]\<rparr>"
  let ?r = "(rcv_new 10)\<lparr>syn_received := True\<rparr>"
  have "on_connection (\<lambda>i. 0) 100 10 (WrappingInt32 0) (rcv_new 10)" by (rule on_connection_new) simp
  then have oc: "on_connection (\<lambda>i. 0) 100 10 (rcv_isn ?r) ?r"
    by (simp add: on_connection_def rcv_new_def)
  have "\<not> input_ended (rcv_stream_out ?r)"
    by (simp add: rcv_new_def rcv_stream_out_def ra_new_def bs_new_def input_ended_def)
  from receiver_closed_by_stray_fin [OF oc _ this, of ?seg 65] show ?thesis
    by (auto simp: rcv_new_def tcp_header_default_def)
qed
end
