(* ===== verification/TCP_Config.thy ===== *)
theory TCP_Config
  imports Wrapping_Integers
begin

text \<open>
  The constants and the configuration record of \<open>libsponge/tcp_helpers/tcp_config.hh\<close>.
\<close>

definition DEFAULT_CAPACITY :: u64 where
  "DEFAULT_CAPACITY = 64000"

definition MAX_PAYLOAD_SIZE :: u64 where
  "MAX_PAYLOAD_SIZE = 1000"

definition TIMEOUT_DFLT :: u16 where
  "TIMEOUT_DFLT = 1000"

definition MAX_RETX_ATTEMPTS :: u32 where
  "MAX_RETX_ATTEMPTS = 8"

record tcp_config =
  rt_timeout :: u16
  recv_capacity :: u64
  send_capacity :: u64
  fixed_isn :: "WrappingInt32 option"

definition tcp_config_default :: tcp_config where
  "tcp_config_default = \<lparr>rt_timeout = TIMEOUT_DFLT, recv_capacity = DEFAULT_CAPACITY,
     send_capacity = DEFAULT_CAPACITY, fixed_isn = None\<rparr>"

text \<open>Streams with a capacity between 1 and \<open>2 ^ 63 - 1\<close>.\<close>

definition config_ok :: "tcp_config \<Rightarrow> bool" where
  "config_ok config \<longleftrightarrow> 0 < unat (recv_capacity config) \<and> unat (recv_capacity config) < 2 ^ 63 \<and>
     0 < unat (send_capacity config) \<and> unat (send_capacity config) < 2 ^ 63"

lemma config_ok_default [simp]: "config_ok tcp_config_default"
  by (simp add: config_ok_def tcp_config_default_def DEFAULT_CAPACITY_def)

end
