(* ===== verification/TCP_Sender.thy ===== *)
theory TCP_Sender
  imports Byte_Stream TCP_Segment TCP_Config
begin

text \<open>
  The TCP sender, \<open>libsponge/tcp_sender.hh\<close> and \<open>tcp_sender.cc\<close>: it cuts the outgoing byte stream
  into segments that fit the peer's window, keeps the segments that are not acknowledged, and
  retransmits the oldest of them when its timer expires. The loop of \<open>fill_window\<close> is a partial
  function, \<^const>\<open>None\<close> standing for a trap of the byte stream or for a loop that does not end;
  it is shown to return. The flag \<open>debug\<close>, which is constantly false and guards output to the
  console, is left out. The initial sequence number, drawn from \<open>random_device\<close> when none is
  configured, is an argument of the constructor.
\<close>

record timer =
  time_elapsed :: u64
  timeout :: u64

definition timer_expired :: "timer \<Rightarrow> bool" where
  "timer_expired t \<longleftrightarrow> time_elapsed t \<ge> timeout t"

definition timer_start :: "u64 \<Rightarrow> timer \<Rightarrow> timer" where
  "timer_start new_timeout t = t\<lparr>time_elapsed := 0, timeout := new_timeout\<rparr>"

record ordered_segment =
  os_seqno :: u64
  os_segment :: tcp_segment

record tcp_sender =
  snd_isn :: WrappingInt32
  segments_out :: "tcp_segment list"
  initial_rto :: u32
  snd_stream :: byte_stream
  next_seqno :: u64
  abs_ackno :: u64
  snd_window :: u64
  outstanding :: "ordered_segment list"
  snd_timer :: timer
  n_consec_retx :: u64

definition snd_new :: "u64 \<Rightarrow> u16 \<Rightarrow> WrappingInt32 option \<Rightarrow> u32 \<Rightarrow> tcp_sender" where
  "snd_new capacity retx_timeout isn random = \<lparr>
     snd_isn = (case isn of Some i \<Rightarrow> i | None \<Rightarrow> WrappingInt32 random),
     segments_out = [],
     initial_rto = ucast retx_timeout,
     snd_stream = bs_new capacity,
     next_seqno = 0,
     abs_ackno = 0,
     snd_window = 1,
     outstanding = [],
     snd_timer = \<lparr>time_elapsed = 0, timeout = ucast retx_timeout\<rparr>,
     n_consec_retx = 0\<rparr>"

definition bytes_in_flight :: "tcp_sender \<Rightarrow> u64" where
  "bytes_in_flight s = next_seqno s - abs_ackno s"

subsection \<open>Filling the window\<close>

text \<open>One pass through the loop of \<open>fill_window\<close>; the flag says whether the loop goes on.\<close>

definition fill_step :: "tcp_sender \<Rightarrow> (bool \<times> tcp_sender) option" where
  "fill_step s =
     (if bs_eof (snd_stream s) \<and> next_seqno s \<ge> bytes_written (snd_stream s) + 2 then Some (False, s)
      else
        let n_bytes_to_send = (ucast (snd_window s - bytes_in_flight s) :: u16);
            n_bytes_to_send = (if snd_window s = 0 \<and> bytes_in_flight s = 0 then 1 else n_bytes_to_send);
            hdr = tcp_header_default\<lparr>seqno := wrap (next_seqno s) (snd_isn s)\<rparr>;
            first = (next_seqno s = 0 \<and> n_bytes_to_send > 0);
            hdr = (if first then hdr\<lparr>syn := True\<rparr> else hdr);
            n_bytes_to_send = (if first then n_bytes_to_send - 1 else n_bytes_to_send);
            n_bytes_to_send = (if ucast n_bytes_to_send > MAX_PAYLOAD_SIZE then ucast MAX_PAYLOAD_SIZE
                               else n_bytes_to_send)
        in case bs_read (ucast n_bytes_to_send) (snd_stream s) of
             None \<Rightarrow> None
           | Some (data, stream) \<Rightarrow>
               let pl = buffer_new data;
                   n_bytes_to_send = (if ucast n_bytes_to_send = MAX_PAYLOAD_SIZE then 1
                                      else ucast (ucast n_bytes_to_send - buffer_sz pl) :: u16);
                   hdr = (if bs_eof stream \<and> n_bytes_to_send > 0 then hdr\<lparr>fin := True\<rparr> else hdr);
                   seg = \<lparr>header = hdr, payload = pl\<rparr>;
                   s = s\<lparr>snd_stream := stream\<rparr>
               in if length_in_sequence_space seg = 0 then Some (False, s)
                  else
                    let s = s\<lparr>segments_out := segments_out s @ [seg],
                              outstanding := outstanding s @ [\<lparr>os_seqno = next_seqno s, os_segment = seg\<rparr>],
                              next_seqno := next_seqno s + length_in_sequence_space seg\<rparr>
                    in Some (True, if timer_expired (snd_timer s)
                                   then s\<lparr>snd_timer := timer_start (ucast (initial_rto s)) (snd_timer s)\<rparr>
                                   else s))"

partial_function (option) fill_window :: "tcp_sender \<Rightarrow> tcp_sender option" where
  "fill_window s =
     (if next_seqno s \<le> abs_ackno s + snd_window s
      then (case fill_step s of
              None \<Rightarrow> None
            | Some (again, s') \<Rightarrow> if again then fill_window s' else Some s')
      else Some s)"

subsection \<open>Acknowledgments, time, empty segments\<close>

text \<open>The loop of \<open>ack_received\<close>: segments that are acknowledged whole are erased, and every
  erasure restarts the timer.\<close>

fun ack_loop :: "u64 \<Rightarrow> u64 \<Rightarrow> ordered_segment list \<Rightarrow> timer \<Rightarrow> ordered_segment list \<times> timer" where
  "ack_loop the_ackno rto [] t = ([], t)"
| "ack_loop the_ackno rto (it # rest) t =
     (if os_seqno it + length_in_sequence_space (os_segment it) \<le> the_ackno
      then ack_loop the_ackno rto rest (timer_start rto t)
      else (it # rest, t))"

definition ack_received :: "WrappingInt32 \<Rightarrow> u16 \<Rightarrow> tcp_sender \<Rightarrow> tcp_sender option" where
  "ack_received the_ackno window s =
     (let s = s\<lparr>snd_window := ucast window\<rparr>;
          new_abs_ackno = unwrap the_ackno (snd_isn s) (abs_ackno s)
      in if new_abs_ackno \<le> abs_ackno s \<or> new_abs_ackno > next_seqno s then Some s
         else
           let s = s\<lparr>abs_ackno := new_abs_ackno\<rparr>;
               (rest, t) = ack_loop (abs_ackno s) (ucast (initial_rto s)) (outstanding s) (snd_timer s)
           in fill_window (s\<lparr>outstanding := rest, snd_timer := t, n_consec_retx := 0\<rparr>))"

definition snd_tick :: "u64 \<Rightarrow> tcp_sender \<Rightarrow> tcp_sender" where
  "snd_tick ms_since_last_tick s =
     (let s = s\<lparr>snd_timer := (snd_timer s)\<lparr>time_elapsed := time_elapsed (snd_timer s) + ms_since_last_tick\<rparr>\<rparr>
      in if timer_expired (snd_timer s)
         then (case outstanding s of
                 [] \<Rightarrow> s
               | first # _ \<Rightarrow>
                   let s = s\<lparr>segments_out := segments_out s @ [os_segment first]\<rparr>;
                       s = (if snd_window s > 0
                            then s\<lparr>n_consec_retx := n_consec_retx s + 1,
                                   snd_timer := (snd_timer s)\<lparr>timeout := timeout (snd_timer s) * 2\<rparr>\<rparr>
                            else s)
                   in s\<lparr>snd_timer := timer_start (timeout (snd_timer s)) (snd_timer s)\<rparr>)
         else s)"

definition consecutive_retransmissions :: "tcp_sender \<Rightarrow> u32" where
  "consecutive_retransmissions s = ucast (n_consec_retx s)"

definition send_empty_segment :: "tcp_sender \<Rightarrow> tcp_sender" where
  "send_empty_segment s =
     (let hdr = tcp_header_default\<lparr>seqno := wrap (next_seqno s) (snd_isn s)\<rparr>
      in s\<lparr>segments_out := segments_out s @ [\<lparr>header = hdr, payload = buffer_empty_new\<rparr>]\<rparr>)"

definition next_seqno_absolute :: "tcp_sender \<Rightarrow> u64" where
  "next_seqno_absolute s = next_seqno s"

definition snd_next_seqno :: "tcp_sender \<Rightarrow> WrappingInt32" where
  "snd_next_seqno s = wrap (next_seqno s) (snd_isn s)"

text \<open>The counters as natural numbers.\<close>

abbreviation nxt :: "tcp_sender \<Rightarrow> nat" where "nxt s \<equiv> unat (next_seqno s)"
abbreviation akd :: "tcp_sender \<Rightarrow> nat" where "akd s \<equiv> unat (abs_ackno s)"
abbreviation wnd :: "tcp_sender \<Rightarrow> nat" where "wnd s \<equiv> unat (snd_window s)"
abbreviation buffered :: "tcp_sender \<Rightarrow> nat" where "buffered s \<equiv> unat (cur_size (snd_stream s))"
abbreviation rdn :: "tcp_sender \<Rightarrow> nat" where "rdn s \<equiv> unat (n_bytes_read (snd_stream s))"
abbreviation wtn :: "tcp_sender \<Rightarrow> nat" where "wtn s \<equiv> unat (n_bytes_written (snd_stream s))"

subsection \<open>Invariant\<close>

text \<open>The outstanding segments are contiguous from \<open>k\<close> up to \<open>q\<close>.\<close>

definition os_end :: "ordered_segment \<Rightarrow> nat" where
  "os_end x = unat (os_seqno x) + unat (length_in_sequence_space (os_segment x))"

fun covers :: "nat \<Rightarrow> ordered_segment list \<Rightarrow> nat \<Rightarrow> bool" where
  "covers k [] q \<longleftrightarrow> k = q"
| "covers k (o1 # os) q \<longleftrightarrow> unat (os_seqno o1) = k \<and> 0 < unat (length_in_sequence_space (os_segment o1)) \<and>
     covers (k + unat (length_in_sequence_space (os_segment o1))) os q"

text \<open>The first outstanding segment is not acknowledged whole.\<close>

fun head_unacked :: "nat \<Rightarrow> ordered_segment list \<Rightarrow> bool" where
  "head_unacked a [] \<longleftrightarrow> True"
| "head_unacked a (o1 # os) \<longleftrightarrow> a < unat (os_seqno o1) + unat (length_in_sequence_space (os_segment o1))"

definition snd_inv :: "tcp_sender \<Rightarrow> bool" where
  "snd_inv s \<longleftrightarrow>
     bs_inv (snd_stream s) \<and> 0 < bs_cap (snd_stream s) \<and>
     wtn s = rdn s + buffered s \<and> wtn s < 2 ^ 63 \<and> wnd s < 2 ^ 16 \<and> akd s \<le> nxt s \<and>
     (nxt s = 0 \<and> rdn s = 0 \<or> nxt s = rdn s + 1 \<or> nxt s = rdn s + 2 \<and> bs_eof (snd_stream s)) \<and>
     (\<exists>k \<le> akd s. covers k (outstanding s) (nxt s)) \<and>
     head_unacked (akd s) (outstanding s)"

lemma snd_inv_frame [simp]:
  "snd_inv (s\<lparr>segments_out := out\<rparr>) = snd_inv s" "snd_inv (s\<lparr>snd_timer := t\<rparr>) = snd_inv s"
  "snd_inv (s\<lparr>n_consec_retx := c\<rparr>) = snd_inv s"
  by (simp_all add: snd_inv_def)

lemma snd_invD:
  assumes "snd_inv s"
  shows "bs_inv (snd_stream s)" "0 < bs_cap (snd_stream s)" "wtn s = rdn s + buffered s" "wtn s < 2 ^ 63"
    "wnd s < 2 ^ 16" "akd s \<le> nxt s"
    "nxt s = 0 \<and> rdn s = 0 \<or> nxt s = rdn s + 1 \<or> nxt s = rdn s + 2 \<and> bs_eof (snd_stream s)"
    "nxt s \<le> wtn s + 2"
  using assms by (auto simp: snd_inv_def)

subsection \<open>One pass of the loop\<close>

text \<open>What one pass sends: the room in the window, the flags, the payload.\<close>

definition room :: "tcp_sender \<Rightarrow> nat" where
  "room s = (if wnd s = 0 \<and> nxt s = akd s then 1 else wnd s - (nxt s - akd s))"

definition next_syn :: "tcp_sender \<Rightarrow> bool" where
  "next_syn s \<longleftrightarrow> nxt s = 0 \<and> 0 < room s"

definition next_max :: "tcp_sender \<Rightarrow> nat" where
  "next_max s = min (room s - of_bool (next_syn s)) 1000"

definition next_data :: "tcp_sender \<Rightarrow> bytes" where
  "next_data s = take (next_max s) (bs_view (snd_stream s))"

definition next_fin :: "tcp_sender \<Rightarrow> bool" where
  "next_fin s \<longleftrightarrow> input_ended (snd_stream s) \<and> length (next_data s) = buffered s \<and>
     (next_max s = 1000 \<or> length (next_data s) < next_max s)"

definition next_segment :: "tcp_sender \<Rightarrow> tcp_segment" where
  "next_segment s =
     \<lparr>header = tcp_header_default\<lparr>seqno := wrap (next_seqno s) (snd_isn s), syn := next_syn s, fin := next_fin s\<rparr>,
      payload = buffer_new (next_data s)\<rparr>"

definition next_len :: "tcp_sender \<Rightarrow> nat" where
  "next_len s = length (next_data s) + of_bool (next_syn s) + of_bool (next_fin s)"

lemma length_next_data: "length (next_data s) = min (next_max s) (buffered s)"
  by (simp add: next_data_def min.commute)

lemma length_next_data_le: "length (next_data s) \<le> 1000"
  by (simp add: length_next_data next_max_def)

lemma unat_length_next_segment: "unat (length_in_sequence_space (next_segment s)) = next_len s"
proof -
  have l: "length (next_data s) \<le> 1000" by (rule length_next_data_le)
  then have u: "unat (size64 (next_data s)) = length (next_data s)" by (simp add: unat_simps)
  with l show ?thesis
    by (cases "next_syn s"; cases "next_fin s")
      (simp_all add: length_in_sequence_space_def next_segment_def next_len_def unat_simps)
qed

lemma bs_read_nothing:
  assumes "bs_inv s" and "0 < bs_cap s" and "take (unat len) (bs_view s) = []"
  shows "bs_read len s = Some ([], s)"
proof -
  have "data_begin s mod max_capacity s = data_begin s" "max_capacity s \<noteq> 0"
    using assms(1,2) by (auto simp: bs_inv_def bs_cap_def word_eq_unat_iff unat_mod word_less_nat_alt)
  then show ?thesis
    using peek_output_view [OF assms(1), of len] assms(3)
    by (simp add: bs_read_def pop_output_def Let_def)
qed

lemma send_room:
  assumes "snd_inv s" and "nxt s \<le> akd s + wnd s"
  shows "unat (if snd_window s = 0 \<and> bytes_in_flight s = 0 then 1
      else ucast (snd_window s - bytes_in_flight s) :: u16) = room s"
proof -
  have fl: "unat (bytes_in_flight s) = nxt s - akd s"
    using assms(1) by (simp add: bytes_in_flight_def snd_inv_def unat_simps)
  then have z: "bytes_in_flight s = 0 \<longleftrightarrow> nxt s = akd s"
    using assms(1) by (auto simp: word_eq_unat_iff snd_inv_def)
  have "unat (snd_window s - bytes_in_flight s) = wnd s - (nxt s - akd s)"
    using fl assms(2) by (simp add: unat_simps)
  moreover have "wnd s - (nxt s - akd s) < 65536" using snd_invD(5) [OF assms(1)] by simp
  ultimately have "unat (ucast (snd_window s - bytes_in_flight s) :: u16) = wnd s - (nxt s - akd s)"
    unfolding unat_ucast_mod by simp
  then show ?thesis using z by (simp add: room_def word_eq_unat_iff)
qed

definition advance :: "tcp_sender \<Rightarrow> byte_stream \<Rightarrow> tcp_sender" where
  "advance s str = s\<lparr>snd_stream := str,
     segments_out := segments_out s @ [next_segment s],
     outstanding := outstanding s @ [\<lparr>os_seqno = next_seqno s, os_segment = next_segment s\<rparr>],
     next_seqno := next_seqno s + length_in_sequence_space (next_segment s),
     snd_timer := (if timer_expired (snd_timer s) then timer_start (ucast (initial_rto s)) (snd_timer s)
                   else snd_timer s)\<rparr>"

definition fin_sent :: "tcp_sender \<Rightarrow> bool" where
  "fin_sent s \<longleftrightarrow> bs_eof (snd_stream s) \<and> wtn s + 2 \<le> nxt s"

lemma fill_step_eq:
  assumes inv: "snd_inv s" and guard: "nxt s \<le> akd s + wnd s"
  shows "\<exists>str. fill_step s = Some (if fin_sent s \<or> next_len s = 0 then (False, s) else (True, advance s str)) \<and>
    bs_read (of_nat (next_max s)) (snd_stream s) = Some (next_data s, str)"
proof -
  note I = snd_invD [OF inv]
  let ?str = "snd_stream s"
  define n1 :: u16 where "n1 = (if snd_window s = 0 \<and> bytes_in_flight s = 0 then 1
      else ucast (snd_window s - bytes_in_flight s))"
  have n1: "unat n1 = room s" unfolding n1_def by (rule send_room [OF inv guard])
  have first: "next_seqno s = 0 \<and> n1 > 0 \<longleftrightarrow> next_syn s"
    by (simp add: next_syn_def n1 word_eq_unat_iff word_less_nat_alt)
  define n2 :: u16 where "n2 = (if next_syn s then n1 - 1 else n1)"
  have n2: "unat n2 = room s - of_bool (next_syn s)"
    using n1 by (simp add: n2_def next_syn_def unat_simps)
  define n3 :: u16 where "n3 = (if ucast n2 > MAX_PAYLOAD_SIZE then ucast MAX_PAYLOAD_SIZE else n2)"
  have n2': "unat (ucast n2 :: u64) = room s - of_bool (next_syn s)"
    using n2 unat_u16_less [of n2] by (simp add: unat_ucast_mod)
  have n3: "unat n3 = next_max s"
    using n2' n2 by (simp add: n3_def next_max_def MAX_PAYLOAD_SIZE_def word_less_nat_alt)
  have n3': "unat (ucast n3 :: u64) = next_max s"
    using n3 unat_u16_less [of n3] by (simp add: unat_ucast_mod)
  then have n3'': "(ucast n3 :: u64) = of_nat (next_max s)" by (metis of_nat_unat ucast_id)
  obtain str where str: "bs_read (ucast n3) ?str = Some (next_data s, str)"
    "cur_size str = cur_size ?str - min (ucast n3) (cur_size ?str)" "done_writing str = done_writing ?str"
    "bs_inv str" "bs_view str = drop (next_max s) (bs_view ?str)"
    using bs_read_view [OF I(1,2), of "ucast n3"] n3' by (auto simp: next_data_def)
  have eof: "bs_eof str \<longleftrightarrow> input_ended ?str \<and> length (next_data s) = buffered s"
    using str(3) arg_cong [OF str(5), of length]
    by (auto simp: bs_eof_def buffer_empty_def input_ended_def length_next_data word_eq_unat_iff min_def)
  have k: "unat (buffer_sz (buffer_new (next_data s))) = length (next_data s)"
    using length_next_data_le [of s] by (simp add: buffer_sz_def unat_simps)
  define n4 :: u16 where "n4 = (if ucast n3 = MAX_PAYLOAD_SIZE then 1
      else ucast (ucast n3 - buffer_sz (buffer_new (next_data s))))"
  have "unat (ucast n3 - buffer_sz (buffer_new (next_data s))) = next_max s - length (next_data s)"
    using k n3' by (simp add: unat_simps length_next_data)
  then have "unat (ucast (ucast n3 - buffer_sz (buffer_new (next_data s))) :: u16) = next_max s - length (next_data s)"
    unfolding unat_ucast_mod by (simp add: next_max_def)
  then have n4: "n4 > 0 \<longleftrightarrow> next_max s = 1000 \<or> length (next_data s) < next_max s"
    using n3' by (simp add: n4_def word_less_nat_alt word_eq_unat_iff MAX_PAYLOAD_SIZE_def)
  have fsent: "bs_eof ?str \<and> next_seqno s \<ge> bytes_written ?str + 2 \<longleftrightarrow> fin_sent s"
    using I(4) by (simp add: fin_sent_def word_le_nat_alt bytes_written_def unat_simps)
  have z: "length_in_sequence_space (next_segment s) = 0 \<longleftrightarrow> next_len s = 0"
    using unat_length_next_segment [of s] by (auto simp: word_eq_unat_iff)
  have same: "str = ?str" if "next_len s = 0"
  proof -
    have "take (unat (ucast n3 :: u64)) (bs_view ?str) = []"
      using that unfolding n3' next_data_def [symmetric] by (simp add: next_len_def)
    from bs_read_nothing [OF I(1,2) this] str(1) show ?thesis by simp
  qed
  have seg: "\<lparr>header = (if bs_eof str \<and> n4 > 0 then (if next_syn s then tcp_header_default\<lparr>seqno := wrap (next_seqno s) (snd_isn s)\<rparr>\<lparr>syn := True\<rparr>
       else tcp_header_default\<lparr>seqno := wrap (next_seqno s) (snd_isn s)\<rparr>)\<lparr>fin := True\<rparr>
       else if next_syn s then tcp_header_default\<lparr>seqno := wrap (next_seqno s) (snd_isn s)\<rparr>\<lparr>syn := True\<rparr>
       else tcp_header_default\<lparr>seqno := wrap (next_seqno s) (snd_isn s)\<rparr>),
      payload = buffer_new (next_data s)\<rparr> = next_segment s"
    unfolding n4 eof by (auto simp: next_segment_def next_fin_def tcp_header_default_def)
  have "fill_step s = Some (if fin_sent s \<or> next_len s = 0 then (False, s) else (True, advance s str))"
    unfolding fill_step_def fsent Let_def n1_def [symmetric] first n2_def [symmetric] n3_def [symmetric] str(1)
      option.case prod.case n4_def [symmetric] seg z
    using same by (simp add: advance_def)
  then show ?thesis using str(1) n3'' by auto
qed

subsection \<open>One pass keeps the invariant\<close>

lemma covers_snoc:
  "covers k (os @ [o1]) q \<longleftrightarrow> covers k os (unat (os_seqno o1)) \<and> 0 < unat (length_in_sequence_space (os_segment o1)) \<and>
     q = unat (os_seqno o1) + unat (length_in_sequence_space (os_segment o1))"
  by (induction os arbitrary: k) auto

text \<open>The window is respected, but for one sequence number when a full-sized last segment also
  takes the FIN.\<close>

lemma next_len_room: "next_len s \<le> room s + of_bool (next_fin s \<and> length (next_data s) = 1000)"
proof -
  have k: "length (next_data s) \<le> next_max s" by (simp add: length_next_data)
  have m: "next_max s \<le> room s - of_bool (next_syn s)" "next_max s \<le> 1000" by (simp_all add: next_max_def)
  have "next_syn s \<Longrightarrow> 0 < room s" by (simp add: next_syn_def)
  moreover have "next_fin s \<Longrightarrow> length (next_data s) = 1000 \<or> length (next_data s) < next_max s"
    using k by (auto simp: next_fin_def)
  ultimately show ?thesis
    using k m by (cases "next_syn s"; cases "next_fin s") (auto simp: next_len_def)
qed

lemma advance_numbers:
  assumes inv: "snd_inv s" and guard: "nxt s \<le> akd s + wnd s" and nf: "\<not> fin_sent s" and len: "next_len s \<noteq> 0"
    and rd: "bs_read (of_nat (next_max s)) (snd_stream s) = Some (next_data s, str)"
  defines "s' \<equiv> advance s str"
  shows "nxt s' = nxt s + next_len s" "rdn s' = rdn s + length (next_data s)"
    "buffered s' = buffered s - length (next_data s)" "wtn s' = wtn s" "akd s' = akd s" "wnd s' = wnd s"
    "bs_inv str" "bs_cap str = bs_cap (snd_stream s)" "done_writing str = done_writing (snd_stream s)"
    "bs_view (snd_stream s) = next_data s @ bs_view str" "stream_error str = stream_error (snd_stream s)"
proof -
  note I = snd_invD [OF inv]
  have m: "unat (of_nat (next_max s) :: u64) = next_max s" by (simp add: unat_of_nat next_max_def)
  have str: "bs_inv str" "bs_view str = drop (next_max s) (bs_view (snd_stream s))"
    "n_bytes_read str = n_bytes_read (snd_stream s) + min (of_nat (next_max s)) (cur_size (snd_stream s))"
    "n_bytes_written str = n_bytes_written (snd_stream s)" "done_writing str = done_writing (snd_stream s)"
    "max_capacity str = max_capacity (snd_stream s)" "stream_error str = stream_error (snd_stream s)"
    using bs_read_view [OF I(1,2), of "of_nat (next_max s)"] rd m by auto
  have k: "unat (min (of_nat (next_max s)) (cur_size (snd_stream s))) = length (next_data s)"
    by (simp add: unat_simps m length_next_data)
  then have "rdn s + unat (min (of_nat (next_max s)) (cur_size (snd_stream s))) < 2 ^ 64"
    using I(3,4) by (simp add: length_next_data)
  then show "rdn s' = rdn s + length (next_data s)"
    using k by (simp add: s'_def advance_def str(3) unat_add_no_wrap)
  show "buffered s' = buffered s - length (next_data s)"
    using arg_cong [OF str(2), of length] by (simp add: s'_def advance_def length_next_data)
  have "next_len s \<le> 1002" using length_next_data_le [of s] by (auto simp: next_len_def)
  then show "nxt s' = nxt s + next_len s"
    using I(4,8) unat_length_next_segment [of s]
    by (simp add: s'_def advance_def unat_add_no_wrap)
  show "wtn s' = wtn s" "akd s' = akd s" "wnd s' = wnd s" "bs_inv str" "bs_cap str = bs_cap (snd_stream s)"
    "done_writing str = done_writing (snd_stream s)" "stream_error str = stream_error (snd_stream s)"
    using str by (simp_all add: s'_def advance_def bs_cap_def)
  show "bs_view (snd_stream s) = next_data s @ bs_view str" by (simp add: str(2) next_data_def)
qed

lemma snd_inv_advance:
  assumes inv: "snd_inv s" and guard: "nxt s \<le> akd s + wnd s" and nf: "\<not> fin_sent s" and len: "next_len s \<noteq> 0"
    and rd: "bs_read (of_nat (next_max s)) (snd_stream s) = Some (next_data s, str)"
  shows "snd_inv (advance s str)"
proof -
  note I = snd_invD [OF inv] and A = advance_numbers [OF assms]
  let ?s = "advance s str" and ?k = "length (next_data s)"
  have str: "snd_stream ?s = str" by (simp add: advance_def)
  have q: "nxt s = 0 \<and> rdn s = 0 \<or> nxt s = rdn s + 1"
    using I(3,7) nf by (auto simp: fin_sent_def bs_eof_def buffer_empty_def word_eq_unat_iff)
  have syn: "next_syn s \<or> 0 < nxt s"
    using len q I(3) by (auto simp: next_len_def next_fin_def length_next_data next_max_def next_syn_def)
  have eof: "next_fin s \<Longrightarrow> bs_eof str"
    using A(3,9) by (simp add: bs_eof_def buffer_empty_def next_fin_def input_ended_def word_eq_unat_iff str)
  have form: "nxt ?s = rdn ?s + 1 \<or> nxt ?s = rdn ?s + 2 \<and> bs_eof str"
    using A(1,2) q syn eof by (auto simp: next_len_def next_syn_def)
  obtain k where k: "k \<le> akd s" "covers k (outstanding s) (nxt s)" using inv by (auto simp: snd_inv_def)
  have cov: "covers k (outstanding ?s) (nxt ?s)"
    using k(2) len A(1) by (simp add: advance_def covers_snoc unat_length_next_segment)
  have head: "head_unacked (akd s) (outstanding ?s)"
  proof (cases "outstanding s")
    case Nil
    with k I(6) len show ?thesis by (simp add: advance_def unat_length_next_segment)
  next
    case (Cons o1 os)
    with inv show ?thesis by (simp add: advance_def snd_inv_def)
  qed
  have "bs_inv (snd_stream ?s)" "0 < bs_cap (snd_stream ?s)" using A(7,8) I(2) by (simp_all add: str)
  moreover have "wtn ?s = rdn ?s + buffered ?s" using A(2-4) I(3) by (simp add: length_next_data)
  moreover have "wtn ?s < 2 ^ 63" "wnd ?s < 2 ^ 16" "akd ?s \<le> nxt ?s" using A(1,4-6) I(4-6) by simp_all
  moreover have "\<exists>k \<le> akd ?s. covers k (outstanding ?s) (nxt ?s)" using k(1) cov A(5) by auto
  moreover have "nxt ?s = rdn ?s + 1 \<or> nxt ?s = rdn ?s + 2 \<and> bs_eof (snd_stream ?s)" using form by (simp only: str)
  moreover have "head_unacked (akd ?s) (outstanding ?s)" using head by (simp only: A(5))
  ultimately show ?thesis unfolding snd_inv_def by blast
qed

subsection \<open>The loop\<close>

definition settled :: "tcp_sender \<Rightarrow> bool" where
  "settled s \<longleftrightarrow> akd s + max (wnd s) 1 \<le> nxt s \<or>
     0 < nxt s \<and> buffered s = 0 \<and> (input_ended (snd_stream s) \<longrightarrow> fin_sent s)"

lemma settled_stop:
  assumes inv: "snd_inv s" and guard: "nxt s \<le> akd s + wnd s" and stop: "fin_sent s \<or> next_len s = 0"
  shows "settled s"
proof (cases "fin_sent s")
  case True
  then show ?thesis by (simp add: settled_def fin_sent_def bs_eof_def buffer_empty_def)
next
  case False
  with stop have z: "length (next_data s) = 0" "\<not> next_syn s" "\<not> next_fin s" by (auto simp: next_len_def)
  show ?thesis
  proof (cases "room s = 0")
    case True
    then show ?thesis
      using guard snd_invD(6) [OF inv] by (auto simp: settled_def room_def split: if_splits)
  next
    case rm: False
    then have "0 < nxt s" "next_max s \<noteq> 0" using z(2) by (auto simp: next_syn_def next_max_def)
    moreover from this have "buffered s = 0" using z(1) by (simp add: length_next_data min_def split: if_splits)
    moreover from calculation have "\<not> input_ended (snd_stream s)" using z by (auto simp: next_fin_def)
    ultimately show ?thesis by (simp add: settled_def)
  qed
qed

lemma guard_nat:
  assumes "snd_inv s"
  shows "next_seqno s \<le> abs_ackno s + snd_window s \<longleftrightarrow> nxt s \<le> akd s + wnd s"
proof -
  have "akd s + wnd s < 2 ^ 64" using snd_invD(4-6,8) [OF assms] by simp
  then show ?thesis by (simp add: word_le_nat_alt unat_add_no_wrap)
qed

text \<open>\<open>fill_window\<close> returns, and what every pass keeps holds in the end.\<close>

lemma fill_window_rule:
  assumes "snd_inv s" and "P s"
    and step: "\<And>s str. snd_inv s \<Longrightarrow> P s \<Longrightarrow> nxt s \<le> akd s + wnd s \<Longrightarrow> \<not> fin_sent s \<Longrightarrow> next_len s \<noteq> 0 \<Longrightarrow>
      bs_read (of_nat (next_max s)) (snd_stream s) = Some (next_data s, str) \<Longrightarrow> P (advance s str)"
  shows "\<exists>s'. fill_window s = Some s' \<and> snd_inv s' \<and> P s' \<and> settled s'"
  using assms(1,2)
proof (induction "akd s + wnd s + 1 - nxt s" arbitrary: s rule: less_induct)
  case less
  note inv = less.prems(1)
  show ?case
  proof (cases "nxt s \<le> akd s + wnd s")
    case False
    then have "fill_window s = Some s" using guard_nat [OF inv] by (subst fill_window.simps) simp
    moreover have "settled s" using False by (auto simp: settled_def max_def)
    ultimately show ?thesis using less.prems by blast
  next
    case True
    obtain str where st: "fill_step s = Some (if fin_sent s \<or> next_len s = 0 then (False, s) else (True, advance s str))"
      and rd: "bs_read (of_nat (next_max s)) (snd_stream s) = Some (next_data s, str)"
      using fill_step_eq [OF inv True] by blast
    have fw: "fill_window s = (if fin_sent s \<or> next_len s = 0 then Some s else fill_window (advance s str))"
      using guard_nat [OF inv] True st by (subst fill_window.simps) simp
    show ?thesis
    proof (cases "fin_sent s \<or> next_len s = 0")
      case stop: True
      with fw settled_stop [OF inv True stop] less.prems show ?thesis by simp
    next
      case go: False
      then have nf: "\<not> fin_sent s" and len: "next_len s \<noteq> 0" by simp_all
      note A = advance_numbers [OF inv True nf len rd]
      have "akd (advance s str) + wnd (advance s str) + 1 - nxt (advance s str) < akd s + wnd s + 1 - nxt s"
        using A(1,5,6) True len by simp
      from less.hyps [OF this snd_inv_advance [OF inv True nf len rd] step [OF inv less.prems(2) True nf len rd]]
      show ?thesis using fw go by simp
    qed
  qed
qed

text \<open>What \<open>fill_window\<close> may change.\<close>

definition fill_rel :: "tcp_sender \<Rightarrow> tcp_sender \<Rightarrow> bool" where
  "fill_rel s s' \<longleftrightarrow>
     (\<exists>new. segments_out s' = segments_out s @ map os_segment new \<and> outstanding s' = outstanding s @ new \<and>
        covers (nxt s) new (nxt s') \<and>
        concat (map (\<lambda>x. buffer_str (payload (os_segment x))) new) @ bs_view (snd_stream s') = bs_view (snd_stream s) \<and>
        (\<forall>x \<in> set new. length (buffer_str (payload (os_segment x))) \<le> unat MAX_PAYLOAD_SIZE) \<and>
        snd_timer s' = (if new \<noteq> [] \<and> timer_expired (snd_timer s) then timer_start (ucast (initial_rto s)) (snd_timer s)
                        else snd_timer s)) \<and>
     abs_ackno s' = abs_ackno s \<and> snd_window s' = snd_window s \<and> snd_isn s' = snd_isn s \<and>
     initial_rto s' = initial_rto s \<and> n_consec_retx s' = n_consec_retx s \<and>
     done_writing (snd_stream s') = done_writing (snd_stream s) \<and> wtn s' = wtn s \<and>
     bs_cap (snd_stream s') = bs_cap (snd_stream s)"

lemma fill_rel_refl: "fill_rel s s"
  unfolding fill_rel_def by (intro conjI exI [of _ "[]"]) simp_all

lemma fill_rel_advance:
  assumes inv: "snd_inv s" and fr: "fill_rel s0 s" and guard: "nxt s \<le> akd s + wnd s" and nf: "\<not> fin_sent s"
    and len: "next_len s \<noteq> 0"
    and rd: "bs_read (of_nat (next_max s)) (snd_stream s) = Some (next_data s, str)"
  shows "fill_rel s0 (advance s str)"
proof -
  note A = advance_numbers [OF inv guard nf len rd]
  let ?o = "\<lparr>os_seqno = next_seqno s, os_segment = next_segment s\<rparr>" and ?s = "advance s str"
  have pl: "buffer_str (payload (next_segment s)) = next_data s" by (simp add: next_segment_def)
  obtain new where new: "segments_out s = segments_out s0 @ map os_segment new" "outstanding s = outstanding s0 @ new"
    "covers (nxt s0) new (nxt s)"
    "concat (map (\<lambda>x. buffer_str (payload (os_segment x))) new) @ bs_view (snd_stream s) = bs_view (snd_stream s0)"
    "\<forall>x \<in> set new. length (buffer_str (payload (os_segment x))) \<le> unat MAX_PAYLOAD_SIZE"
    "snd_timer s = (if new \<noteq> [] \<and> timer_expired (snd_timer s0) then timer_start (ucast (initial_rto s0)) (snd_timer s0)
       else snd_timer s0)"
    using fr unfolding fill_rel_def by blast
  have "segments_out ?s = segments_out s0 @ map os_segment (new @ [?o])" "outstanding ?s = outstanding s0 @ new @ [?o]"
    using new(1,2) by (simp_all add: advance_def)
  moreover have "covers (nxt s0) (new @ [?o]) (nxt ?s)"
    using new(3) len A(1) by (simp add: covers_snoc unat_length_next_segment)
  moreover have "concat (map (\<lambda>x. buffer_str (payload (os_segment x))) (new @ [?o])) @ bs_view (snd_stream ?s) =
      bs_view (snd_stream s0)"
    using new(4) A(10) pl by (simp add: advance_def)
  moreover have "\<forall>x \<in> set (new @ [?o]). length (buffer_str (payload (os_segment x))) \<le> unat MAX_PAYLOAD_SIZE"
    using new(5) length_next_data_le [of s] by (simp add: pl MAX_PAYLOAD_SIZE_def)
  moreover have "snd_timer ?s = (if new @ [?o] \<noteq> [] \<and> timer_expired (snd_timer s0)
      then timer_start (ucast (initial_rto s0)) (snd_timer s0) else snd_timer s0)"
    using new(6) fr by (simp add: advance_def fill_rel_def timer_start_def)
  moreover have "wtn ?s = wtn s0" using A(4) fr by (simp add: fill_rel_def)
  moreover have "snd_stream ?s = str" "abs_ackno ?s = abs_ackno s" "snd_window ?s = snd_window s" "snd_isn ?s = snd_isn s"
    "initial_rto ?s = initial_rto s" "n_consec_retx ?s = n_consec_retx s"
    by (simp_all add: advance_def)
  ultimately show ?thesis
    using fr A(8,9) unfolding fill_rel_def by (intro conjI exI [of _ "new @ [?o]"]) simp_all
qed

lemma fill_window_ok:
  assumes "snd_inv s"
  obtains s' where "fill_window s = Some s'" "snd_inv s'" "settled s'" "fill_rel s s'"
    "nxt s' \<le> max (nxt s) (akd s + max (wnd s) 1 + 1)"
proof -
  let ?P = "\<lambda>t. fill_rel s t \<and> nxt t \<le> max (nxt s) (akd s + max (wnd s) 1 + 1)"
  have "\<exists>s'. fill_window s = Some s' \<and> snd_inv s' \<and> ?P s' \<and> settled s'"
  proof (rule fill_window_rule [OF assms])
    show "?P s" by (simp add: fill_rel_refl)
  next
    fix t str
    assume t: "snd_inv t" and p: "?P t" and g: "nxt t \<le> akd t + wnd t" and nf: "\<not> fin_sent t" and len: "next_len t \<noteq> 0"
      and rd: "bs_read (of_nat (next_max t)) (snd_stream t) = Some (next_data t, str)"
    have w: "akd t = akd s" "wnd t = wnd s" using p by (simp_all add: fill_rel_def)
    have "next_len t \<le> room t + 1" using next_len_room [of t] by (simp add: of_bool_def split: if_splits)
    then have "nxt t + next_len t \<le> akd s + max (wnd s) 1 + 1"
      using g w snd_invD(6) [OF t] by (auto simp: room_def split: if_splits)
    then show "?P (advance t str)"
      using fill_rel_advance [OF t _ g nf len rd] p advance_numbers(1) [OF t g nf len rd] by simp
  qed
  with that show ?thesis by blast
qed

subsection \<open>Acknowledgments\<close>

lemma covers_le: "covers k os q \<Longrightarrow> k \<le> q"
  by (induction os arbitrary: k) force+

lemma ack_loop_covers:
  assumes "covers k os q" and "k \<le> unat a" and "unat a \<le> q" and "q < 2 ^ 64" and "ack_loop a rto os t = (rest, t')"
  shows "(\<exists>k \<le> unat a. covers k rest q) \<and> set rest \<subseteq> set os \<and>
    head_unacked (unat a) rest"
  using assms
proof (induction os arbitrary: k t)
  case Nil
  then show ?case by auto
next
  case (Cons o1 os)
  let ?e = "k + unat (length_in_sequence_space (os_segment o1))"
  have e: "?e \<le> q" using Cons.prems(1) covers_le [of ?e os q] by simp
  then have u: "unat (os_seqno o1 + length_in_sequence_space (os_segment o1)) = ?e"
    using Cons.prems(1,4) by (simp add: unat_add_no_wrap)
  show ?case
  proof (cases "?e \<le> unat a")
    case True
    then have "ack_loop a rto os (timer_start rto t) = (rest, t')"
      using Cons.prems(5) u by (simp add: word_le_nat_alt)
    with Cons.IH [of ?e "timer_start rto t"] Cons.prems True show ?thesis by auto
  next
    case False
    then have "rest = o1 # os" using Cons.prems(5) u by (simp add: word_le_nat_alt)
    with Cons.prems False show ?thesis by auto
  qed
qed

lemma covers_empty: "covers k os k \<Longrightarrow> os = []"
  using covers_le by (cases os) fastforce+

lemma covers_acked: "covers k os q \<Longrightarrow> x \<in> set os \<Longrightarrow> k \<le> unat (os_seqno x)"
  by (induction os arbitrary: k) fastforce+

text \<open>The loop erases exactly the segments that are acknowledged whole, and restarts the timer if there is one.\<close>

lemma ack_loop_exact:
  assumes "covers k os q" and "q < 2 ^ 64"
  shows "ack_loop a rto os t = (filter (\<lambda>x. unat a < os_end x) os,
    if \<exists>x \<in> set os. os_end x \<le> unat a then timer_start rto t else t)"
  using assms
proof (induction os arbitrary: k t)
  case Nil
  then show ?case by simp
next
  case (Cons o1 os)
  let ?e = "k + unat (length_in_sequence_space (os_segment o1))"
  have e: "os_end o1 = ?e" "?e \<le> q" using Cons.prems(1) covers_le [of ?e os q] by (simp_all add: os_end_def)
  then have u: "unat (os_seqno o1 + length_in_sequence_space (os_segment o1)) = ?e"
    using Cons.prems by (simp add: unat_add_no_wrap)
  show ?case
  proof (cases "?e \<le> unat a")
    case True
    then show ?thesis using Cons.IH [of ?e "timer_start rto t"] Cons.prems e u by (simp add: word_le_nat_alt timer_start_def)
  next
    case False
    have "?e \<le> os_end x" if "x \<in> set os" for x
      using covers_acked [of ?e os q x] Cons.prems(1) that by (simp add: os_end_def)
    then have u1: "\<forall>x \<in> set (o1 # os). unat a < os_end x" using False e by fastforce
    then have "\<not> (\<exists>x \<in> set (o1 # os). os_end x \<le> unat a)" by (simp only: not_le [symmetric]) blast
    moreover have "filter (\<lambda>x. unat a < os_end x) (o1 # os) = o1 # os" using u1 by (rule filter_True)
    ultimately show ?thesis using False u by (simp only: word_le_nat_alt ack_loop.simps if_False)
  qed
qed

lemma ack_received_cases:
  fixes the_ackno :: WrappingInt32 and w :: u16 and s :: tcp_sender
  assumes inv: "snd_inv s"
  defines "new \<equiv> unwrap the_ackno (snd_isn s) (abs_ackno s)"
  obtains (ignored) "ack_received the_ackno w s = Some (s\<lparr>snd_window := ucast w\<rparr>)" "unat new \<le> akd s \<or> nxt s < unat new"
  | (accepted) s1 where "akd s < unat new" "unat new \<le> nxt s"
    "snd_inv s1" "s1 = s\<lparr>snd_window := ucast w, abs_ackno := new, outstanding := outstanding s1,
       snd_timer := snd_timer s1, n_consec_retx := 0\<rparr>" "set (outstanding s1) \<subseteq> set (outstanding s)"
    "ack_received the_ackno w s = fill_window s1"
    "outstanding s1 = filter (\<lambda>x. unat new < os_end x) (outstanding s)"
    "snd_timer s1 = (if \<exists>x \<in> set (outstanding s). os_end x \<le> unat new
       then timer_start (ucast (initial_rto s)) (snd_timer s) else snd_timer s)"
proof (cases "unat new \<le> akd s \<or> nxt s < unat new")
  case True
  then show ?thesis
    by (intro ignored) (simp_all add: ack_received_def Let_def new_def word_le_nat_alt word_less_nat_alt)
next
  case False
  obtain rest t where al: "ack_loop new (ucast (initial_rto s)) (outstanding s) (snd_timer s) = (rest, t)"
    by fastforce
  let ?s1 = "s\<lparr>snd_window := ucast w, abs_ackno := new, outstanding := rest, snd_timer := t, n_consec_retx := 0\<rparr>"
  obtain k where k: "k \<le> akd s" "covers k (outstanding s) (nxt s)" using inv by (auto simp: snd_inv_def)
  have r: "\<exists>k \<le> unat new. covers k rest (nxt s)" "set rest \<subseteq> set (outstanding s)" "head_unacked (unat new) rest"
    using ack_loop_covers [OF k(2) _ _ _ al] k(1) False unat_u64_less [of "next_seqno s"] by auto
  have w: "unat (ucast w :: u64) < 2 ^ 16" using unat_u16_less [of w] by (simp add: unat_ucast_mod)
  have inv1: "snd_inv ?s1"
    using inv r(1,3) w False unfolding snd_inv_def by auto
  have fw: "ack_received the_ackno w s = fill_window ?s1"
    using False al by (simp add: ack_received_def Let_def new_def [symmetric] word_le_nat_alt word_less_nat_alt)
  have "rest = filter (\<lambda>x. unat new < os_end x) (outstanding s)"
    "t = (if \<exists>x \<in> set (outstanding s). os_end x \<le> unat new
       then timer_start (ucast (initial_rto s)) (snd_timer s) else snd_timer s)"
    using al ack_loop_exact [OF k(2) unat_u64_less] by simp_all
  then show ?thesis using accepted [of ?s1] False inv1 r(2) fw by simp
qed

lemma fin_sent_advance:
  assumes "snd_inv s" and "nxt s \<le> akd s + wnd s" and nf: "\<not> fin_sent s" and "next_len s \<noteq> 0"
    and "bs_read (of_nat (next_max s)) (snd_stream s) = Some (next_data s, str)" and fin: "next_fin s"
  shows "fin_sent (advance s str)"
proof -
  note A = advance_numbers [OF assms(1-5)] and I = snd_invD [OF assms(1)]
  have k: "length (next_data s) = buffered s" using fin by (simp add: next_fin_def)
  have "next_syn s" if "nxt s = 0"
    using that fin by (auto simp: next_fin_def next_syn_def next_max_def split: if_splits)
  moreover have "nxt s = 0 \<and> rdn s = 0 \<or> nxt s = rdn s + 1"
    using I(3,7) nf by (auto simp: fin_sent_def bs_eof_def buffer_empty_def word_eq_unat_iff)
  ultimately have "nxt (advance s str) = wtn s + 2"
    unfolding A(1) using fin k I(3) by (auto simp: next_len_def next_syn_def)
  moreover have "bs_eof (snd_stream (advance s str))"
    using A(3,9) fin k
    by (simp add: bs_eof_def buffer_empty_def next_fin_def input_ended_def word_eq_unat_iff advance_def)
  ultimately show ?thesis unfolding fin_sent_def A(4) by simp
qed

subsection \<open>Sending a given stream\<close>

text \<open>
  \<open>on_send f N s\<close>: the bytes written to the sender are a prefix of the stream \<open>f\<close> of \<open>N\<close> bytes,
  all of it when the stream is closed, and every segment in the sender's queues is a segment of it.
\<close>

definition on_send :: "(nat \<Rightarrow> byte) \<Rightarrow> nat \<Rightarrow> tcp_sender \<Rightarrow> bool" where
  "on_send f N s \<longleftrightarrow>
     snd_inv s \<and> bs_view (snd_stream s) = map f [rdn s..<wtn s] \<and> wtn s \<le> N \<and>
     (input_ended (snd_stream s) \<longrightarrow> wtn s = N) \<and>
     (\<forall>x \<in> set (outstanding s). seg_of f N (snd_isn s) (unat (os_seqno x)) (os_segment x)) \<and>
     (\<forall>seg \<in> set (segments_out s). \<exists>k. seg_of f N (snd_isn s) k seg)"

lemma next_segment_of:
  assumes os: "on_send f N s" and guard: "nxt s \<le> akd s + wnd s" and nf: "\<not> fin_sent s"
  shows "seg_of f N (snd_isn s) (nxt s) (next_segment s)"
proof -
  note I = snd_invD [of s]
  have inv: "snd_inv s" using os by (simp add: on_send_def)
  have q: "nxt s = 0 \<and> rdn s = 0 \<or> nxt s = rdn s + 1"
    using I(3,7) [OF inv] nf by (auto simp: fin_sent_def bs_eof_def buffer_empty_def word_eq_unat_iff)
  let ?i = "if next_syn s then 0 else nxt s - 1"
  have nz: "next_data s = [] \<and> \<not> next_fin s" if "nxt s = 0" "\<not> next_syn s"
    using that by (auto simp: next_syn_def next_data_def next_max_def next_fin_def)
  have i: "next_syn s \<or> nxt s \<noteq> 0 \<Longrightarrow> ?i = rdn s" using q by (auto simp: next_syn_def)
  have k: "length (next_data s) \<le> wtn s - rdn s" using I(3) [OF inv] by (simp add: length_next_data)
  have data: "next_data s ! j = f (rdn s + j)" if "j < length (next_data s)" for j
  proof -
    have "rdn s + j < wtn s" using that k by simp
    moreover have "j < next_max s" using that by (simp add: length_next_data)
    ultimately show ?thesis using os by (simp add: next_data_def on_send_def)
  qed
  have fin: "next_fin s \<Longrightarrow> rdn s + length (next_data s) = N"
    using os I(3) [OF inv] by (auto simp: next_fin_def on_send_def)
  have bnd: "wtn s \<le> N" "rdn s \<le> wtn s" using os I(3) [OF inv] by (simp_all add: on_send_def)
  have h: "syn (header (next_segment s)) = next_syn s" "fin (header (next_segment s)) = next_fin s"
    "seqno (header (next_segment s)) = wrap (of_nat (nxt s)) (snd_isn s)"
    "buffer_str (payload (next_segment s)) = next_data s"
    by (simp_all add: next_segment_def)
  show ?thesis
  proof (cases "next_syn s \<or> nxt s \<noteq> 0")
    case True
    with i have "?i = rdn s" by blast
    moreover have "nxt s \<le> N + 2" using q bnd by auto
    ultimately show ?thesis
      using data fin k bnd True unfolding seg_of_def h Let_def by (auto simp: next_syn_def)
  next
    case False
    with nz show ?thesis unfolding seg_of_def h Let_def by simp
  qed
qed

lemma on_send_advance:
  assumes os: "on_send f N s" and guard: "nxt s \<le> akd s + wnd s" and nf: "\<not> fin_sent s" and len: "next_len s \<noteq> 0"
    and rd: "bs_read (of_nat (next_max s)) (snd_stream s) = Some (next_data s, str)"
  shows "on_send f N (advance s str)"
proof -
  have inv: "snd_inv s" using os by (simp add: on_send_def)
  note A = advance_numbers [OF inv guard nf len rd] and seg = next_segment_of [OF os guard nf]
  have str: "snd_stream (advance s str) = str" by (simp add: advance_def)
  have "length (next_data s) \<le> wtn s - rdn s" using snd_invD(3) [OF inv] by (simp add: length_next_data)
  moreover have "bs_view str = drop (length (next_data s)) (map f [rdn s..<wtn s])"
    using A(10) os unfolding on_send_def by (metis append_eq_conv_conj)
  ultimately have "bs_view str = map f [rdn s + length (next_data s)..<wtn s]" by (simp add: drop_map)
  then have "bs_view (snd_stream (advance s str)) = map f [rdn (advance s str)..<wtn (advance s str)]"
    unfolding A(2,4) by (simp only: str)
  moreover have "input_ended (snd_stream (advance s str)) = input_ended (snd_stream s)"
    using A(9) by (simp add: str input_ended_def)
  moreover have "outstanding (advance s str) = outstanding s @ [\<lparr>os_seqno = next_seqno s, os_segment = next_segment s\<rparr>]"
    "segments_out (advance s str) = segments_out s @ [next_segment s]" "snd_isn (advance s str) = snd_isn s"
    by (simp_all add: advance_def)
  ultimately show ?thesis
    using os A(4) seg snd_inv_advance [OF inv guard nf len rd] unfolding on_send_def by auto
qed

lemma on_send_fill_window:
  assumes "on_send f N s"
  shows "\<exists>s'. fill_window s = Some s' \<and> on_send f N s'"
proof -
  have "snd_inv s" using assms by (simp add: on_send_def)
  from fill_window_rule [OF this, of "on_send f N", OF assms] show ?thesis
    using on_send_advance by blast
qed

lemma on_send_ack_received:
  assumes os: "on_send f N s"
  shows "\<exists>s'. ack_received a w s = Some s' \<and> on_send f N s'"
proof -
  have inv: "snd_inv s" using os by (simp add: on_send_def)
  have w: "unat (ucast w :: u64) < 2 ^ 16" using unat_u16_less [of w] by (simp add: unat_ucast_mod)
  show ?thesis
  proof (cases rule: ack_received_cases [OF inv, of a w, case_names ignored accepted])
    case ignored
    have "snd_inv (s\<lparr>snd_window := ucast w\<rparr>)"
      using inv w unfolding snd_inv_def by simp
    then show ?thesis using ignored(1) os by (simp add: on_send_def)
  next
    case (accepted s1)
    have st: "snd_stream s1 = snd_stream s" "snd_isn s1 = snd_isn s" "segments_out s1 = segments_out s"
      by (subst accepted(4), simp)+
    have "on_send f N s1"
      using os accepted(3,5) unfolding on_send_def st by auto
    from on_send_fill_window [OF this] accepted(6) show ?thesis by simp
  qed
qed

lemma on_send_frame [simp]:
  "on_send f N (s\<lparr>snd_timer := t\<rparr>) = on_send f N s" "on_send f N (s\<lparr>n_consec_retx := c\<rparr>) = on_send f N s"
  "on_send f N (s\<lparr>snd_timer := t, segments_out := out\<rparr>) = on_send f N (s\<lparr>segments_out := out\<rparr>)"
  by (simp_all add: on_send_def)

lemma on_send_queue:
  assumes "on_send f N s" and "seg_of f N (snd_isn s) k seg"
  shows "on_send f N (s\<lparr>segments_out := segments_out s @ [seg]\<rparr>)"
  using assms by (auto simp: on_send_def)

lemma on_send_tick:
  assumes "on_send f N s"
  shows "on_send f N (snd_tick ms s)"
proof (cases "outstanding s")
  case Nil
  with assms show ?thesis by (simp add: snd_tick_def Let_def)
next
  case (Cons o1 os)
  then have "seg_of f N (snd_isn s) (unat (os_seqno o1)) (os_segment o1)"
    using assms by (simp add: on_send_def)
  from on_send_queue [OF assms this] Cons assms show ?thesis
    by (simp add: snd_tick_def Let_def)
qed

lemma on_send_empty_segment:
  assumes "on_send f N s"
  shows "on_send f N (send_empty_segment s)"
proof -
  have "snd_inv (send_empty_segment s)"
    using assms by (simp add: send_empty_segment_def Let_def on_send_def)
  moreover have "nxt s \<le> N + 2"
    using assms snd_invD(8) [of s] by (auto simp: on_send_def)
  then have "seg_of f N (snd_isn s) (nxt s)
      \<lparr>header = tcp_header_default\<lparr>seqno := wrap (next_seqno s) (snd_isn s)\<rparr>, payload = buffer_empty_new\<rparr>"
    by (simp add: seg_of_def tcp_header_default_def)
  ultimately show ?thesis
    using assms unfolding on_send_def by (auto simp: send_empty_segment_def Let_def)
qed

lemma snd_inv_write:
  fixes s :: tcp_sender and data :: bytes
  assumes inv: "snd_inv s" and op: "\<not> input_ended (snd_stream s)" and len: "wtn s + length data < 2 ^ 63"
  defines "n \<equiv> min (length data) (bs_cap (snd_stream s) - buffered s)"
  defines "str \<equiv> snd (bs_write data (snd_stream s))"
  shows "snd_inv (s\<lparr>snd_stream := str\<rparr>)" "unat (n_bytes_written str) = wtn s + n"
    "bs_view str = bs_view (snd_stream s) @ take n data" "unat (fst (bs_write data (snd_stream s))) = n"
proof -
  note I = snd_invD [OF inv]
  have l: "length data < 2 ^ 64" using len by simp
  show cnt: "unat (fst (bs_write data (snd_stream s))) = n" using bs_write_count [OF I(1) l] by (simp add: n_def)
  show wr: "unat (n_bytes_written str) = wtn s + n"
    using cnt len by (simp add: n_def str_def unat_add_no_wrap)
  show view: "bs_view str = bs_view (snd_stream s) @ take n data"
    using bs_view_write [OF I(1) l] by (simp add: n_def str_def min_def)
  have cur: "unat (cur_size str) = buffered s + n"
    using arg_cong [OF view, of length] by (simp add: n_def)
  have "\<not> bs_eof (snd_stream s)" using op by (simp add: bs_eof_def input_ended_def)
  then show "snd_inv (s\<lparr>snd_stream := str\<rparr>)"
    using inv bs_inv_write [OF I(1) l] wr cur len unfolding snd_inv_def str_def
    by (auto simp: bs_cap_def n_def)
qed

lemma snd_inv_end_input: "snd_inv s \<Longrightarrow> snd_inv (s\<lparr>snd_stream := end_input (snd_stream s)\<rparr>)"
  unfolding snd_inv_def
  by (auto simp: end_input_def input_ended_def bs_eof_def buffer_empty_def bs_inv_def bs_cap_def)

lemma on_send_write:
  assumes os: "on_send f N s" and op: "\<not> input_ended (snd_stream s)" and N: "N < 2 ^ 63"
    and data: "\<forall>j < length data. data ! j = f (wtn s + j)" "wtn s + length data \<le> N"
  shows "on_send f N (s\<lparr>snd_stream := snd (bs_write data (snd_stream s))\<rparr>)"
proof -
  have inv: "snd_inv s" using os by (simp add: on_send_def)
  have len: "wtn s + length data < 2 ^ 63" using data(2) N by simp
  define n where "n = min (length data) (bs_cap (snd_stream s) - buffered s)"
  note W = snd_inv_write [OF inv op len, folded n_def]
  have "take n data = map f [wtn s..<wtn s + n]"
    using data(1) by (intro nth_equalityI) (simp_all add: n_def)
  moreover have "map f [rdn s..<wtn s] @ map f [wtn s..<wtn s + n] = map f [rdn s..<wtn s + n]"
    using snd_invD(3) [OF inv] by (intro map_upt_append) simp_all
  ultimately have "bs_view (snd (bs_write data (snd_stream s))) = map f [rdn s..<wtn s + n]"
    using W(3) os by (simp add: on_send_def)
  then show ?thesis
    using os op data(2) W(1,2) unfolding on_send_def by (simp add: n_def input_ended_def)
qed

lemma on_send_end_input:
  assumes "on_send f N s" and "wtn s = N"
  shows "on_send f N (s\<lparr>snd_stream := end_input (snd_stream s)\<rparr>)"
  using assms snd_inv_end_input [of s] unfolding on_send_def
  by (simp add: end_input_def input_ended_def bs_view_def)

lemma on_send_dequeue:
  assumes "on_send f N s" and "set out \<subseteq> set (segments_out s)"
  shows "on_send f N (s\<lparr>segments_out := out\<rparr>)"
  using assms by (auto simp: on_send_def)

lemma on_send_new:
  assumes "0 < unat c" and "unat c < 2 ^ 63"
  shows "on_send f N (snd_new c rto isn random)"
proof -
  have "bs_inv (bs_new c)" using assms(2) by (rule bs_inv_new)
  then have "snd_inv (snd_new c rto isn random)"
    using assms(1) unfolding snd_inv_def by (simp add: snd_new_def) (simp add: bs_new_def bs_cap_def)
  then show ?thesis unfolding on_send_def
    by (simp add: snd_new_def) (simp add: bs_new_def input_ended_def)
qed

subsection \<open>Timeouts\<close>

text \<open>Waiting until the timer expires.\<close>

definition expire :: "tcp_sender \<Rightarrow> tcp_sender" where
  "expire s = snd_tick (timeout (snd_timer s) - time_elapsed (snd_timer s)) s"

lemma expire_step:
  assumes "outstanding s = o1 # os"
  shows "expire s = s\<lparr>segments_out := segments_out s @ [os_segment o1],
    n_consec_retx := n_consec_retx s + (if 0 < wnd s then 1 else 0),
    snd_timer := \<lparr>time_elapsed = 0, timeout = timeout (snd_timer s) * (if 0 < wnd s then 2 else 1)\<rparr>\<rparr>"
  using assms
  by (simp add: expire_def snd_tick_def Let_def timer_expired_def timer_start_def word_less_nat_alt)

lemma expire_many:
  assumes "outstanding s = o1 # os"
  shows "outstanding ((expire ^^ n) s) = outstanding s \<and> snd_window ((expire ^^ n) s) = snd_window s \<and>
    segments_out ((expire ^^ n) s) = segments_out s @ replicate n (os_segment o1) \<and>
    n_consec_retx ((expire ^^ n) s) = n_consec_retx s + (if 0 < wnd s then of_nat n else 0) \<and>
    timeout (snd_timer ((expire ^^ n) s)) = timeout (snd_timer s) * (if 0 < wnd s then 2 ^ n else 1)"
proof (induction n)
  case 0
  then show ?case by simp
next
  case (Suc n)
  then have "outstanding ((expire ^^ n) s) = o1 # os" using assms by simp
  from expire_step [OF this] Suc show ?case by (simp add: replicate_append_same algebra_simps)
qed

lemma covers_unacked:
  assumes "covers k os q" and "head_unacked a os" and "x \<in> set os"
  shows "a < unat (os_seqno x) + unat (length_in_sequence_space (os_segment x))"
  using assms by (cases os) (auto dest: covers_acked)

lemma covers_member:
  assumes "covers k os q" and "k \<le> n" and "n < q"
  shows "\<exists>x \<in> set os. unat (os_seqno x) \<le> n \<and> n < unat (os_seqno x) + unat (length_in_sequence_space (os_segment x))"
  using assms
proof (induction os arbitrary: k)
  case Nil
  then show ?case by simp
next
  case (Cons o1 os)
  then show ?case by (cases "n < k + unat (length_in_sequence_space (os_segment o1))") auto
qed

subsection \<open>Properties\<close>

text \<open>
  C9. \<open>fill_window\<close> always returns, and it sends what can be sent: the new segments follow each
  other without gap or overlap in sequence space, carry at most \<open>MAX_PAYLOAD_SIZE\<close> bytes each,
  and their payloads are exactly the bytes taken from the stream; afterwards the window is full,
  or the stream is drained, the SYN is out, and so is the FIN if the stream was closed.
\<close>

theorem fill_window_sends:
  assumes "snd_inv s"
  shows "\<exists>s' new. fill_window s = Some s' \<and> snd_inv s' \<and>
    segments_out s' = segments_out s @ map os_segment new \<and> outstanding s' = outstanding s @ new \<and>
    covers (nxt s) new (nxt s') \<and>
    (\<forall>x \<in> set new. length (buffer_str (payload (os_segment x))) \<le> unat MAX_PAYLOAD_SIZE) \<and>
    concat (map (\<lambda>x. buffer_str (payload (os_segment x))) new) @ bs_view (snd_stream s') = bs_view (snd_stream s) \<and>
    (akd s' + max (wnd s') 1 \<le> nxt s' \<or>
     0 < nxt s' \<and> buffer_empty (snd_stream s') \<and> (input_ended (snd_stream s') \<longrightarrow> fin_sent s'))"
proof -
  obtain s' where s': "fill_window s = Some s'" "snd_inv s'" "settled s'" "fill_rel s s'"
    by (rule fill_window_ok [OF assms])
  moreover have "buffered s' = 0 \<Longrightarrow> buffer_empty (snd_stream s')"
    by (simp add: buffer_empty_def word_eq_unat_iff)
  ultimately show ?thesis unfolding fill_rel_def settled_def by blast
qed

theorem fill_window_sends_witness:
  "\<exists>s'. fill_window (snd_new 8 1000 (Some (WrappingInt32 5)) 0) = Some s' \<and> snd_inv s' \<and>
     bs_view (snd_stream s') = []"
proof -
  have "snd_inv (snd_new 8 1000 (Some (WrappingInt32 5)) 0)"
    using on_send_new [of 8 undefined 0] by (simp add: on_send_def)
  from fill_window_sends [OF this] show ?thesis by (auto simp: snd_new_def)
qed

text \<open>
  C26. The window bound. Either \<open>fill_window\<close> sends nothing, as when the window has shrunk below what is
  already in flight, or afterwards the numbers in flight fit the window, a closed one counting as one, or
  exceed it by exactly one, and then the FIN has been sent.
\<close>

theorem fill_window_bound:
  assumes "snd_inv s"
  shows "\<exists>s'. fill_window s = Some s' \<and> abs_ackno s' = abs_ackno s \<and>
    (next_seqno s' = next_seqno s \<and> segments_out s' = segments_out s \<or>
     unat (bytes_in_flight s') \<le> max (wnd s) 1 \<or>
     unat (bytes_in_flight s') = max (wnd s) 1 + 1 \<and> fin_sent s')"
proof -
  let ?B = "akd s + max (wnd s) 1"
  let ?P = "\<lambda>t. fill_rel s t \<and> (nxt t = nxt s \<or> nxt t \<le> ?B \<or> nxt t = ?B + 1 \<and> fin_sent t)"
  have "\<exists>s'. fill_window s = Some s' \<and> snd_inv s' \<and> ?P s' \<and> settled s'"
  proof (rule fill_window_rule [OF assms])
    show "?P s" by (simp add: fill_rel_refl)
  next
    fix t str
    assume t: "snd_inv t" and p: "?P t" and g: "nxt t \<le> akd t + wnd t" and nf: "\<not> fin_sent t" and len: "next_len t \<noteq> 0"
      and rd: "bs_read (of_nat (next_max t)) (snd_stream t) = Some (next_data t, str)"
    note A = advance_numbers [OF t g nf len rd]
    have w: "akd t = akd s" "wnd t = wnd s" using p by (simp_all add: fill_rel_def)
    have rm: "nxt t + room t \<le> ?B" using g w snd_invD(6) [OF t] by (auto simp: room_def split: if_splits)
    have "nxt t + next_len t \<le> ?B \<or> nxt t + next_len t = ?B + 1 \<and> next_fin t"
      using next_len_room [of t] rm by (auto simp: of_bool_def split: if_splits)
    moreover have "fin_sent (advance t str)" if "next_fin t"
      using fin_sent_advance [OF t g nf len rd that] .
    ultimately show "?P (advance t str)"
      using fill_rel_advance [OF t _ g nf len rd] p A(1) by auto
  qed
  then obtain s' where s': "fill_window s = Some s'" "snd_inv s'" "?P s'" by blast
  have "segments_out s' = segments_out s" if "nxt s' = nxt s"
    using s'(3) covers_empty that unfolding fill_rel_def by fastforce
  moreover have "unat (bytes_in_flight s') = nxt s' - akd s" "akd s \<le> nxt s'"
    using s'(3) snd_invD(6) [OF s'(2)] by (auto simp: fill_rel_def bytes_in_flight_def unat_sub word_le_nat_alt)
  moreover have "abs_ackno s' = abs_ackno s" using s'(3) by (simp add: fill_rel_def)
  ultimately show ?thesis using s'(1,3) by (auto simp: word_eq_unat_iff)
qed

theorem fill_window_bound_witness:
  "\<exists>s'. fill_window (snd_new 8 1000 (Some (WrappingInt32 5)) 0) = Some s' \<and> unat (bytes_in_flight s') \<le> 2"
proof -
  have "snd_inv (snd_new 8 1000 (Some (WrappingInt32 5)) 0)"
    using on_send_new [of 8 undefined 0] by (simp add: on_send_def)
  from fill_window_bound [OF this] show ?thesis by (auto simp: snd_new_def bytes_in_flight_def)
qed

text \<open>
  C38. That exception is real: when the room left in the window and the bytes left in a closed
  stream are both exactly \<open>MAX_PAYLOAD_SIZE\<close>, the FIN is sent one past the right edge of the
  window.
\<close>

theorem fin_overshoots_window:
  assumes "snd_inv s" and "0 < nxt s" and "nxt s + 1000 = akd s + wnd s" and "buffered s = 1000"
    and "input_ended (snd_stream s)"
  shows "\<exists>s'. fill_window s = Some s' \<and> nxt s' = akd s + wnd s + 1 \<and> fin_sent s'"
proof -
  have g: "nxt s \<le> akd s + wnd s" using assms(3) by simp
  have rm: "room s = 1000" using assms(3) snd_invD(6) [OF assms(1)] by (simp add: room_def)
  have sy: "\<not> next_syn s" using assms(2) by (simp add: next_syn_def)
  have mx: "next_max s = 1000" using rm sy by (simp add: next_max_def)
  have k: "length (next_data s) = 1000" using assms(4) mx by (simp add: length_next_data)
  have fin: "next_fin s" using assms(4,5) mx k by (simp add: next_fin_def)
  have len: "next_len s = 1001" using k sy fin by (simp add: next_len_def)
  have nf: "\<not> fin_sent s"
    using assms(4) by (simp add: fin_sent_def bs_eof_def buffer_empty_def) (auto simp: word_eq_unat_iff)
  obtain str where st: "fill_step s = Some (True, advance s str)"
    and rd: "bs_read (of_nat (next_max s)) (snd_stream s) = Some (next_data s, str)"
    using fill_step_eq [OF assms(1) g] nf len by auto
  have len0: "next_len s \<noteq> 0" using len by simp
  note A = advance_numbers [OF assms(1) g nf len0 rd] and inv' = snd_inv_advance [OF assms(1) g nf len0 rd]
  have q: "nxt (advance s str) = akd s + wnd s + 1" using A(1) len assms(3) by simp
  have "fill_window s = fill_window (advance s str)"
    using guard_nat [OF assms(1)] g st by (subst fill_window.simps) simp
  also have "\<dots> = Some (advance s str)"
    using guard_nat [OF inv'] q A(5,6) by (subst fill_window.simps) simp
  finally show ?thesis using q fin_sent_advance [OF assms(1) g nf len0 rd fin] by blast
qed

theorem fin_overshoots_window_witness:
  "\<exists>s s'. wnd s = 1000 \<and> akd s = 1 \<and> fill_window s = Some s' \<and> nxt s' = 1002"
proof -
  let ?w = "snd (bs_write (replicate 1000 0) (bs_new 2000))"
  let ?s = "(snd_new 2000 1000 None 0)\<lparr>snd_stream := end_input ?w, next_seqno := 1, abs_ackno := 1, snd_window := 1000\<rparr>"
  have b: "bs_inv (bs_new 2000)" by (rule bs_inv_new) simp
  have v: "bs_view ?w = replicate 1000 0"
    using bs_view_write [OF b, of "replicate 1000 0"] by (simp add: bs_cap_def) (simp add: bs_new_def)
  then have c: "unat (cur_size ?w) = 1000" using length_bs_view [of ?w] by simp
  have n: "n_bytes_read ?w = 0" "max_capacity ?w = 2000" by (simp, simp add: bs_new_def)+
  have inv: "bs_inv ?w" using bs_inv_write [OF b, of "replicate 1000 0"] by simp
  then have w: "unat (n_bytes_written ?w) = 1000" using n c by (simp add: bs_inv_def)
  have "snd_inv ?s"
    using inv n c w unfolding snd_inv_def by (simp add: snd_new_def end_input_def bs_inv_def bs_cap_def)
  from fin_overshoots_window [OF this] c obtain s' where "fill_window ?s = Some s'" "nxt s' = 1002"
    by (auto simp: end_input_def input_ended_def)
  then show ?thesis by (intro exI [of _ ?s] exI [of _ s']) simp
qed

text \<open>
  C10. An acknowledgment. The advertised window is always taken over. If the acknowledgment number,
  unwrapped near the last one, acknowledges something new that has been sent, exactly the outstanding
  segments it covers whole are dropped, the count of retransmissions is reset and the window is filled
  again, so that the outstanding segments cover everything from the new number on. The timer is
  restarted with the initial timeout if a segment has been dropped, or if one is sent while the timer has
  run out; otherwise it goes on. Any other acknowledgment, a repeated one included, changes nothing but
  the window: in particular a repeated acknowledgment that opens a closed window sends nothing.
\<close>

theorem ack_received_effect:
  assumes "snd_inv s"
  shows "\<exists>s'. ack_received the_ackno w s = Some s' \<and> snd_inv s' \<and> snd_window s' = ucast w \<and>
    (let new = unwrap the_ackno (snd_isn s) (abs_ackno s)
     in if abs_ackno s < new \<and> new \<le> next_seqno s
        then abs_ackno s' = new \<and> n_consec_retx s' = 0 \<and> settled s' \<and>
          (\<exists>sent. outstanding s' = filter (\<lambda>x. unat new < os_end x) (outstanding s) @ sent \<and>
             segments_out s' = segments_out s @ map os_segment sent \<and>
             snd_timer s' = (if (\<exists>x \<in> set (outstanding s). os_end x \<le> unat new) \<or> sent \<noteq> [] \<and> timer_expired (snd_timer s)
                             then \<lparr>time_elapsed = 0, timeout = ucast (initial_rto s)\<rparr> else snd_timer s)) \<and>
          (\<forall>n. unat new \<le> n \<and> n < nxt s' \<longrightarrow> (\<exists>x \<in> set (outstanding s'). unat (os_seqno x) \<le> n \<and> n < os_end x))
        else s' = s\<lparr>snd_window := ucast w\<rparr>)"
proof (cases rule: ack_received_cases [OF assms, of the_ackno w, case_names ignored accepted])
  case ignored
  have "unat (ucast w :: u64) < 2 ^ 16" using unat_u16_less [of w] by (simp add: unat_ucast_mod)
  then have "snd_inv (s\<lparr>snd_window := ucast w\<rparr>)" using assms unfolding snd_inv_def by simp
  with ignored show ?thesis by (auto simp: Let_def word_less_nat_alt word_le_nat_alt)
next
  case (accepted s1)
  let ?new = "unwrap the_ackno (snd_isn s) (abs_ackno s)"
  obtain s' where s': "fill_window s1 = Some s'" "snd_inv s'" "settled s'" "fill_rel s1 s'"
    by (rule fill_window_ok [OF accepted(3)])
  have s1: "abs_ackno s1 = ?new" "snd_window s1 = ucast w" "n_consec_retx s1 = 0" "segments_out s1 = segments_out s"
    "initial_rto s1 = initial_rto s"
    by (subst accepted(4), simp)+
  then have f: "abs_ackno s' = ?new" "snd_window s' = ucast w" "n_consec_retx s' = 0"
    using s'(4) unfolding fill_rel_def by simp_all
  obtain sent where sent: "segments_out s' = segments_out s @ map os_segment sent"
    "outstanding s' = filter (\<lambda>x. unat ?new < os_end x) (outstanding s) @ sent"
    "snd_timer s' = (if sent \<noteq> [] \<and> timer_expired (snd_timer s1) then timer_start (ucast (initial_rto s)) (snd_timer s1)
       else snd_timer s1)"
    using s'(4) s1(4,5) accepted(7) unfolding fill_rel_def by auto
  have t: "snd_timer s' = (if (\<exists>x \<in> set (outstanding s). os_end x \<le> unat ?new) \<or> sent \<noteq> [] \<and> timer_expired (snd_timer s)
      then \<lparr>time_elapsed = 0, timeout = ucast (initial_rto s)\<rparr> else snd_timer s)"
    unfolding sent(3) accepted(8) by (simp add: timer_start_def)
  obtain k where k: "k \<le> akd s'" "covers k (outstanding s') (nxt s')" using s'(2) by (auto simp: snd_inv_def)
  have "\<exists>x \<in> set (outstanding s'). unat (os_seqno x) \<le> n \<and> n < os_end x" if "unat ?new \<le> n" "n < nxt s'" for n
    using covers_member [OF k(2), of n] k(1) f(1) that by (auto simp: os_end_def)
  moreover have "abs_ackno s < ?new \<and> ?new \<le> next_seqno s"
    using accepted(1,2) by (simp add: word_less_nat_alt word_le_nat_alt)
  ultimately show ?thesis using s'(1-3) f accepted(6) sent(1,2) t by (auto simp: Let_def)
qed

theorem ack_received_effect_witness:
  "\<exists>s s'. bytes_in_flight s = 1 \<and> time_elapsed (snd_timer s) = 700 \<and>
     ack_received (WrappingInt32 6) 100 s = Some s' \<and> abs_ackno s' = 1 \<and> snd_window s' = 100 \<and>
     snd_timer s' = \<lparr>time_elapsed = 0, timeout = 1000\<rparr>"
proof -
  let ?syn = "\<lparr>header = tcp_header_default\<lparr>seqno := WrappingInt32 5, syn := True\<rparr>, payload = buffer_new []\<rparr>"
  let ?s = "(snd_new 8 1000 (Some (WrappingInt32 5)) 0)\<lparr>next_seqno := 1,
    outstanding := [\<lparr>os_seqno = 0, os_segment = ?syn\<rparr>], snd_timer := \<lparr>time_elapsed = 700, timeout = 1000\<rparr>\<rparr>"
  have len: "unat (length_in_sequence_space ?syn) = 1"
    by (simp add: length_in_sequence_space_def tcp_header_default_def)
  have "snd_inv (snd_new 8 1000 (Some (WrappingInt32 5)) 0)"
    using on_send_new [of 8 undefined 0] by (simp add: on_send_def)
  then have inv: "snd_inv ?s" using len unfolding snd_inv_def by (simp add: snd_new_def)
  have "unwrap (WrappingInt32 6) (WrappingInt32 5) 0 = 1"
    using unwrap_wrap [of 1 0 "WrappingInt32 5"] by (simp add: wrap_def dist_nat_def)
  then obtain s' where "ack_received (WrappingInt32 6) 100 ?s = Some s'" "abs_ackno s' = 1" "snd_window s' = 100"
    "snd_timer s' = \<lparr>time_elapsed = 0, timeout = 1000\<rparr>"
    using ack_received_effect [OF inv, of "WrappingInt32 6" 100] len that by (auto simp: snd_new_def os_end_def)
  moreover have "bytes_in_flight ?s = 1" "time_elapsed (snd_timer ?s) = 700"
    by (simp_all add: bytes_in_flight_def snd_new_def)
  ultimately show ?thesis by blast
qed

text \<open>
  C25. Timeouts. While nothing is acknowledged, \<open>n\<close> expirations in a row retransmit the oldest outstanding
  segment \<open>n\<close> times and nothing else. If the window is open, \<open>n\<close> consecutive retransmissions are counted and
  the timeout is multiplied by \<open>2 ^ n\<close>; if the window is closed, the retransmissions are probes, which
  are not counted and leave the timeout as it is.
\<close>

theorem retransmission_backoff:
  assumes "outstanding s = o1 # os" and "unat (timeout (snd_timer s)) * 2 ^ n < 2 ^ 64"
  shows "segments_out ((expire ^^ n) s) = segments_out s @ replicate n (os_segment o1) \<and>
    outstanding ((expire ^^ n) s) = outstanding s \<and>
    n_consec_retx ((expire ^^ n) s) = n_consec_retx s + (if 0 < wnd s then of_nat n else 0) \<and>
    unat (timeout (snd_timer ((expire ^^ n) s))) = unat (timeout (snd_timer s)) * (if 0 < wnd s then 2 ^ n else 1)"
proof -
  have "timeout (snd_timer s) * 2 ^ n = of_nat (unat (timeout (snd_timer s)) * 2 ^ n)" by simp
  then have "unat (timeout (snd_timer s) * 2 ^ n) = unat (timeout (snd_timer s)) * 2 ^ n"
    using assms(2) by (simp only: unat_of_nat) (simp add: mod_less)
  with expire_many [OF assms(1), of n] show ?thesis by simp
qed

theorem retransmission_backoff_witness:
  "\<exists>s s0. unat (timeout (snd_timer ((expire ^^ 3) s))) = 8000 \<and> n_consec_retx ((expire ^^ 3) s) = 3 \<and>
     wnd s0 = 0 \<and> unat (timeout (snd_timer ((expire ^^ 3) s0))) = 1000 \<and> length (segments_out ((expire ^^ 3) s0)) = 3"
proof -
  let ?o = "\<lparr>os_seqno = 0, os_segment = tcp_segment_default\<rparr>"
  let ?s = "(snd_new 8 1000 None 0)\<lparr>outstanding := [?o]\<rparr>" and ?z = "(snd_new 8 1000 None 0)\<lparr>outstanding := [?o], snd_window := 0\<rparr>"
  have o: "outstanding ?s = [?o]" "outstanding ?z = [?o]" "unat (timeout (snd_timer ?s)) * 2 ^ 3 < 2 ^ 64"
    "unat (timeout (snd_timer ?z)) * 2 ^ 3 < 2 ^ 64" by (simp_all add: snd_new_def)
  have v: "0 < wnd ?s" "wnd ?z = 0" "timeout (snd_timer ?s) = 1000" "timeout (snd_timer ?z) = 1000" "n_consec_retx ?s = 0"
    "segments_out ?z = []" by (simp add: snd_new_def)+
  have "unat (timeout (snd_timer ((expire ^^ 3) ?s))) = 8000" "n_consec_retx ((expire ^^ 3) ?s) = 3"
    using retransmission_backoff [OF o(1,3)] v(1,3,5) by simp_all
  moreover have "unat (timeout (snd_timer ((expire ^^ 3) ?z))) = 1000" "length (segments_out ((expire ^^ 3) ?z)) = 3"
    using retransmission_backoff [OF o(2,4)] v(2,4,6) by simp_all
  ultimately show ?thesis using v(2) by blast
qed

end
