(* ===== verification/TCP_Connection.thy ===== *)
theory TCP_Connection
  imports TCP_Receiver TCP_Sender
begin

text \<open>
  A TCP endpoint, \<open>libsponge/tcp_connection.hh\<close> and \<open>tcp_connection.cc\<close>, which joins a sender and
  a receiver, and the summary of its state, \<open>libsponge/tcp_helpers/tcp_state.hh\<close> and
  \<open>tcp_state.cc\<close>. Operations that may throw or loop in the parts return an option. Output to the
  console, under a flag that is constantly false, is left out.
\<close>

record tcp_connection =
  cfg :: tcp_config
  receiver :: tcp_receiver
  sender :: tcp_sender
  conn_segments_out :: "tcp_segment list"
  linger :: bool
  conn_active :: bool
  last_segm_recv_timer :: u64

definition conn_new :: "tcp_config \<Rightarrow> u32 \<Rightarrow> tcp_connection" where
  "conn_new config random = \<lparr>cfg = config,
     receiver = rcv_new (recv_capacity config),
     sender = snd_new (send_capacity config) (rt_timeout config) (fixed_isn config) random,
     conn_segments_out = [], linger = True, conn_active = True, last_segm_recv_timer = 0\<rparr>"

definition remaining_outbound_capacity :: "tcp_connection \<Rightarrow> u64" where
  "remaining_outbound_capacity c = remaining_capacity (snd_stream (sender c))"

definition conn_bytes_in_flight :: "tcp_connection \<Rightarrow> u64" where
  "conn_bytes_in_flight c = bytes_in_flight (sender c)"

definition conn_unassembled_bytes :: "tcp_connection \<Rightarrow> u64" where
  "conn_unassembled_bytes c = rcv_unassembled_bytes (receiver c)"

definition time_since_last_segment_received :: "tcp_connection \<Rightarrow> u64" where
  "time_since_last_segment_received c = last_segm_recv_timer c"

definition syn_sent :: "tcp_connection \<Rightarrow> bool" where
  "syn_sent c \<longleftrightarrow> next_seqno_absolute (sender c) > 0"

definition active :: "tcp_connection \<Rightarrow> bool" where
  "active c \<longleftrightarrow> conn_active c"

subsection \<open>Sending and closing\<close>

definition stamp :: "bool \<Rightarrow> tcp_receiver \<Rightarrow> tcp_segment \<Rightarrow> tcp_segment" where
  "stamp rst_flag r seg =
     (let h = header seg;
          h = (case rcv_ackno r of
                 Some a \<Rightarrow> h\<lparr>ack := True, ackno := a, win := ucast (rcv_window_size r)\<rparr>
               | None \<Rightarrow> h);
          h = (if rst_flag then h\<lparr>rst := True\<rparr> else h)
      in seg\<lparr>header := h\<rparr>)"

text \<open>The loop of \<open>send_segments\<close>: the sender's queue is moved to the connection's queue.\<close>

fun send_loop :: "bool \<Rightarrow> tcp_receiver \<Rightarrow> tcp_segment list \<Rightarrow> tcp_segment list \<Rightarrow> tcp_segment list" where
  "send_loop rst_flag r [] out = out"
| "send_loop rst_flag r (seg # segs) out = send_loop rst_flag r segs (out @ [stamp rst_flag r seg])"

definition send_segments :: "bool \<Rightarrow> tcp_connection \<Rightarrow> tcp_connection" where
  "send_segments rst_flag c =
     (if \<not> active c then c
      else c\<lparr>conn_segments_out := send_loop rst_flag (receiver c) (segments_out (sender c)) (conn_segments_out c),
             sender := (sender c)\<lparr>segments_out := []\<rparr>\<rparr>)"

definition conn_reset :: "tcp_connection \<Rightarrow> tcp_connection" where
  "conn_reset c =
     (let s = sender c; r = receiver c; ra = rcv_reassembler r
      in c\<lparr>sender := s\<lparr>snd_stream := set_error (snd_stream s)\<rparr>,
           receiver := r\<lparr>rcv_reassembler := ra\<lparr>ra_output := set_error (ra_output ra)\<rparr>\<rparr>,
           conn_active := False\<rparr>)"

definition try_switching_close_mode :: "tcp_connection \<Rightarrow> tcp_connection" where
  "try_switching_close_mode c =
     (if \<not> bs_eof (snd_stream (sender c)) \<and> input_ended (rcv_stream_out (receiver c))
      then c\<lparr>linger := False\<rparr> else c)"

definition istream_done :: "tcp_connection \<Rightarrow> bool" where
  "istream_done c \<longleftrightarrow> input_ended (rcv_stream_out (receiver c)) \<and> rcv_unassembled_bytes (receiver c) = 0"

definition ostream_done :: "tcp_connection \<Rightarrow> bool" where
  "ostream_done c \<longleftrightarrow> bs_eof (snd_stream (sender c)) \<and>
     next_seqno_absolute (sender c) = bytes_written (snd_stream (sender c)) + 2 \<and> bytes_in_flight (sender c) = 0"

definition try_closing_connection :: "tcp_connection \<Rightarrow> tcp_connection" where
  "try_closing_connection c =
     (if \<not> active c then c
      else
        let c = send_segments False c;
            active_close = (linger c \<and> last_segm_recv_timer c \<ge> 10 * ucast (rt_timeout (cfg c)));
            passive_close = (\<not> linger c)
        in if (active_close \<or> passive_close) \<and> istream_done c \<and> ostream_done c
           then c\<lparr>conn_active := False\<rparr> else c)"

subsection \<open>Operations\<close>

text \<open>An operation of the sender, embedded.\<close>

definition with_sender :: "(tcp_sender \<Rightarrow> tcp_sender option) \<Rightarrow> tcp_connection \<Rightarrow> tcp_connection option" where
  "with_sender f c = map_option (\<lambda>s. c\<lparr>sender := s\<rparr>) (f (sender c))"

definition connect :: "tcp_connection \<Rightarrow> tcp_connection option" where
  "connect c = map_option (send_segments False) (with_sender fill_window c)"

definition end_input_stream :: "tcp_connection \<Rightarrow> tcp_connection option" where
  "end_input_stream c =
     (let s = sender c; c = c\<lparr>sender := s\<lparr>snd_stream := end_input (snd_stream s)\<rparr>\<rparr>
      in map_option try_closing_connection (with_sender fill_window c))"

text \<open>The parts of \<open>segment_received\<close>: a RST, an acknowledgment, the reply, a SYN from the peer.\<close>

definition process_rst :: "tcp_segment \<Rightarrow> tcp_connection \<Rightarrow> tcp_connection" where
  "process_rst seg c = (if rst (header seg) then conn_reset c else c)"

definition process_ack :: "tcp_segment \<Rightarrow> tcp_connection \<Rightarrow> tcp_connection option" where
  "process_ack seg c =
     (if ack (header seg) then with_sender (ack_received (ackno (header seg)) (win (header seg))) c else Some c)"

definition reply :: "tcp_segment \<Rightarrow> tcp_connection \<Rightarrow> tcp_connection" where
  "reply seg c =
     (if syn_sent c
      then
        let c = (if length_in_sequence_space seg > 0 \<and> segments_out (sender c) = []
                 then c\<lparr>sender := send_empty_segment (sender c)\<rparr> else c)
        in send_segments False c
      else c)"

definition accept_syn :: "tcp_segment \<Rightarrow> tcp_connection \<Rightarrow> tcp_connection option" where
  "accept_syn seg c = (if syn (header seg) \<and> \<not> syn_sent c then connect c else Some c)"

definition conn_segment_received :: "tcp_segment \<Rightarrow> tcp_connection \<Rightarrow> tcp_connection option" where
  "conn_segment_received seg c = do {
     r \<leftarrow> rcv_segment_received seg (receiver c);
     let c = c\<lparr>receiver := r, last_segm_recv_timer := 0\<rparr>
     in do {
       c \<leftarrow> process_ack seg (process_rst seg c);
       c \<leftarrow> accept_syn seg (reply seg c);
       Some (try_switching_close_mode c)
     }
   }"

definition conn_write :: "bytes \<Rightarrow> tcp_connection \<Rightarrow> (u64 \<times> tcp_connection) option" where
  "conn_write data c =
     (if input_ended (snd_stream (sender c)) \<or> \<not> syn_sent c then Some (0, c)
      else
        let (n, str) = bs_write data (snd_stream (sender c));
            s = sender c;
            c = c\<lparr>sender := s\<lparr>snd_stream := str\<rparr>\<rparr>
        in map_option (\<lambda>c. (n, send_segments False c)) (with_sender fill_window c))"

definition conn_tick :: "u64 \<Rightarrow> tcp_connection \<Rightarrow> tcp_connection" where
  "conn_tick ms_since_last_tick c =
     (if \<not> active c then c
      else
        let c = c\<lparr>sender := snd_tick ms_since_last_tick (sender c)\<rparr>;
            c = c\<lparr>last_segm_recv_timer := last_segm_recv_timer c + ms_since_last_tick\<rparr>;
            c = (if consecutive_retransmissions (sender c) > MAX_RETX_ATTEMPTS
                 then
                   let c = (if segments_out (sender c) = []
                            then c\<lparr>sender := send_empty_segment (sender c)\<rparr> else c)
                   in conn_reset (send_segments True c)
                 else send_segments False c)
        in try_closing_connection c)"

text \<open>The destructor; what it leaves in the queue is what the owner can still send.\<close>

definition conn_destroy :: "tcp_connection \<Rightarrow> tcp_connection" where
  "conn_destroy c =
     (if active c
      then
        let c = (if segments_out (sender c) = [] then c\<lparr>sender := send_empty_segment (sender c)\<rparr> else c)
        in conn_reset (send_segments True c)
      else c)"

subsection \<open>Summary of the state\<close>

definition rcv_ERROR :: string where "rcv_ERROR = ''error (connection was reset)''"
definition rcv_LISTEN :: string where "rcv_LISTEN = ''waiting for SYN: ackno is empty''"
definition rcv_SYN_RECV :: string where
  "rcv_SYN_RECV = ''SYN received (ackno exists), and input to stream hasn't ended''"
definition rcv_FIN_RECV :: string where "rcv_FIN_RECV = ''input to stream has ended''"
definition snd_ERROR :: string where "snd_ERROR = ''error (connection was reset)''"
definition snd_CLOSED :: string where "snd_CLOSED = ''waiting for stream to begin (no SYN sent)''"
definition snd_SYN_SENT :: string where "snd_SYN_SENT = ''stream started but nothing acknowledged''"
definition snd_SYN_ACKED :: string where "snd_SYN_ACKED = ''stream ongoing''"
definition snd_FIN_SENT :: string where
  "snd_FIN_SENT = ''stream finished (FIN sent) but not fully acknowledged''"
definition snd_FIN_ACKED :: string where "snd_FIN_ACKED = ''stream finished and fully acknowledged''"

lemmas summary_strings = rcv_ERROR_def rcv_LISTEN_def rcv_SYN_RECV_def rcv_FIN_RECV_def
  snd_ERROR_def snd_CLOSED_def snd_SYN_SENT_def snd_SYN_ACKED_def snd_FIN_SENT_def snd_FIN_ACKED_def

record tcp_state =
  st_sender :: string
  st_receiver :: string
  st_active :: bool
  st_linger :: bool

datatype tcp_state_name =
  LISTEN | SYN_RCVD | SYN_SENT | ESTABLISHED | CLOSE_WAIT | LAST_ACK | FIN_WAIT_1 | FIN_WAIT_2
  | CLOSING | TIME_WAIT | CLOSED | RESET

definition receiver_summary :: "tcp_receiver \<Rightarrow> string" where
  "receiver_summary r =
     (if bs_error (rcv_stream_out r) then rcv_ERROR
      else if rcv_ackno r = None then rcv_LISTEN
      else if input_ended (rcv_stream_out r) then rcv_FIN_RECV
      else rcv_SYN_RECV)"

definition sender_summary :: "tcp_sender \<Rightarrow> string" where
  "sender_summary s =
     (if bs_error (snd_stream s) then snd_ERROR
      else if next_seqno_absolute s = 0 then snd_CLOSED
      else if next_seqno_absolute s = bytes_in_flight s then snd_SYN_SENT
      else if \<not> bs_eof (snd_stream s) then snd_SYN_ACKED
      else if next_seqno_absolute s < bytes_written (snd_stream s) + 2 then snd_SYN_ACKED
      else if bytes_in_flight s \<noteq> 0 then snd_FIN_SENT
      else snd_FIN_ACKED)"

definition mk_state :: "string \<Rightarrow> string \<Rightarrow> bool \<Rightarrow> bool \<Rightarrow> tcp_state" where
  "mk_state snd_part rcv_part a l = \<lparr>st_sender = snd_part, st_receiver = rcv_part, st_active = a, st_linger = l\<rparr>"

fun tcp_state_of_name :: "tcp_state_name \<Rightarrow> tcp_state" where
  "tcp_state_of_name LISTEN = mk_state snd_CLOSED rcv_LISTEN True True"
| "tcp_state_of_name SYN_RCVD = mk_state snd_SYN_SENT rcv_SYN_RECV True True"
| "tcp_state_of_name SYN_SENT = mk_state snd_SYN_SENT rcv_LISTEN True True"
| "tcp_state_of_name ESTABLISHED = mk_state snd_SYN_ACKED rcv_SYN_RECV True True"
| "tcp_state_of_name CLOSE_WAIT = mk_state snd_SYN_ACKED rcv_FIN_RECV True False"
| "tcp_state_of_name LAST_ACK = mk_state snd_FIN_SENT rcv_FIN_RECV True False"
| "tcp_state_of_name CLOSING = mk_state snd_FIN_SENT rcv_FIN_RECV True True"
| "tcp_state_of_name FIN_WAIT_1 = mk_state snd_FIN_SENT rcv_SYN_RECV True True"
| "tcp_state_of_name FIN_WAIT_2 = mk_state snd_FIN_ACKED rcv_SYN_RECV True True"
| "tcp_state_of_name TIME_WAIT = mk_state snd_FIN_ACKED rcv_FIN_RECV True True"
| "tcp_state_of_name RESET = mk_state snd_ERROR rcv_ERROR False False"
| "tcp_state_of_name CLOSED = mk_state snd_FIN_ACKED rcv_FIN_RECV False False"

definition tcp_state_summary :: "tcp_sender \<Rightarrow> tcp_receiver \<Rightarrow> bool \<Rightarrow> bool \<Rightarrow> tcp_state" where
  "tcp_state_summary s r a l = mk_state (sender_summary s) (receiver_summary r) a (if a then l else False)"

definition conn_state :: "tcp_connection \<Rightarrow> tcp_state" where
  "conn_state c = tcp_state_summary (sender c) (receiver c) (active c) (linger c)"

definition tcp_state_eq :: "tcp_state \<Rightarrow> tcp_state \<Rightarrow> bool" where
  "tcp_state_eq x y \<longleftrightarrow> st_active x = st_active y \<and> st_linger x = st_linger y \<and>
     st_sender x = st_sender y \<and> st_receiver x = st_receiver y"

definition tcp_state_neq :: "tcp_state \<Rightarrow> tcp_state \<Rightarrow> bool" where
  "tcp_state_neq x y \<longleftrightarrow> \<not> tcp_state_eq x y"

text \<open>\<open>std::to_string\<close> of a bool.\<close>

definition bool_string :: "bool \<Rightarrow> string" where
  "bool_string b = (if b then ''1'' else ''0'')"

definition tcp_state_text :: "tcp_state \<Rightarrow> string" where
  "tcp_state_text x = ''sender=`'' @ st_sender x @ ''`, receiver=`'' @ st_receiver x @ ''`, active='' @
     bool_string (st_active x) @ '', linger_after_streams_finish='' @ bool_string (st_linger x)"

lemma send_loop_eq: "send_loop b r segs out = out @ map (stamp b r) segs"
  by (induction segs arbitrary: out) simp_all

subsection \<open>What a connection needs of its parts\<close>

text \<open>
  A connection only composes its sender and its receiver. Whatever predicates the operations of the
  two parts keep, every operation of the connection keeps: \<open>S\<close> of the sender, \<open>R\<close> of the receiver,
  and \<open>Q\<close> of every queued segment. The locale is instantiated below with the invariants that hold
  for any input; \<open>TCP_Network\<close> instantiates it with those of two honest endpoints.
\<close>

definition conn_holds :: "(tcp_sender \<Rightarrow> bool) \<Rightarrow> (tcp_receiver \<Rightarrow> bool) \<Rightarrow> (tcp_segment \<Rightarrow> bool) \<Rightarrow>
    tcp_connection \<Rightarrow> bool" where
  "conn_holds S R Q c \<longleftrightarrow> S (sender c) \<and> R (receiver c) \<and> (\<forall>seg \<in> set (conn_segments_out c). Q seg)"

text \<open>The operations a connection is driven by: those of its owner, of the network and of the clock.\<close>

datatype conn_op = Connect | EndInput | Write bytes | SegmentReceived tcp_segment | Tick u64 | ReadInbound u64
  | TakeSegments

definition read_inbound :: "u64 \<Rightarrow> tcp_receiver \<Rightarrow> (bytes \<times> tcp_receiver) option" where
  "read_inbound len r = map_option (\<lambda>(x, out). (x, r\<lparr>rcv_reassembler := (rcv_reassembler r)\<lparr>ra_output := out\<rparr>\<rparr>))
     (bs_read len (rcv_stream_out r))"

fun conn_step :: "conn_op \<Rightarrow> tcp_connection \<Rightarrow> tcp_connection option" where
  "conn_step Connect c = connect c"
| "conn_step EndInput c = end_input_stream c"
| "conn_step (Write data) c = map_option snd (conn_write data c)"
| "conn_step (SegmentReceived seg) c = conn_segment_received seg c"
| "conn_step (Tick ms) c = Some (conn_tick ms c)"
| "conn_step (ReadInbound len) c = map_option (\<lambda>(x, r). c\<lparr>receiver := r\<rparr>) (read_inbound len (receiver c))"
| "conn_step TakeSegments c = Some (c\<lparr>conn_segments_out := []\<rparr>)"

locale connection_parts =
  fixes S :: "tcp_sender \<Rightarrow> bool"
    and R :: "tcp_receiver \<Rightarrow> bool"
    and Q :: "tcp_segment \<Rightarrow> bool"
    and may_write :: "tcp_sender \<Rightarrow> bytes \<Rightarrow> bool"
    and may_close :: "tcp_sender \<Rightarrow> bool"
    and may_receive :: "tcp_receiver \<Rightarrow> tcp_segment \<Rightarrow> bool"
    and may_read :: "tcp_receiver \<Rightarrow> bool"
  assumes queued: "S s \<Longrightarrow> seg \<in> set (segments_out s) \<Longrightarrow> Q seg"
    and stamped: "Q seg \<Longrightarrow> Q (stamp b r seg)"
    and keep_fill: "S s \<Longrightarrow> \<exists>s'. fill_window s = Some s' \<and> S s'"
    and keep_ack: "S s \<Longrightarrow> \<exists>s'. ack_received a w s = Some s' \<and> S s'"
    and keep_tick: "S s \<Longrightarrow> S (snd_tick ms s)"
    and keep_empty: "S s \<Longrightarrow> S (send_empty_segment s)"
    and keep_dequeue: "S s \<Longrightarrow> S (s\<lparr>segments_out := []\<rparr>)"
    and keep_write: "S s \<Longrightarrow> may_write s data \<Longrightarrow> \<not> input_ended (snd_stream s) \<Longrightarrow>
      S (s\<lparr>snd_stream := snd (bs_write data (snd_stream s))\<rparr>)"
    and keep_close: "S s \<Longrightarrow> may_close s \<Longrightarrow> S (s\<lparr>snd_stream := end_input (snd_stream s)\<rparr>)"
    and keep_error_out: "S s \<Longrightarrow> S (s\<lparr>snd_stream := set_error (snd_stream s)\<rparr>)"
    and keep_error_in: "R r \<Longrightarrow> R (r\<lparr>rcv_reassembler :=
      (rcv_reassembler r)\<lparr>ra_output := set_error (ra_output (rcv_reassembler r))\<rparr>\<rparr>)"
    and keep_receive: "R r \<Longrightarrow> may_receive r seg \<Longrightarrow> \<exists>r'. rcv_segment_received seg r = Some r' \<and> R r'"
    and keep_read: "R r \<Longrightarrow> may_read r \<Longrightarrow> \<exists>x r'. read_inbound len r = Some (x, r') \<and> R r'"
begin

lemma holds_frame:
  "conn_holds S R Q (c\<lparr>linger := l\<rparr>) = conn_holds S R Q c"
  "conn_holds S R Q (c\<lparr>conn_active := a\<rparr>) = conn_holds S R Q c"
  "conn_holds S R Q (c\<lparr>last_segm_recv_timer := t\<rparr>) = conn_holds S R Q c"
  by (simp_all add: conn_holds_def)

lemma holds_sender: "conn_holds S R Q c \<Longrightarrow> S s \<Longrightarrow> conn_holds S R Q (c\<lparr>sender := s\<rparr>)"
  by (simp add: conn_holds_def)

lemma holds_send: "conn_holds S R Q c \<Longrightarrow> conn_holds S R Q (send_segments b c)"
  by (auto simp: conn_holds_def send_segments_def send_loop_eq intro: keep_dequeue stamped queued)

lemma holds_reset: "conn_holds S R Q c \<Longrightarrow> conn_holds S R Q (conn_reset c)"
  by (simp add: conn_holds_def conn_reset_def Let_def keep_error_out keep_error_in)

lemma holds_empty: "conn_holds S R Q c \<Longrightarrow> conn_holds S R Q (c\<lparr>sender := send_empty_segment (sender c)\<rparr>)"
  by (simp add: conn_holds_def keep_empty)

lemma holds_try_closing: "conn_holds S R Q c \<Longrightarrow> conn_holds S R Q (try_closing_connection c)"
  by (auto simp: try_closing_connection_def Let_def holds_frame intro: holds_send)

lemma holds_fill: "conn_holds S R Q c \<Longrightarrow> \<exists>c'. with_sender fill_window c = Some c' \<and> conn_holds S R Q c'"
  using keep_fill [of "sender c"] by (auto simp: conn_holds_def with_sender_def)

lemma holds_ack:
  "conn_holds S R Q c \<Longrightarrow> \<exists>c'. with_sender (ack_received a w) c = Some c' \<and> conn_holds S R Q c'"
  using keep_ack [of "sender c" a w] by (auto simp: conn_holds_def with_sender_def)

lemma holds_connect: "conn_holds S R Q c \<Longrightarrow> \<exists>c'. connect c = Some c' \<and> conn_holds S R Q c'"
  using holds_fill [of c] holds_send by (auto simp: connect_def)

lemma holds_end_input:
  assumes "conn_holds S R Q c" and "may_close (sender c)"
  shows "\<exists>c'. end_input_stream c = Some c' \<and> conn_holds S R Q c'"
proof -
  let ?s = "(sender c)\<lparr>snd_stream := end_input (snd_stream (sender c))\<rparr>"
  have "conn_holds S R Q (c\<lparr>sender := ?s\<rparr>)"
    using assms keep_close by (intro holds_sender) (simp_all add: conn_holds_def)
  from holds_fill [OF this] holds_try_closing show ?thesis by (auto simp: end_input_stream_def Let_def)
qed

lemma holds_write:
  assumes "conn_holds S R Q c" and "may_write (sender c) data"
  shows "\<exists>n c'. conn_write data c = Some (n, c') \<and> conn_holds S R Q c'"
proof (cases "input_ended (snd_stream (sender c)) \<or> \<not> syn_sent c")
  case True
  then show ?thesis using assms by (simp add: conn_write_def)
next
  case False
  let ?s = "(sender c)\<lparr>snd_stream := snd (bs_write data (snd_stream (sender c)))\<rparr>"
  have "conn_holds S R Q (c\<lparr>sender := ?s\<rparr>)"
    using assms False keep_write by (intro holds_sender) (simp_all add: conn_holds_def)
  from holds_fill [OF this] holds_send False show ?thesis
    by (auto simp: conn_write_def Let_def case_prod_unfold)
qed

lemma holds_tick:
  assumes "conn_holds S R Q c"
  shows "conn_holds S R Q (conn_tick ms c)"
proof -
  define c1 where "c1 = c\<lparr>sender := snd_tick ms (sender c), last_segm_recv_timer := last_segm_recv_timer c + ms\<rparr>"
  have c1: "conn_holds S R Q c1" using assms by (simp add: c1_def conn_holds_def keep_tick)
  define c2 where "c2 = (if consecutive_retransmissions (sender c1) > MAX_RETX_ATTEMPTS
      then conn_reset (send_segments True (if segments_out (sender c1) = []
        then c1\<lparr>sender := send_empty_segment (sender c1)\<rparr> else c1))
      else send_segments False c1)"
  have "conn_holds S R Q c2" using c1 by (auto simp: c2_def intro!: holds_reset holds_send holds_empty)
  moreover have "conn_tick ms c = (if active c then try_closing_connection c2 else c)"
    by (simp add: conn_tick_def Let_def c2_def c1_def)
  ultimately show ?thesis using assms holds_try_closing by simp
qed

lemma holds_segment_received:
  assumes "conn_holds S R Q c" and "may_receive (receiver c) seg"
  shows "\<exists>c'. conn_segment_received seg c = Some c' \<and> conn_holds S R Q c'"
proof -
  let ?E = "conn_holds S R Q"
  obtain r where r: "rcv_segment_received seg (receiver c) = Some r" "R r"
    using keep_receive [of "receiver c" seg] assms by (auto simp: conn_holds_def)
  let ?c1 = "c\<lparr>receiver := r, last_segm_recv_timer := 0\<rparr>"
  have "?E ?c1" using assms(1) r(2) by (simp add: conn_holds_def)
  then have "?E (process_rst seg ?c1)" by (simp add: process_rst_def holds_reset)
  then obtain c3 where c3: "process_ack seg (process_rst seg ?c1) = Some c3" "?E c3"
    using holds_ack [of "process_rst seg ?c1"] by (cases "ack (header seg)") (auto simp: process_ack_def)
  then have "?E (reply seg c3)" by (auto simp: reply_def Let_def intro!: holds_send holds_empty)
  then obtain c5 where "accept_syn seg (reply seg c3) = Some c5" "?E c5"
    using holds_connect [of "reply seg c3"] by (cases "syn (header seg) \<and> \<not> syn_sent (reply seg c3)")
      (auto simp: accept_syn_def)
  then show ?thesis
    using r(1) c3(1) by (simp add: conn_segment_received_def Let_def try_switching_close_mode_def holds_frame)
qed

lemma holds_destroy: "conn_holds S R Q c \<Longrightarrow> conn_holds S R Q (conn_destroy c)"
  by (auto simp: conn_destroy_def Let_def intro!: holds_reset holds_send holds_empty)

lemma holds_step:
  assumes "conn_holds S R Q c"
    and "case op of Write data \<Rightarrow> may_write (sender c) data | EndInput \<Rightarrow> may_close (sender c)
      | SegmentReceived seg \<Rightarrow> may_receive (receiver c) seg | ReadInbound len \<Rightarrow> may_read (receiver c) | _ \<Rightarrow> True"
  shows "\<exists>c'. conn_step op c = Some c' \<and> conn_holds S R Q c'"
proof (cases op)
  case (ReadInbound len)
  with keep_read [of "receiver c" len] assms show ?thesis by (auto simp: conn_holds_def)
next
  case TakeSegments
  with assms show ?thesis by (simp add: conn_holds_def)
next
  case (Write data)
  with holds_write [of c data] assms show ?thesis by auto
qed (use assms holds_connect [of c] holds_end_input [of c] holds_segment_received [of c] holds_tick [of c] in auto)

end

lemma snd_isn_fill_window: "snd_inv s \<Longrightarrow> fill_window s = Some s' \<Longrightarrow> snd_isn s' = snd_isn s"
  by (rule fill_window_ok [of s]) (auto simp: fill_rel_def)

lemma snd_isn_ack_received:
  assumes "snd_inv s" and "ack_received a w s = Some s'"
  shows "snd_isn s' = snd_isn s"
proof (cases rule: ack_received_cases [OF assms(1), of a w, case_names ignored accepted])
  case ignored
  then show ?thesis using assms(2) by simp
next
  case (accepted s1)
  have "snd_isn s' = snd_isn s1" using snd_isn_fill_window [OF accepted(3)] assms(2) accepted(6) by simp
  then show ?thesis by (subst (asm) accepted(4)) simp
qed

lemma snd_isn_simps [simp]: "snd_isn (snd_tick ms s) = snd_isn s" "snd_isn (send_empty_segment s) = snd_isn s"
  by (auto simp: snd_tick_def send_empty_segment_def Let_def split: list.split)

lemma ra_inv_set_error [simp]: "ra_inv (ra\<lparr>ra_output := set_error (ra_output ra)\<rparr>) = ra_inv ra"
  by (simp add: ra_inv_def ra_core_def window_end_def)

lemma on_stream_set_error [simp]:
  "on_stream f N c (ra\<lparr>ra_output := set_error (ra_output ra)\<rparr>) = on_stream f N c ra"
  by (simp add: on_stream_def content_def received_def)

lemma on_send_set_error [simp]: "on_send f N (s\<lparr>snd_stream := set_error (snd_stream s)\<rparr>) = on_send f N s"
  by (simp add: on_send_def snd_inv_def)

subsection \<open>Any input\<close>

definition rcv_ok :: "tcp_receiver \<Rightarrow> bool" where
  "rcv_ok r \<longleftrightarrow> ra_inv (rcv_reassembler r) \<and> 0 < unat (ra_capacity (rcv_reassembler r))"

definition fits_receive :: "tcp_receiver \<Rightarrow> tcp_segment \<Rightarrow> bool" where
  "fits_receive r seg \<longleftrightarrow> window_end (rcv_reassembler r) < 2 ^ 63 \<and> length (buffer_str (payload seg)) < 2 ^ 63"

definition fits_write :: "tcp_sender \<Rightarrow> bytes \<Rightarrow> bool" where
  "fits_write s data \<longleftrightarrow> wtn s + length data < 2 ^ 63"

lemma rcv_ok_segment:
  assumes "rcv_ok r" and "fits_receive r seg"
  shows "\<exists>r'. rcv_segment_received seg r = Some r' \<and> rcv_ok r'"
proof -
  let ?r1 = "if syn (header seg) then r\<lparr>syn_received := True, rcv_isn := seqno (header seg)\<rparr> else r"
  let ?i = "unwrap (seqno (header seg)) (rcv_isn ?r1) (bytes_written (rcv_stream_out ?r1) + 1) -
    (if syn (header seg) then 0 else 1)"
  have ra: "rcv_reassembler ?r1 = rcv_reassembler r" by simp
  obtain ra' where "push_substring (buffer_str (payload seg)) ?i (fin (header seg)) (rcv_reassembler r) = Some ra'"
    "ra_inv ra'" "ra_capacity ra' = ra_capacity (rcv_reassembler r)"
    using push_substring_total [of "rcv_reassembler r" "buffer_str (payload seg)" ?i "fin (header seg)"] assms
    by (auto simp: rcv_ok_def fits_receive_def)
  then show ?thesis
    using assms(1) ra by (auto simp: rcv_segment_received_def Let_def buffer_copy_def rcv_ok_def)
qed

lemma rcv_ok_read:
  assumes "rcv_ok r"
  shows "\<exists>x r'. read_inbound len r = Some (x, r') \<and> rcv_ok r'"
  using ra_inv_consume [of "rcv_reassembler r" len] assms
  by (auto simp: rcv_ok_def read_inbound_def rcv_stream_out_def)

lemma snd_inv_ack:
  assumes inv: "snd_inv s"
  shows "\<exists>s'. ack_received a w s = Some s' \<and> snd_inv s'"
proof (cases rule: ack_received_cases [OF inv, of a w, case_names ignored accepted])
  case ignored
  have "unat (ucast w :: u64) < 2 ^ 16" using unat_u16_less [of w] by (simp add: unat_ucast_mod)
  then show ?thesis using ignored(1) inv by (simp add: snd_inv_def)
next
  case (accepted s1)
  then show ?thesis using fill_window_ok [OF accepted(3)] by metis
qed

lemma snd_inv_tick: "snd_inv s \<Longrightarrow> snd_inv (snd_tick ms s)"
  by (cases "outstanding s") (simp_all add: snd_tick_def Let_def snd_inv_def)

lemma snd_inv_empty: "snd_inv s \<Longrightarrow> snd_inv (send_empty_segment s)"
  by (simp add: send_empty_segment_def Let_def)

lemma snd_inv_set_error: "snd_inv s \<Longrightarrow> snd_inv (s\<lparr>snd_stream := set_error (snd_stream s)\<rparr>)"
  by (simp add: snd_inv_def)

lemma rcv_ok_set_error:
  "rcv_ok r \<Longrightarrow> rcv_ok (r\<lparr>rcv_reassembler := (rcv_reassembler r)\<lparr>ra_output := set_error (ra_output (rcv_reassembler r))\<rparr>\<rparr>)"
  by (simp add: rcv_ok_def)

interpretation any_input: connection_parts snd_inv rcv_ok "\<lambda>seg. True" fits_write "\<lambda>s. True" fits_receive "\<lambda>r. True"
proof unfold_locales
  fix s :: tcp_sender assume "snd_inv s"
  then show "\<exists>s'. fill_window s = Some s' \<and> snd_inv s'" using fill_window_ok by metis
qed (simp_all add: snd_inv_ack snd_inv_tick snd_inv_empty snd_inv_write(1) fits_write_def snd_inv_end_input
    snd_inv_set_error rcv_ok_set_error rcv_ok_segment rcv_ok_read)

end
