(* ===== verification/TCP_Lifecycle.thy ===== *)
theory TCP_Lifecycle
  imports TCP_Connection
begin

text \<open>
  The life of one TCP endpoint, over the operations of \<open>libsponge/tcp_connection.cc\<close>: runs of calls and
  incoming segments, the handshake, the ways a connection ends, and the silence afterwards.
\<close>

subsection \<open>Runs\<close>

fun run_conn :: "conn_op list \<Rightarrow> tcp_connection \<Rightarrow> tcp_connection option" where
  "run_conn [] c = Some c"
| "run_conn (op # ops) c = Option.bind (conn_step op c) (run_conn ops)"

definition fits_op :: "conn_op \<Rightarrow> tcp_connection \<Rightarrow> bool" where
  "fits_op op c = (case op of Write data \<Rightarrow> fits_write (sender c) data
     | SegmentReceived seg \<Rightarrow> fits_receive (receiver c) seg | _ \<Rightarrow> True)"

fun fits_ops :: "conn_op list \<Rightarrow> tcp_connection \<Rightarrow> bool" where
  "fits_ops [] c \<longleftrightarrow> True"
| "fits_ops (op # ops) c \<longleftrightarrow> fits_op op c \<and> (case conn_step op c of None \<Rightarrow> True | Some c' \<Rightarrow> fits_ops ops c')"

definition conn_inv :: "tcp_connection \<Rightarrow> bool" where
  "conn_inv = conn_holds snd_inv rcv_ok (\<lambda>seg. True)"

lemma conn_inv_new:
  assumes "0 < unat (recv_capacity config)" and "unat (recv_capacity config) < 2 ^ 63"
    and "0 < unat (send_capacity config)" and "unat (send_capacity config) < 2 ^ 63"
  shows "conn_inv (conn_new config random)"
proof -
  have "ra_inv (ra_new (recv_capacity config))"
    using on_stream_new [OF assms(2), of undefined 0] by (simp add: on_stream_def)
  moreover have "snd_inv (snd_new (send_capacity config) (rt_timeout config) (fixed_isn config) random)"
    using on_send_new [OF assms(3,4), of undefined 0] by (simp add: on_send_def)
  ultimately show ?thesis
    using assms(1) by (simp add: conn_inv_def conn_holds_def conn_new_def rcv_ok_def rcv_new_def)
      (simp add: ra_new_def)
qed

lemma conn_inv_run:
  assumes "conn_inv c" and "fits_ops ops c"
  shows "\<exists>c'. run_conn ops c = Some c' \<and> conn_inv c'"
  using assms
proof (induction ops arbitrary: c)
  case Nil
  then show ?case by simp
next
  case (Cons op ops)
  have "case op of Write data \<Rightarrow> fits_write (sender c) data | EndInput \<Rightarrow> True
      | SegmentReceived seg \<Rightarrow> fits_receive (receiver c) seg | _ \<Rightarrow> True"
    using Cons.prems(2) by (cases op) (simp_all add: fits_op_def)
  with any_input.holds_step [of c op] Cons.prems(1) obtain c' where "conn_step op c = Some c'" "conn_inv c'"
    by (auto simp: conn_inv_def)
  with Cons show ?case by simp
qed

subsection \<open>An inactive connection\<close>

lemma send_segments_inactive: "\<not> active c \<Longrightarrow> send_segments b c = c"
  by (simp add: send_segments_def)

lemma active_simps [simp]:
  "active (c\<lparr>sender := s\<rparr>) = active c" "active (c\<lparr>receiver := r\<rparr>) = active c"
  "active (c\<lparr>last_segm_recv_timer := t\<rparr>) = active c" "active (c\<lparr>linger := l\<rparr>) = active c"
  "active (c\<lparr>conn_active := a\<rparr>) = a" "\<not> active (conn_reset c)"
  "active (send_segments b c) = active c"
  by (simp_all add: active_def conn_reset_def Let_def send_segments_def)

lemma conn_segments_out_reset [simp]: "conn_segments_out (conn_reset c) = conn_segments_out c"
  by (simp add: conn_reset_def Let_def)

definition silent :: "tcp_connection \<Rightarrow> tcp_connection \<Rightarrow> bool" where
  "silent c c' \<longleftrightarrow> (\<not> active c \<longrightarrow> \<not> active c' \<and> conn_segments_out c' = conn_segments_out c)"

lemma silent_trans: "silent a b \<Longrightarrow> silent b c \<Longrightarrow> silent a c"
  by (simp add: silent_def)

lemma silent_with_sender: "with_sender f c = Some c' \<Longrightarrow> silent c c'"
  by (auto simp: with_sender_def silent_def)

lemma silent_send: "silent c (send_segments b c)"
  by (simp add: silent_def send_segments_inactive)

lemma silent_connect: "connect c = Some c' \<Longrightarrow> silent c c'"
  by (auto simp: connect_def intro: silent_trans silent_with_sender silent_send)

lemma silent_segment_received:
  assumes "conn_segment_received seg c = Some c'"
  shows "silent c c'"
proof -
  obtain r c3 c5 where r: "process_ack seg (process_rst seg (c\<lparr>receiver := r, last_segm_recv_timer := 0\<rparr>)) = Some c3"
    "accept_syn seg (reply seg c3) = Some c5" "c' = try_switching_close_mode c5"
    using assms by (auto simp: conn_segment_received_def Let_def bind_eq_Some_conv)
  have "silent c (process_rst seg (c\<lparr>receiver := r, last_segm_recv_timer := 0\<rparr>))"
    by (simp add: silent_def process_rst_def)
  moreover have "silent (process_rst seg (c\<lparr>receiver := r, last_segm_recv_timer := 0\<rparr>)) c3"
    using r(1) by (auto simp: process_ack_def silent_def split: if_splits
       dest: silent_with_sender [unfolded silent_def])
  moreover have "silent c3 (reply seg c3)" by (simp add: silent_def reply_def Let_def send_segments_inactive)
  moreover have "silent (reply seg c3) c5"
    using r(2) by (auto simp: accept_syn_def silent_def split: if_splits dest: silent_connect [unfolded silent_def])
  moreover have "silent c5 c'" using r(3) by (simp add: silent_def try_switching_close_mode_def)
  ultimately show ?thesis using silent_trans by blast
qed

lemma inactive_step:
  assumes "\<not> active c" and "conn_step op c = Some c'"
  shows "\<not> active c' \<and> set (conn_segments_out c') \<subseteq> set (conn_segments_out c)"
proof -
  have "silent c c' \<or> op = TakeSegments"
  proof (cases op)
    case EndInput
    then show ?thesis
      using assms by (auto simp: end_input_stream_def Let_def try_closing_connection_def with_sender_def silent_def)
  next
    case (Write data)
    then show ?thesis
      using assms by (auto simp: conn_write_def Let_def case_prod_unfold send_segments_inactive with_sender_def
          silent_def split: if_splits)
  next
    case (Tick ms)
    then show ?thesis using assms by (auto simp: conn_tick_def silent_def)
  next
    case (ReadInbound len)
    then show ?thesis using assms by (auto simp: silent_def)
  qed (use assms silent_connect silent_segment_received in auto)
  then show ?thesis using assms by (auto simp: silent_def active_def)
qed

lemma inactive_run:
  assumes "\<not> active c" and "run_conn ops c = Some c'"
  shows "\<not> active c' \<and> set (conn_segments_out c') \<subseteq> set (conn_segments_out c)"
  using assms
proof (induction ops arbitrary: c)
  case (Cons op ops)
  then obtain c1 where "conn_step op c = Some c1" "run_conn ops c1 = Some c'" by (auto simp: bind_eq_Some_conv)
  with inactive_step [OF Cons.prems(1)] Cons.IH show ?case by blast
qed simp

subsection \<open>Closing\<close>

lemma all_acked:
  assumes "snd_inv s" and "akd s = nxt s"
  shows "outstanding s = []"
proof (cases "outstanding s")
  case (Cons o1 os)
  obtain k where "covers k (outstanding s) (nxt s)" using assms(1) by (auto simp: snd_inv_def)
  then have "k + unat (length_in_sequence_space (os_segment o1)) \<le> nxt s" "unat (os_seqno o1) = k"
    using Cons covers_le by auto
  moreover have "head_unacked (akd s) (outstanding s)" using assms(1) by (simp add: snd_inv_def)
  ultimately show ?thesis using Cons assms(2) by simp
qed

lemma ostream_done_acked:
  assumes inv: "snd_inv (sender c)" and d: "ostream_done c"
  shows "bs_eof (snd_stream (sender c)) \<and> akd (sender c) = wtn (sender c) + 2 \<and> outstanding (sender c) = []"
proof -
  let ?s = "sender c"
  have "unat (bytes_written (snd_stream ?s) + 2) = wtn ?s + 2"
    using snd_invD(4) [OF inv] by (simp add: bytes_written_def unat_simps)
  then have n: "nxt ?s = wtn ?s + 2" using d by (simp add: ostream_done_def next_seqno_absolute_def)
  have "akd ?s = nxt ?s" using d by (simp add: ostream_done_def bytes_in_flight_def)
  with n all_acked [OF inv this] d show ?thesis by (simp add: ostream_done_def)
qed

definition clean_shutdown :: "tcp_connection \<Rightarrow> bool" where
  "clean_shutdown c \<longleftrightarrow>
     input_ended (rcv_stream_out (receiver c)) \<and> rcv_unassembled_bytes (receiver c) = 0 \<and>
     bs_eof (snd_stream (sender c)) \<and> akd (sender c) = wtn (sender c) + 2 \<and> outstanding (sender c) = [] \<and>
     (linger c \<longrightarrow> unat (last_segm_recv_timer c) \<ge> 10 * unat (rt_timeout (cfg c)))"

lemma linger_time: "unat (10 * ucast (t :: u16) :: u64) = 10 * unat t"
proof -
  have "unat (ucast t :: u64) = unat t" using unat_u16_less [of t] by (simp add: unat_ucast_mod)
  then show ?thesis using unat_u16_less [of t] by (simp add: unat_word_ariths)
qed

lemma try_closing_cases:
  assumes "snd_inv (sender c)" and "active c" and "\<not> active (try_closing_connection c)"
  shows "clean_shutdown (try_closing_connection c)"
proof -
  let ?c = "send_segments False c"
  have inv: "snd_inv (sender ?c)" using assms(1) by (simp add: send_segments_def)
  have t: "try_closing_connection c = ?c\<lparr>conn_active := False\<rparr>" "istream_done ?c" "ostream_done ?c"
    "linger ?c \<longrightarrow> last_segm_recv_timer ?c \<ge> 10 * ucast (rt_timeout (cfg ?c))"
    using assms(2,3) by (auto simp: try_closing_connection_def Let_def split: if_splits)
  show ?thesis
    unfolding t(1) clean_shutdown_def using ostream_done_acked [OF inv t(3)] t(2,4)
    by (simp add: istream_done_def word_le_nat_alt linger_time)
qed

definition aborted :: "tcp_connection \<Rightarrow> bool" where
  "aborted c \<longleftrightarrow> bs_error (snd_stream (sender c)) \<and> bs_error (rcv_stream_out (receiver c)) \<and>
     conn_segments_out c \<noteq> [] \<and> rst (header (last (conn_segments_out c)))"

lemma aborted_reset:
  assumes "active c" and "segments_out (sender c) \<noteq> []"
  shows "aborted (conn_reset (send_segments True c))"
  using assms by (cases "segments_out (sender c)" rule: rev_cases)
    (simp_all add: aborted_def conn_reset_def Let_def send_segments_def send_loop_eq stamp_def bs_error_def
      set_error_def rcv_stream_out_def)

lemma aborted_destroy:
  assumes "active c"
  shows "aborted (conn_destroy c) \<and> \<not> active (conn_destroy c)"
proof -
  let ?c = "if segments_out (sender c) = [] then c\<lparr>sender := send_empty_segment (sender c)\<rparr> else c"
  have "active ?c" "segments_out (sender ?c) \<noteq> []"
    using assms by (simp_all add: send_empty_segment_def Let_def)
  from aborted_reset [OF this] assms show ?thesis by (simp add: conn_destroy_def Let_def)
qed

lemma tick_abort:
  assumes "active c" and "consecutive_retransmissions (snd_tick ms (sender c)) > MAX_RETX_ATTEMPTS"
  shows "aborted (conn_tick ms c) \<and> \<not> active (conn_tick ms c)"
proof -
  let ?c1 = "c\<lparr>sender := snd_tick ms (sender c), last_segm_recv_timer := last_segm_recv_timer c + ms\<rparr>"
  let ?c = "if segments_out (sender ?c1) = [] then ?c1\<lparr>sender := send_empty_segment (sender ?c1)\<rparr> else ?c1"
  have "active ?c" "segments_out (sender ?c) \<noteq> []"
    using assms(1) by (simp_all add: send_empty_segment_def Let_def)
  note aborted_reset [OF this]
  moreover have "conn_tick ms c = conn_reset (send_segments True ?c)"
    using assms by (simp add: conn_tick_def Let_def try_closing_connection_def)
  ultimately show ?thesis by simp
qed

lemma send_segments_again: "send_segments False (send_segments b c) = send_segments b c"
  by (simp add: send_segments_def active_def)

lemma try_closing_sent:
  assumes "active c" and "segments_out (sender c) = []"
  shows "conn_segments_out (try_closing_connection c) = conn_segments_out c"
    "segments_out (sender (try_closing_connection c)) = []"
  using assms by (simp_all add: try_closing_connection_def Let_def send_segments_def)

lemma tick_send:
  assumes "snd_inv (sender c)" and "active c" and "\<not> consecutive_retransmissions (snd_tick ms (sender c)) > MAX_RETX_ATTEMPTS"
  shows "(active (conn_tick ms c) \<or> clean_shutdown (conn_tick ms c)) \<and>
    segments_out (sender (conn_tick ms c)) = [] \<and>
    conn_segments_out (conn_tick ms c) =
      conn_segments_out c @ map (stamp False (receiver c)) (segments_out (snd_tick ms (sender c)))"
proof -
  define c1 where "c1 = send_segments False
    (c\<lparr>sender := snd_tick ms (sender c), last_segm_recv_timer := last_segm_recv_timer c + ms\<rparr>)"
  have t: "conn_tick ms c = try_closing_connection c1"
    using assms(2,3) by (simp add: conn_tick_def Let_def c1_def)
  have c1: "snd_inv (sender c1)" "active c1" "segments_out (sender c1) = []"
    "conn_segments_out c1 = conn_segments_out c @ map (stamp False (receiver c)) (segments_out (snd_tick ms (sender c)))"
    using assms(1,2) snd_inv_tick by (simp_all add: c1_def send_segments_def send_loop_eq active_def)
  show ?thesis unfolding t using try_closing_cases [OF c1(1,2)] try_closing_sent [OF c1(2,3)] c1(4) by auto
qed

subsection \<open>The handshake\<close>

lemma fill_window_idle:
  assumes "snd_inv s" and "buffered s = 0" and "\<not> input_ended (snd_stream s)" and "0 < nxt s"
  shows "fill_window s = Some s"
proof (cases "nxt s \<le> akd s + wnd s")
  case False
  then show ?thesis using guard_nat [OF assms(1)] by (subst fill_window.simps) simp
next
  case True
  have "next_len s = 0" using assms(2-4) length_next_data [of s] by (simp add: next_len_def next_syn_def next_fin_def)
  with fill_step_eq [OF assms(1) True] have "fill_step s = Some (False, s)" by auto
  then show ?thesis using guard_nat [OF assms(1)] True by (subst fill_window.simps) simp
qed

text \<open>The sender and the receiver of an endpoint during the handshake.\<close>

definition syn_segment :: "WrappingInt32 \<Rightarrow> tcp_segment" where
  "syn_segment isn = \<lparr>header = tcp_header_default\<lparr>syn := True, seqno := isn\<rparr>, payload = buffer_new []\<rparr>"

definition opens :: "tcp_sender \<Rightarrow> WrappingInt32 \<Rightarrow> tcp_sender \<Rightarrow> bool" where
  "opens s isn s' \<longleftrightarrow> fill_window s = Some s' \<and> snd_inv s' \<and> segments_out s' = [syn_segment isn] \<and>
     next_seqno s' = 1 \<and> abs_ackno s' = 0 \<and> snd_isn s' = isn \<and> snd_stream s' = snd_stream s"

lemma opens_new:
  fixes cap :: u64 and rto :: u16 and fixed :: "WrappingInt32 option" and random :: u32
  assumes "0 < unat cap" and "unat cap < 2 ^ 63"
  defines "s \<equiv> snd_new cap rto fixed random"
  shows "\<exists>s'. opens s (snd_isn s) s'"
proof -
  have inv: "snd_inv s" using on_send_new [OF assms(1,2), of undefined 0] by (simp add: on_send_def s_def)
  have n: "nxt s = 0" "akd s = 0" "wnd s = 1" "segments_out s = []" "next_seqno s = 0" "abs_ackno s = 0"
    "buffered s = 0" "\<not> input_ended (snd_stream s)"
    by (simp_all add: s_def snd_new_def bs_new_def input_ended_def)
  have r: "room s = 1" "next_syn s" "next_max s = 0" "\<not> next_fin s"
    using n by (simp_all add: room_def next_syn_def next_max_def next_fin_def)
  have d: "next_data s = []" "next_len s = 1" using r by (simp_all add: next_data_def next_len_def)
  have seg: "next_segment s = syn_segment (snd_isn s)"
    using n(5) r(2,4) d(1) by (simp add: next_segment_def syn_segment_def wrap_0 tcp_header_default_def)
  have rd: "bs_read (of_nat (next_max s)) (snd_stream s) = Some (next_data s, snd_stream s)"
    using bs_read_nothing [of "snd_stream s" "of_nat (next_max s)"] snd_invD(1,2) [OF inv] r(3) d(1) by simp
  have g: "nxt s \<le> akd s + wnd s" and nf: "\<not> fin_sent s" using n by (simp_all add: fin_sent_def bs_eof_def)
  let ?s = "advance s (snd_stream s)"
  have "fill_step s = Some (True, ?s)" using fill_step_eq [OF inv g] rd nf d(2) by auto
  then have fw: "fill_window s = fill_window ?s"
    using guard_nat [OF inv] g by (subst fill_window.simps) simp
  have inv': "snd_inv ?s" using d(2) by (intro snd_inv_advance [OF inv g nf _ rd]) simp
  have one: "next_seqno ?s = 1"
    using n(5) by (simp add: advance_def seg) (simp add: syn_segment_def length_in_sequence_space_def tcp_header_default_def)
  have "fill_window ?s = Some ?s"
    using inv' n one by (intro fill_window_idle) (simp_all, simp_all add: advance_def)
  then show ?thesis
    using fw inv' one n seg by (auto simp: opens_def) (simp_all add: advance_def)
qed

lemma push_nothing:
  assumes "0 < unat c"
  shows "push_substring [] 0 False (ra_new c) = Some (ra_new c)"
proof -
  have "0 < c" using assms by (simp add: word_less_nat_alt)
  moreover have "bs_write [] (bs_new c) = (0, bs_new c)"
    using assms by (simp add: bs_write_def bs_new_def Let_def size64_def)
  ultimately show ?thesis
    by (simp add: push_substring_def ra_new_def Let_def clip_chunk_def merge_def place_chunk_def check_eof_def
        buffer_size_def input_ended_def bs_new_def size64_def)
qed

lemma rcv_syn:
  assumes "0 < unat c" and "syn (header seg)" and "\<not> fin (header seg)" and "buffer_str (payload seg) = []"
  shows "rcv_segment_received seg (rcv_new c) =
    Some ((rcv_new c)\<lparr>syn_received := True, rcv_isn := seqno (header seg)\<rparr>)"
proof -
  have "unwrap (seqno (header seg)) (seqno (header seg)) 1 = 0"
    using unwrap_wrap [of 0 1 "seqno (header seg)"] by (simp add: wrap_0 dist_nat_def)
  then show ?thesis
    using assms push_nothing [OF assms(1)]
    by (simp add: rcv_segment_received_def Let_def buffer_copy_def rcv_new_def rcv_stream_out_def)
      (simp add: ra_new_def bs_new_def bytes_written_def)
qed

lemma rcv_first_ack:
  assumes "0 < unat c" and "\<not> syn (header seg)" and "\<not> fin (header seg)" and "buffer_str (payload seg) = []"
    and "seqno (header seg) = wrap 1 isn"
  shows "rcv_segment_received seg ((rcv_new c)\<lparr>syn_received := True, rcv_isn := isn\<rparr>) =
    Some ((rcv_new c)\<lparr>syn_received := True, rcv_isn := isn\<rparr>)"
proof -
  have "unwrap (wrap 1 isn) isn 1 = 1" using unwrap_wrap [of 1 1 isn] by (simp add: dist_nat_def)
  then show ?thesis
    using assms push_nothing [OF assms(1)]
    by (simp add: rcv_segment_received_def Let_def buffer_copy_def rcv_new_def rcv_stream_out_def)
      (simp add: ra_new_def bs_new_def bytes_written_def)
qed

lemma rcv_syn_ackno:
  "rcv_ackno ((rcv_new c)\<lparr>syn_received := True, rcv_isn := isn\<rparr>) = Some (wrap 1 isn)"
  "rcv_window_size ((rcv_new c)\<lparr>syn_received := True, rcv_isn := isn\<rparr>) = c"
  by (simp_all add: rcv_ackno_def rcv_window_size_def rcv_new_def rcv_stream_out_def ra_new_def bs_new_def
      bytes_written_def input_ended_def remaining_capacity_def)

text \<open>The acknowledgment of the SYN.\<close>

lemma opens_acked:
  assumes "opens s isn s'" and "buffered s = 0" and "\<not> input_ended (snd_stream s)"
  shows "\<exists>s2. ack_received (wrap 1 isn) w (s'\<lparr>segments_out := []\<rparr>) = Some s2 \<and> segments_out s2 = [] \<and>
    next_seqno s2 = 1 \<and> abs_ackno s2 = 1 \<and> snd_isn s2 = isn \<and> snd_stream s2 = snd_stream s"
proof -
  let ?s = "s'\<lparr>segments_out := []\<rparr>"
  have inv: "snd_inv ?s" using assms(1) by (simp add: opens_def)
  have n: "akd ?s = 0" "nxt ?s = 1" "snd_stream ?s = snd_stream s" "snd_isn ?s = isn"
    using assms(1) by (simp_all add: opens_def)
  have u: "unwrap (wrap 1 isn) (snd_isn ?s) (abs_ackno ?s) = 1"
    using unwrap_wrap [of 1 0 isn] assms(1) by (simp add: opens_def dist_nat_def)
  show ?thesis
  proof (cases rule: ack_received_cases [OF inv, of "wrap 1 isn" w, case_names ignored accepted])
    case ignored
    then show ?thesis using n u by simp
  next
    case (accepted s1)
    have f: "snd_stream s1 = snd_stream s" "nxt s1 = 1" "segments_out s1 = []" "next_seqno s1 = 1"
      "abs_ackno s1 = 1" "snd_isn s1 = isn"
      using n u assms(1) by (subst accepted(4), simp add: opens_def)+
    have "fill_window s1 = Some s1" using accepted(3) f assms(2,3) by (intro fill_window_idle) simp_all
    then show ?thesis using f accepted(6) by auto
  qed
qed

text \<open>One side of the handshake after its SYN is out, and when it is established.\<close>

definition half_open :: "tcp_config \<Rightarrow> u32 \<Rightarrow> tcp_sender \<Rightarrow> tcp_receiver \<Rightarrow> tcp_segment list \<Rightarrow> tcp_connection" where
  "half_open config random s r out = (conn_new config random)\<lparr>sender := s, receiver := r, conn_segments_out := out\<rparr>"

lemma established:
  assumes "next_seqno s = 1" and "abs_ackno s = 1" and "snd_stream s = bs_new cap"
  shows "conn_state (half_open config random s ((rcv_new c)\<lparr>syn_received := True, rcv_isn := i\<rparr>) out) =
    tcp_state_of_name ESTABLISHED"
  using assms
  by (simp add: conn_state_def half_open_def conn_new_def tcp_state_summary_def active_def mk_state_def
      sender_summary_def receiver_summary_def rcv_syn_ackno bytes_in_flight_def next_seqno_absolute_def)
    (simp add: bs_new_def bs_error_def bs_eof_def input_ended_def rcv_stream_out_def rcv_new_def ra_new_def)

abbreviation peer_seen :: "u64 \<Rightarrow> WrappingInt32 \<Rightarrow> tcp_receiver" where
  "peer_seen c isn \<equiv> (rcv_new c)\<lparr>syn_received := True, rcv_isn := isn\<rparr>"

lemma half_open_connect:
  assumes "opens (sender (conn_new config random)) isn s"
  shows "connect (conn_new config random) =
    Some (half_open config random (s\<lparr>segments_out := []\<rparr>) (rcv_new (recv_capacity config)) [syn_segment isn])"
  using assms
  by (simp add: connect_def with_sender_def opens_def half_open_def send_segments_def active_def send_loop_eq stamp_def)
    (simp add: conn_new_def rcv_ackno_def rcv_new_def)

lemma not_ended_new: "\<not> input_ended (rcv_stream_out (rcv_new c))"
  by (simp add: rcv_stream_out_def rcv_new_def ra_new_def bs_new_def input_ended_def)

lemma half_open_accept:
  assumes "opens (sender (conn_new config random)) isn s" and "0 < unat (recv_capacity config)"
  shows "conn_segment_received (syn_segment peer) (conn_new config random) =
    Some (half_open config random (s\<lparr>segments_out := []\<rparr>) (peer_seen (recv_capacity config) peer)
      [stamp False (peer_seen (recv_capacity config) peer) (syn_segment isn)])"
proof -
  let ?c = "conn_new config random" and ?r = "peer_seen (recv_capacity config) peer"
  have r: "rcv_segment_received (syn_segment peer) (receiver ?c) = Some ?r"
    using rcv_syn [OF assms(2), of "syn_segment peer"] by (simp add: syn_segment_def tcp_header_default_def conn_new_def)
  have n: "\<not> syn_sent (?c\<lparr>receiver := ?r, last_segm_recv_timer := 0\<rparr>)"
    by (simp add: syn_sent_def next_seqno_absolute_def conn_new_def snd_new_def)
  have f: "\<not> rst (header (syn_segment peer))" "\<not> ack (header (syn_segment peer))" "syn (header (syn_segment peer))"
    by (simp_all add: syn_segment_def tcp_header_default_def)
  have c: "connect (?c\<lparr>receiver := ?r, last_segm_recv_timer := 0\<rparr>) =
      Some (half_open config random (s\<lparr>segments_out := []\<rparr>) ?r [stamp False ?r (syn_segment isn)])"
    using assms(1)
    by (simp add: connect_def with_sender_def opens_def half_open_def send_segments_def active_def send_loop_eq)
      (simp add: conn_new_def)
  have "\<not> input_ended (rcv_stream_out ?r)" using not_ended_new by (simp add: rcv_stream_out_def)
  then show ?thesis
    using r n f c by (simp add: conn_segment_received_def Let_def process_rst_def process_ack_def reply_def
        accept_syn_def try_switching_close_mode_def half_open_def)
qed

lemma half_open_established:
  assumes "opens (sender (conn_new config random)) isn s" and "rcv_segment_received seg r = Some (peer_seen c peer)"
    and "ack (header seg)" and "ackno (header seg) = wrap 1 isn" and "\<not> rst (header seg)"
  defines "e \<equiv> \<lparr>header = tcp_header_default\<lparr>seqno := wrap 1 isn\<rparr>, payload = buffer_empty_new\<rparr>"
  shows "\<exists>s2. conn_segment_received seg (half_open config random (s\<lparr>segments_out := []\<rparr>) r []) =
      Some (half_open config random s2 (peer_seen c peer)
        (if length_in_sequence_space seg > 0 then [stamp False (peer_seen c peer) e] else [])) \<and>
    next_seqno s2 = 1 \<and> abs_ackno s2 = 1 \<and> snd_stream s2 = bs_new (send_capacity config)"
proof -
  let ?str = "snd_stream (sender (conn_new config random))"
  have str: "?str = bs_new (send_capacity config)" by (simp add: conn_new_def snd_new_def)
  have "unat (cur_size ?str) = 0" "\<not> input_ended ?str" unfolding str by (simp_all add: bs_new_def input_ended_def)
  then obtain s2 where s2: "ack_received (wrap 1 isn) (win (header seg)) (s\<lparr>segments_out := []\<rparr>) = Some s2"
    "segments_out s2 = []" "next_seqno s2 = 1" "abs_ackno s2 = 1" "snd_isn s2 = isn" "snd_stream s2 = ?str"
    using opens_acked [OF assms(1)] by blast
  have ne: "\<not> input_ended (rcv_stream_out (peer_seen c peer))"
    using not_ended_new by (simp add: rcv_stream_out_def)
  let ?c = "half_open config random (s\<lparr>segments_out := []\<rparr>) r []"
  have pa: "process_ack seg (process_rst seg (?c\<lparr>receiver := peer_seen c peer, last_segm_recv_timer := 0\<rparr>)) =
      Some (half_open config random s2 (peer_seen c peer) [])"
    using assms(3-5) s2(1) by (simp add: process_ack_def process_rst_def with_sender_def half_open_def conn_new_def)
  have sent: "syn_sent (half_open config random t (peer_seen c peer) out)" if "next_seqno t = 1" for t out
    using that by (simp add: syn_sent_def half_open_def next_seqno_absolute_def)
  have "reply seg (half_open config random s2 (peer_seen c peer) []) =
      half_open config random (s2\<lparr>segments_out := []\<rparr>) (peer_seen c peer)
        (if length_in_sequence_space seg > 0 then [stamp False (peer_seen c peer) e] else [])"
    using sent [OF s2(3)] s2 by (simp add: reply_def Let_def half_open_def send_segments_def active_def send_loop_eq
       send_empty_segment_def e_def) (simp add: conn_new_def)
  moreover have "s2\<lparr>segments_out := []\<rparr> = s2" using s2(2) by (cases s2) simp
  ultimately have rp: "reply seg (half_open config random s2 (peer_seen c peer) []) =
      half_open config random s2 (peer_seen c peer)
        (if length_in_sequence_space seg > 0 then [stamp False (peer_seen c peer) e] else [])"
    by simp
  have f: "receiver (half_open config random t q out) = q" for t q out by (simp add: half_open_def)
  show ?thesis
    using s2(3,4,6) str sent [OF s2(3)] ne
    by (intro exI [of _ s2]) (simp add: conn_segment_received_def f assms(2) pa rp accept_syn_def
       try_switching_close_mode_def)
qed

subsection \<open>Properties\<close>

text \<open>
  C5. No sequence of calls makes a connection throw or hang: from a new connection whose two
  streams have a capacity between 1 and \<open>2 ^ 63 - 1\<close>, any interleaving of \<open>connect\<close>, \<open>write\<close>,
  \<open>end_input_stream\<close>, \<open>tick\<close>, reads of the inbound stream, emptying of the output queue, and of
  arbitrary incoming segments, forged ones included, returns and keeps the invariants of the sender
  and of the receiver, as long as no stream goes past \<open>2 ^ 63\<close> bytes.
\<close>

theorem connection_survives_any_input:
  assumes "0 < unat (recv_capacity config)" and "unat (recv_capacity config) < 2 ^ 63"
    and "0 < unat (send_capacity config)" and "unat (send_capacity config) < 2 ^ 63"
    and "fits_ops ops (conn_new config random)"
  shows "\<exists>c. run_conn ops (conn_new config random) = Some c \<and> snd_inv (sender c) \<and>
    ra_inv (rcv_reassembler (receiver c)) \<and> ra_inv (rcv_reassembler (receiver (conn_destroy c)))"
proof -
  obtain c where c: "run_conn ops (conn_new config random) = Some c" "conn_inv c"
    using conn_inv_run [OF conn_inv_new [OF assms(1-4)] assms(5)] by blast
  have "conn_inv (conn_destroy c)" using c(2) any_input.holds_destroy by (simp add: conn_inv_def)
  with c show ?thesis by (auto simp: conn_inv_def conn_holds_def rcv_ok_def)
qed

theorem connection_survives_any_input_witness:
  "\<exists>c. run_conn [SegmentReceived \<lparr>header = tcp_header_default\<lparr>fin := True, rst := True\<rparr>, payload = buffer_new [1, 2]\<rparr>,
       Connect, Tick 5] (conn_new tcp_config_default 7) = Some c"
proof -
  let ?seg = "\<lparr>header = tcp_header_default\<lparr>fin := True, rst := True\<rparr>, payload = buffer_new [1, 2]\<rparr>"
  let ?ops = "[SegmentReceived ?seg, Connect, Tick 5]"
  have "window_end (rcv_reassembler (receiver (conn_new tcp_config_default 7))) = 64000"
    by (simp add: conn_new_def rcv_new_def ra_new_def bs_new_def window_end_def tcp_config_default_def
        DEFAULT_CAPACITY_def)
  then have "fits_ops ?ops (conn_new tcp_config_default 7)"
    by (simp add: fits_op_def fits_receive_def split: option.split)
  then show ?thesis
    using connection_survives_any_input [of tcp_config_default ?ops 7]
    by (auto simp: tcp_config_default_def DEFAULT_CAPACITY_def)
qed

text \<open>
  C24. A connection that is not active never becomes active again and never sends: whatever is
  called on it, and whatever arrives, its output queue only holds segments it held before.
\<close>

theorem closed_connection_silent:
  assumes "\<not> active c" and "run_conn ops c = Some c'"
  shows "\<not> active c' \<and> set (conn_segments_out c') \<subseteq> set (conn_segments_out c)"
  using inactive_run [OF assms] .

theorem closed_connection_silent_witness:
  "\<exists>c'. run_conn [Connect] (conn_reset (conn_new tcp_config_default 7)) = Some c' \<and> conn_segments_out c' = []"
proof -
  let ?c = "conn_reset (conn_new tcp_config_default 7)"
  have "conn_inv (conn_new tcp_config_default 7)"
    by (rule conn_inv_new) (simp_all add: tcp_config_default_def DEFAULT_CAPACITY_def)
  then have "conn_inv ?c" using any_input.holds_reset by (simp add: conn_inv_def)
  moreover have "fits_ops [Connect] ?c" by (simp add: fits_op_def split: option.split)
  ultimately obtain c' where c': "run_conn [Connect] ?c = Some c'" using conn_inv_run by blast
  then have "set (conn_segments_out c') \<subseteq> set (conn_segments_out ?c)"
    using closed_connection_silent [of ?c "[Connect]" c'] by simp
  then show ?thesis using c' by (simp add: conn_new_def)
qed

text \<open>
  C23. What a tick of an active connection does. If the sender has now retransmitted more often in a
  row than \<open>MAX_RETX_ATTEMPTS\<close>, the connection ends: both streams are in error and a segment with
  the RST flag is the last one queued. Otherwise the sender's segments are queued, stamped with the
  acknowledgment and the window, and the connection stays active unless it shuts down cleanly: the
  inbound stream has ended with nothing left to assemble, the outbound stream has been read and
  acknowledged whole with its SYN and FIN, nothing is outstanding, and a lingering connection has
  heard nothing for ten times the initial timeout.
\<close>

theorem tick_outcome:
  assumes "snd_inv (sender c)" and "active c"
  shows "if consecutive_retransmissions (snd_tick ms (sender c)) > MAX_RETX_ATTEMPTS
    then aborted (conn_tick ms c) \<and> \<not> active (conn_tick ms c)
    else (active (conn_tick ms c) \<or> clean_shutdown (conn_tick ms c)) \<and>
      segments_out (sender (conn_tick ms c)) = [] \<and>
      conn_segments_out (conn_tick ms c) =
        conn_segments_out c @ map (stamp False (receiver c)) (segments_out (snd_tick ms (sender c)))"
  using tick_abort [OF assms(2)] tick_send [OF assms] by simp

theorem tick_outcome_witness:
  "aborted (conn_tick 1000 (let c = conn_new tcp_config_default 7 in
      c\<lparr>sender := (sender c)\<lparr>n_consec_retx := 9\<rparr>\<rparr>))"
proof -
  let ?c = "let c = conn_new tcp_config_default 7 in c\<lparr>sender := (sender c)\<lparr>n_consec_retx := 9\<rparr>\<rparr>"
  have "conn_inv (conn_new tcp_config_default 7)"
    by (rule conn_inv_new) (simp_all add: tcp_config_default_def DEFAULT_CAPACITY_def)
  then have inv: "snd_inv (sender ?c)" by (simp add: conn_inv_def conn_holds_def Let_def)
  have a: "active ?c" by (simp add: Let_def active_def conn_new_def)
  have "consecutive_retransmissions (snd_tick 1000 (sender ?c)) > MAX_RETX_ATTEMPTS"
    by (simp add: Let_def conn_new_def snd_new_def snd_tick_def timer_expired_def consecutive_retransmissions_def
        tcp_config_default_def MAX_RETX_ATTEMPTS_def)
  with tick_outcome [OF inv a, of 1000] show ?thesis by simp
qed

text \<open>
  C16. The three-way handshake. A client connects; the server, a new connection, receives the
  client's one segment; the client receives the server's one segment, and the server the client's
  one reply. Both then are in the state ESTABLISHED, for all configurations with usable capacities
  and all initial sequence numbers. The window the server advertises is its free capacity modulo
  \<open>2 ^ 16\<close>: a server with a capacity of 65536 bytes advertises a window of zero.
\<close>

theorem handshake:
  assumes "0 < unat (recv_capacity ccfg)" and "0 < unat (send_capacity ccfg)" and "unat (send_capacity ccfg) < 2 ^ 63"
    and "0 < unat (recv_capacity scfg)" and "0 < unat (send_capacity scfg)" and "unat (send_capacity scfg) < 2 ^ 63"
  shows "\<exists>c1 c2 s1 s2 sg1 sg2 sg3. connect (conn_new ccfg cr) = Some c1 \<and> conn_segments_out c1 = [sg1] \<and>
    conn_segment_received sg1 (conn_new scfg sr) = Some s1 \<and> conn_segments_out s1 = [sg2] \<and>
    conn_segment_received sg2 (c1\<lparr>conn_segments_out := []\<rparr>) = Some c2 \<and> conn_segments_out c2 = [sg3] \<and>
    conn_segment_received sg3 (s1\<lparr>conn_segments_out := []\<rparr>) = Some s2 \<and> conn_segments_out s2 = [] \<and>
    tcp_state_eq (conn_state c2) (tcp_state_of_name ESTABLISHED) \<and>
    tcp_state_eq (conn_state s2) (tcp_state_of_name ESTABLISHED) \<and>
    unat (win (header sg2)) = unat (recv_capacity scfg) mod 2 ^ 16"
proof -
  let ?cs = "sender (conn_new ccfg cr)" and ?ss = "sender (conn_new scfg sr)"
  let ?ci = "snd_isn ?cs" and ?si = "snd_isn ?ss"
  obtain x y where x: "opens ?cs ?ci x" and y: "opens ?ss ?si y"
    using opens_new [OF assms(2,3)] opens_new [OF assms(5,6)] by (fastforce simp: conn_new_def)
  let ?rs = "peer_seen (recv_capacity scfg) ?ci" and ?rc = "peer_seen (recv_capacity ccfg) ?si"
  define sg2 where "sg2 = stamp False ?rs (syn_segment ?si)"
  define sg3 where "sg3 = stamp False ?rc \<lparr>header = tcp_header_default\<lparr>seqno := wrap 1 ?ci\<rparr>, payload = buffer_empty_new\<rparr>"
  have h2: "ack (header sg2)" "ackno (header sg2) = wrap 1 ?ci" "\<not> rst (header sg2)" "syn (header sg2)"
    "\<not> fin (header sg2)" "seqno (header sg2) = ?si" "buffer_str (payload sg2) = []"
    "win (header sg2) = ucast (recv_capacity scfg)" "length_in_sequence_space sg2 > 0"
    by (simp_all add: sg2_def stamp_def rcv_syn_ackno syn_segment_def tcp_header_default_def
        length_in_sequence_space_def)
  have h3: "ack (header sg3)" "ackno (header sg3) = wrap 1 ?si" "\<not> rst (header sg3)" "\<not> syn (header sg3)"
    "\<not> fin (header sg3)" "seqno (header sg3) = wrap 1 ?ci" "buffer_str (payload sg3) = []"
    "length_in_sequence_space sg3 = 0"
    by (simp_all add: sg3_def stamp_def rcv_syn_ackno tcp_header_default_def length_in_sequence_space_def)
  have r2: "rcv_segment_received sg2 (rcv_new (recv_capacity ccfg)) = Some ?rc"
    using rcv_syn [OF assms(1), of sg2] h2 by simp
  obtain x2 where x2: "conn_segment_received sg2 (half_open ccfg cr (x\<lparr>segments_out := []\<rparr>) (rcv_new (recv_capacity ccfg)) []) =
      Some (half_open ccfg cr x2 ?rc [sg3])" "next_seqno x2 = 1" "abs_ackno x2 = 1" "snd_stream x2 = bs_new (send_capacity ccfg)"
    using half_open_established [OF x r2 h2(1-3)] h2(9) by (auto simp: sg3_def)
  obtain y2 where y2: "conn_segment_received sg3 (half_open scfg sr (y\<lparr>segments_out := []\<rparr>) ?rs []) =
      Some (half_open scfg sr y2 ?rs [])" "next_seqno y2 = 1" "abs_ackno y2 = 1" "snd_stream y2 = bs_new (send_capacity scfg)"
    using half_open_established [OF y rcv_first_ack [OF assms(4) h3(4,5,7,6)] h3(1-3)] h3(8) by auto
  have z: "(half_open config random s r out)\<lparr>conn_segments_out := []\<rparr> = half_open config random s r []"
    "conn_segments_out (half_open config random s r out) = out" for config random s r out
    by (simp_all add: half_open_def)
  show ?thesis
    using half_open_connect [OF x] half_open_accept [OF y assms(4), of ?ci] x2 y2 z h2(8)
      established [OF x2(2-4)] established [OF y2(2-4)]
    unfolding sg2_def [symmetric] by (simp add: tcp_state_eq_def unat_ucast_mod)
qed

theorem handshake_witness:
  "\<exists>c1 s1 sg1 sg2. connect (conn_new tcp_config_default 1) = Some c1 \<and> conn_segments_out c1 = [sg1] \<and>
    conn_segment_received sg1 (conn_new (tcp_config_default\<lparr>recv_capacity := 65536\<rparr>) 2) = Some s1 \<and>
    conn_segments_out s1 = [sg2] \<and> win (header sg2) = 0"
  using handshake [of tcp_config_default "tcp_config_default\<lparr>recv_capacity := 65536\<rparr>" 1 2]
  by (auto simp: tcp_config_default_def DEFAULT_CAPACITY_def word_eq_unat_iff)

end
