(* ===== verification/IPv4_Datagram.thy ===== *)
theory IPv4_Datagram
  imports Internet_Checksum
begin

text \<open>
  IPv4 headers and datagrams, \<open>libsponge/tcp_helpers/ipv4_header.hh\<close>, \<open>ipv4_header.cc\<close>,
  \<open>ipv4_datagram.hh\<close> and \<open>ipv4_datagram.cc\<close>. A throw is \<^const>\<open>None\<close>. Parsing writes into an
  existing object, so the old header and datagram are arguments. The textual forms \<open>to_string\<close> and
  \<open>summary\<close> are left out.
\<close>

record ipv4_header =
  ip_ver :: u8
  ip_hlen :: u8
  ip_tos :: u8
  ip_len :: u16
  ip_id :: u16
  ip_df :: bool
  ip_mf :: bool
  ip_offset :: u16
  ip_ttl :: u8
  ip_proto :: u8
  ip_cksum :: u16
  ip_src :: u32
  ip_dst :: u32

definition IPv4_LENGTH :: u64 where
  "IPv4_LENGTH = 20"

definition DEFAULT_TTL :: u8 where
  "DEFAULT_TTL = 128"

definition PROTO_TCP :: u8 where
  "PROTO_TCP = 6"

definition ipv4_header_default :: ipv4_header where
  "ipv4_header_default = \<lparr>ip_ver = 4, ip_hlen = ucast (IPv4_LENGTH div 4), ip_tos = 0, ip_len = 0, ip_id = 0,
     ip_df = True, ip_mf = False, ip_offset = 0, ip_ttl = DEFAULT_TTL, ip_proto = PROTO_TCP, ip_cksum = 0,
     ip_src = 0, ip_dst = 0\<rparr>"

definition ipv4_header_parse :: "net_parser \<Rightarrow> ipv4_header \<Rightarrow> (ParseResult \<times> ipv4_header \<times> net_parser) option" where
  "ipv4_header_parse p h =
     (let original_serialized_version = np_buffer p;
          data_size = buffer_sz (np_buffer p)
      in if data_size < IPv4_LENGTH then Some (PacketTooShort, h, p)
         else do {
           (first_byte, p) \<leftarrow> np_u8 p;
           (tos, p) \<leftarrow> np_u8 p;
           (len, p) \<leftarrow> np_u16 p;
           (ident, p) \<leftarrow> np_u16 p;
           (fo_val, p) \<leftarrow> np_u16 p;
           (ttl, p) \<leftarrow> np_u8 p;
           (proto, p) \<leftarrow> np_u8 p;
           (cksum, p) \<leftarrow> np_u16 p;
           (src, p) \<leftarrow> np_u32 p;
           (dst, p) \<leftarrow> np_u32 p;
           let h = \<lparr>ip_ver = drop_bit 4 first_byte, ip_hlen = first_byte AND 0x0f, ip_tos = tos, ip_len = len,
                    ip_id = ident, ip_df = (fo_val AND 0x4000 \<noteq> 0), ip_mf = (fo_val AND 0x2000 \<noteq> 0),
                    ip_offset = fo_val AND 0x1fff, ip_ttl = ttl, ip_proto = proto, ip_cksum = cksum,
                    ip_src = src, ip_dst = dst\<rparr>
           in if data_size < 4 * ucast (ip_hlen h) then Some (PacketTooShort, h, p)
              else if ip_ver h \<noteq> 4 then Some (WrongIPVersion, h, p)
              else if ip_hlen h < 5 then Some (HeaderTooShort, h, p)
              else if data_size \<noteq> ucast (ip_len h) then Some (TruncatedPacket, h, p)
              else do {
                p \<leftarrow> np_remove_prefix (ucast (ip_hlen h) * 4 - IPv4_LENGTH) p;
                if np_failed p then Some (np_error p, h, p)
                else
                  let check = ck_add (take (4 * unat (ip_hlen h)) (buffer_str original_serialized_version)) (ck_new 0)
                  in if ck_value check \<noteq> 0 then Some (BadChecksum, h, p) else Some (NoError, h, p)
              }
         })"

definition ipv4_header_serialize :: "ipv4_header \<Rightarrow> bytes option" where
  "ipv4_header_serialize h =
     (if ip_ver h \<noteq> 4 then None
      else if 4 * ucast (ip_hlen h) < IPv4_LENGTH then None
      else
        let first_byte = push_bit 4 (ip_ver h) OR (ip_hlen h AND 0xf);
            ret = unparse_u8 [] first_byte;
            ret = unparse_u8 ret (ip_tos h);
            ret = unparse_u16 ret (ip_len h);
            ret = unparse_u16 ret (ip_id h);
            fo_val = (if ip_df h then 0x4000 else 0) OR (if ip_mf h then 0x2000 else 0) OR (ip_offset h AND 0x1fff);
            ret = unparse_u16 ret fo_val;
            ret = unparse_u8 ret (ip_ttl h);
            ret = unparse_u8 ret (ip_proto h);
            ret = unparse_u16 ret (ip_cksum h);
            ret = unparse_u32 ret (ip_src h);
            ret = unparse_u32 ret (ip_dst h)
        in Some (resize (4 * unat (ip_hlen h)) ret))"

definition payload_length :: "ipv4_header \<Rightarrow> u16" where
  "payload_length h = ip_len h - 4 * ucast (ip_hlen h)"

definition pseudo_cksum :: "ipv4_header \<Rightarrow> u32" where
  "pseudo_cksum h =
     (let pcksum = drop_bit 16 (ip_src h) + (ip_src h AND 0xffff);
          pcksum = pcksum + (drop_bit 16 (ip_dst h) + (ip_dst h AND 0xffff));
          pcksum = pcksum + ucast (ip_proto h)
      in pcksum + ucast (payload_length h))"

record ipv4_datagram =
  dg_header :: ipv4_header
  dg_payload :: buffer_list

definition ipv4_datagram_default :: ipv4_datagram where
  "ipv4_datagram_default = \<lparr>dg_header = ipv4_header_default, dg_payload = []\<rparr>"

definition ipv4_datagram_parse :: "buffer \<Rightarrow> ipv4_datagram \<Rightarrow> (ParseResult \<times> ipv4_datagram) option" where
  "ipv4_datagram_parse buf d = do {
     (_, h, p) \<leftarrow> ipv4_header_parse (np_new buf) (dg_header d);
     let d = \<lparr>dg_header = h, dg_payload = bl_of_buffer (np_buffer p)\<rparr>
     in if bl_size (dg_payload d) \<noteq> ucast (payload_length (dg_header d)) then Some (PacketTooShort, d)
        else Some (np_error p, d)
   }"

definition ipv4_datagram_serialize :: "ipv4_datagram \<Rightarrow> buffer_list option" where
  "ipv4_datagram_serialize d =
     (if bl_size (dg_payload d) \<noteq> ucast (payload_length (dg_header d)) then None
      else
        let header_out = (dg_header d)\<lparr>ip_cksum := 0\<rparr>
        in do {
          header_zero_checksum \<leftarrow> ipv4_header_serialize header_out;
          let check = ck_add header_zero_checksum (ck_new 0);
              header_out = header_out\<lparr>ip_cksum := ck_value check\<rparr>
          in do {
            h1 \<leftarrow> ipv4_header_serialize header_out;
            Some (bl_append (bl_append [] (bl_of_string h1)) (dg_payload d))
          }
        })"

subsection \<open>The header of arbitrary bytes\<close>

text \<open>The fields as a function of the first twenty bytes.\<close>

definition ipv4_fields :: "bytes \<Rightarrow> ipv4_header" where
  "ipv4_fields bs =
     (let b0 = be_int (take 1 bs); fo = be_int (take 2 (drop 6 bs))
      in \<lparr>ip_ver = drop_bit 4 b0, ip_hlen = b0 AND 0x0f, ip_tos = be_int (take 1 (drop 1 bs)),
          ip_len = be_int (take 2 (drop 2 bs)), ip_id = be_int (take 2 (drop 4 bs)),
          ip_df = (fo AND 0x4000 \<noteq> 0), ip_mf = (fo AND 0x2000 \<noteq> 0), ip_offset = fo AND 0x1fff,
          ip_ttl = be_int (take 1 (drop 8 bs)), ip_proto = be_int (take 1 (drop 9 bs)),
          ip_cksum = be_int (take 2 (drop 10 bs)), ip_src = be_int (take 4 (drop 12 bs)),
          ip_dst = be_int (take 4 (drop 16 bs))\<rparr>)"

text \<open>The verdict on the header, in the order of the tests.\<close>

definition ipv4_verdict :: "bytes \<Rightarrow> ParseResult" where
  "ipv4_verdict bs =
     (let h = ipv4_fields bs
      in if length bs < 20 \<or> length bs < 4 * unat (ip_hlen h) then PacketTooShort
         else if ip_ver h \<noteq> 4 then WrongIPVersion
         else if unat (ip_hlen h) < 5 then HeaderTooShort
         else if length bs \<noteq> unat (ip_len h) then TruncatedPacket
         else if checksum 0 (take (4 * unat (ip_hlen h)) bs) \<noteq> 0 then BadChecksum
         else NoError)"

text \<open>How many bytes the header parser consumes.\<close>

definition ipv4_consumed :: "bytes \<Rightarrow> nat" where
  "ipv4_consumed bs = (if ipv4_verdict bs \<in> {NoError, BadChecksum} then 4 * unat (ip_hlen (ipv4_fields bs)) else 20)"

lemma unat_four_hlen: "unat (4 * ucast (x :: u8) :: u64) = 4 * unat x" "unat (ucast x * 4 :: u64) = 4 * unat x"
  using unat_u8_less [of x] by (simp_all add: unat_word_ariths unat_ucast_mod)

lemma ipv4_header_parse_track:
  assumes inv: "buffer_inv b" and bs: "bs = buffer_str b" and len: "20 \<le> length bs"
  shows "\<exists>p'. ipv4_header_parse (np_new b) h = Some (ipv4_verdict bs, ipv4_fields bs, p') \<and>
    np_track bs (ipv4_consumed bs) p' \<and> ipv4_consumed bs \<le> length bs"
proof -
  have "np_track bs 0 (np_new b)" using np_track_new [OF inv] by (simp add: bs)
  from np_track_u8 [OF this, of 1] len obtain p1 where 1: "np_u8 (np_new b) = Some (be_int (take 1 bs), p1)" "np_track bs 1 p1" by auto
  from np_track_u8 [OF 1(2), of 2] len obtain p2 where 2: "np_u8 p1 = Some (be_int (take 1 (drop 1 bs)), p2)" "np_track bs 2 p2" by auto
  from np_track_u16 [OF 2(2), of 4] len obtain p3 where 3: "np_u16 p2 = Some (be_int (take 2 (drop 2 bs)), p3)" "np_track bs 4 p3" by auto
  from np_track_u16 [OF 3(2), of 6] len obtain p4 where 4: "np_u16 p3 = Some (be_int (take 2 (drop 4 bs)), p4)" "np_track bs 6 p4" by auto
  from np_track_u16 [OF 4(2), of 8] len obtain p5 where 5: "np_u16 p4 = Some (be_int (take 2 (drop 6 bs)), p5)" "np_track bs 8 p5" by auto
  from np_track_u8 [OF 5(2), of 9] len obtain p6 where 6: "np_u8 p5 = Some (be_int (take 1 (drop 8 bs)), p6)" "np_track bs 9 p6" by auto
  from np_track_u8 [OF 6(2), of 10] len obtain p7 where 7: "np_u8 p6 = Some (be_int (take 1 (drop 9 bs)), p7)" "np_track bs 10 p7" by auto
  from np_track_u16 [OF 7(2), of 12] len obtain p8 where 8: "np_u16 p7 = Some (be_int (take 2 (drop 10 bs)), p8)" "np_track bs 12 p8" by auto
  from np_track_u32 [OF 8(2), of 16] len obtain p9 where 9: "np_u32 p8 = Some (be_int (take 4 (drop 12 bs)), p9)" "np_track bs 16 p9" by auto
  from np_track_u32 [OF 9(2), of 20] len obtain p10 where 10: "np_u32 p9 = Some (be_int (take 4 (drop 16 bs)), p10)" "np_track bs 20 p10" by auto
  let ?h = "ipv4_fields bs"
  let ?n = "ucast (ip_hlen ?h) * 4 - IPv4_LENGTH :: u64"
  from np_track_remove_prefix [OF 10(2), of ?n]
  obtain p11 where 11: "np_remove_prefix ?n p10 = Some p11" "np_track bs (20 + unat ?n) p11" by auto
  have n: "20 + unat ?n = 4 * unat (ip_hlen ?h)" if "5 \<le> unat (ip_hlen ?h)"
    using that by (simp add: unat_sub_no_wrap unat_four_hlen IPv4_LENGTH_def)
  have sz: "unat (buffer_sz (np_buffer (np_new b))) = length bs"
    using unat_buffer_sz [OF inv] by (simp add: np_new_def bs)
  have l16: "unat (ucast (ip_len ?h) :: u64) = unat (ip_len ?h)"
    using unat_u16_less [of "ip_len ?h"] by (simp add: unat_ucast_mod)
  have long: "\<not> buffer_sz (np_buffer (np_new b)) < IPv4_LENGTH"
    using sz len by (simp add: word_less_nat_alt IPv4_LENGTH_def)
  note steps = 1(1) 2(1) 3(1) 4(1) 5(1) 6(1) 7(1) 8(1) 9(1) 10(1)
  have c1: "buffer_sz (np_buffer (np_new b)) < 4 * ucast (ip_hlen ?h) \<longleftrightarrow> length bs < 4 * unat (ip_hlen ?h)"
    by (simp add: word_less_nat_alt sz unat_four_hlen)
  have c2: "ip_hlen ?h < 5 \<longleftrightarrow> unat (ip_hlen ?h) < 5" by (simp add: word_less_nat_alt)
  have c3: "buffer_sz (np_buffer (np_new b)) \<noteq> ucast (ip_len ?h) \<longleftrightarrow> length bs \<noteq> unat (ip_len ?h)"
    by (simp add: word_eq_unat_iff [where 'a = 64] sz l16)
  have c4: "ck_value (ck_add (take k (buffer_str (np_buffer (np_new b)))) (ck_new 0)) = checksum 0 (take k bs)" for k
    by (simp add: checksum_def np_new_def bs)
  have eq: "ipv4_header_parse (np_new b) h =
      (if length bs < 4 * unat (ip_hlen ?h) then Some (PacketTooShort, ?h, p10)
       else if ip_ver ?h \<noteq> 4 then Some (WrongIPVersion, ?h, p10)
       else if unat (ip_hlen ?h) < 5 then Some (HeaderTooShort, ?h, p10)
       else if length bs \<noteq> unat (ip_len ?h) then Some (TruncatedPacket, ?h, p10)
       else if np_failed p11 then Some (np_error p11, ?h, p11)
       else if checksum 0 (take (4 * unat (ip_hlen ?h)) bs) \<noteq> 0 then Some (BadChecksum, ?h, p11)
       else Some (NoError, ?h, p11))"
    unfolding ipv4_header_parse_def Let_def if_not_P [OF long] steps bind_simps
    unfolding ipv4_fields_def [of bs, unfolded Let_def, symmetric] 11(1) bind_simps
    unfolding c1 c2 c3 c4 by (rule refl)
  show ?thesis
    using eq len 10(2) 11(2) n np_track_error [OF 11(2)]
    by (auto simp: ipv4_verdict_def ipv4_consumed_def np_failed_def Let_def split: if_splits)
qed

subsection \<open>Parsing what was serialized\<close>

definition ipv4_flags :: "ipv4_header \<Rightarrow> u16" where
  "ipv4_flags h = (if ip_df h then 0x4000 else 0) OR (if ip_mf h then 0x2000 else 0) OR (ip_offset h AND 0x1fff)"

definition ipv4_header_bytes :: "ipv4_header \<Rightarrow> bytes" where
  "ipv4_header_bytes h = be_bytes (push_bit 4 (ip_ver h) OR (ip_hlen h AND 0xf)) @ be_bytes (ip_tos h) @
     be_bytes (ip_len h) @ be_bytes (ip_id h) @ be_bytes (ipv4_flags h) @ be_bytes (ip_ttl h) @ be_bytes (ip_proto h) @
     be_bytes (ip_cksum h) @ be_bytes (ip_src h) @ be_bytes (ip_dst h)"

definition ipv4_options :: "ipv4_header \<Rightarrow> bytes" where
  "ipv4_options h = replicate (4 * unat (ip_hlen h) - 20) 0"

definition ipv4_header_valid :: "ipv4_header \<Rightarrow> bool" where
  "ipv4_header_valid h \<longleftrightarrow> ip_ver h = 4 \<and> 5 \<le> unat (ip_hlen h) \<and> unat (ip_hlen h) < 16 \<and> unat (ip_offset h) < 8192"

lemma length_ipv4_header_bytes [simp]: "length (ipv4_header_bytes h) = 20"
  by (simp add: ipv4_header_bytes_def)

lemma ipv4_header_serialize_eq:
  assumes "ipv4_header_valid h"
  shows "ipv4_header_serialize h = Some (ipv4_header_bytes h @ ipv4_options h)"
proof -
  have "\<not> 4 * ucast (ip_hlen h) < IPv4_LENGTH"
    using assms by (simp add: word_less_nat_alt unat_four_hlen IPv4_LENGTH_def ipv4_header_valid_def)
  moreover have "resize (4 * unat (ip_hlen h)) (ipv4_header_bytes h) = ipv4_header_bytes h @ ipv4_options h"
    using assms by (simp add: resize_def ipv4_options_def ipv4_header_valid_def)
  ultimately show ?thesis
    using assms unfolding ipv4_header_serialize_def Let_def unparse_eq append_assoc append_Nil
      ipv4_flags_def [symmetric] ipv4_header_bytes_def [symmetric]
    by (simp add: ipv4_header_valid_def)
qed

lemma and_mask_small: "unat w < 2 ^ n \<Longrightarrow> w AND mask n = w" for w :: "'a :: len word"
  by (simp only: take_bit_eq_mask [symmetric] word_eq_unat_iff unsigned_take_bit_eq) (simp add: take_bit_eq_mod)

lemma first_byte_fields:
  fixes v l :: u8
  assumes "unat v < 16" and "unat l < 16"
  shows "drop_bit 4 (push_bit 4 v OR (l AND 0xf)) = v" "(push_bit 4 v OR (l AND 0xf)) AND 0x0f = l"
proof -
  have m: "(0xf :: u8) = mask 4" by (simp add: mask_eq_exp_minus_1)
  have l: "l AND mask 4 = l" using assms(2) by (intro and_mask_small) simp
  have "drop_bit 4 (l AND mask 4) = 0"
    by (intro bit_eqI) (simp add: bit_simps)
  then show "drop_bit 4 (push_bit 4 v OR (l AND 0xf)) = v"
    using drop_push_nibble [of v] assms(1) by (simp add: m word_less_nat_alt)
  have "push_bit 4 v AND mask 4 = 0" by (intro bit_eqI) (simp add: bit_simps)
  then show "(push_bit 4 v OR (l AND 0xf)) AND 0x0f = l"
    using l unfolding m bit.conj_disj_distrib2 by (simp add: and.assoc)
qed

lemma flags_fields:
  assumes "unat (ip_offset h) < 8192"
  shows "(ipv4_flags h AND 0x4000 \<noteq> 0) = ip_df h" "(ipv4_flags h AND 0x2000 \<noteq> 0) = ip_mf h"
    "ipv4_flags h AND 0x1fff = ip_offset h"
proof -
  have m: "(0x1fff :: u16) = mask 13" by (simp add: mask_eq_exp_minus_1)
  have o13: "ip_offset h AND 0x1fff = ip_offset h" unfolding m using assms by (intro and_mask_small) simp
  have "(ip_offset h AND 0x1fff) AND 0x4000 = 0" "(ip_offset h AND 0x1fff) AND 0x2000 = 0"
    by (simp_all add: and.assoc)
  then show "(ipv4_flags h AND 0x4000 \<noteq> 0) = ip_df h" "(ipv4_flags h AND 0x2000 \<noteq> 0) = ip_mf h"
    "ipv4_flags h AND 0x1fff = ip_offset h"
    using o13 unfolding ipv4_flags_def bit.conj_disj_distrib2 by (simp_all add: and.assoc)
qed

lemma ipv4_fields_bytes:
  assumes "ipv4_header_valid h"
  shows "ipv4_fields (ipv4_header_bytes h @ rest) = h"
proof -
  have "unat (ip_ver h) < 16" "unat (ip_hlen h) < 16" "unat (ip_offset h) < 8192"
    using assms by (simp_all add: ipv4_header_valid_def)
  note F = first_byte_fields [OF this(1,2)] flags_fields [OF this(3)]
  have n: "drop_bit 4 (push_bit 4 (ip_ver h)) = ip_ver h"
    using assms by (intro drop_push_nibble) (simp add: ipv4_header_valid_def)
  show ?thesis
    by (rule ipv4_header.equality) (simp_all add: ipv4_fields_def ipv4_header_bytes_def Let_def F n)
qed

definition ipv4_datagram_valid :: "ipv4_datagram \<Rightarrow> bool" where
  "ipv4_datagram_valid d \<longleftrightarrow> ipv4_header_valid (dg_header d) \<and>
     unat (ip_len (dg_header d)) = 4 * unat (ip_hlen (dg_header d)) + length (bl_concatenate (dg_payload d))"

lemma payload_length_valid:
  assumes "unat (ip_len h) = 4 * unat (ip_hlen h) + n"
  shows "unat (payload_length h) = n"
proof -
  have "unat (4 * ucast (ip_hlen h) :: u16) = 4 * unat (ip_hlen h)"
    using unat_u8_less [of "ip_hlen h"] by (simp add: unat_word_ariths unat_ucast_mod)
  then show ?thesis using assms by (simp add: payload_length_def unat_sub_no_wrap)
qed

lemma ipv4_header_bytes_cksum:
  "ipv4_header_bytes (h\<lparr>ip_cksum := v\<rparr>) =
     take 10 (ipv4_header_bytes h) @ be_bytes v @ be_bytes (ip_src h) @ be_bytes (ip_dst h)"
  by (simp add: ipv4_header_bytes_def ipv4_flags_def)

lemma ipv4_datagram_serialize_ok:
  assumes "ipv4_datagram_valid d"
  obtains bl h where "ipv4_datagram_serialize d = Some bl" "h = (dg_header d)\<lparr>ip_cksum := ip_cksum h\<rparr>"
    "bl_concatenate bl = ipv4_header_bytes h @ ipv4_options h @ bl_concatenate (dg_payload d)"
    "ipv4_header_valid h" "checksum 0 (ipv4_header_bytes h @ ipv4_options h) = 0"
proof
  let ?h = "dg_header d" and ?pre = "take 10 (ipv4_header_bytes (dg_header d))"
  let ?post = "be_bytes (ip_src ?h) @ be_bytes (ip_dst ?h) @ ipv4_options ?h"
  let ?v = "checksum 0 (?pre @ be_bytes (0 :: u16) @ ?post)"
  let ?out = "?h\<lparr>ip_cksum := ?v\<rparr>"
  let ?bl = "buffer_new (ipv4_header_bytes ?out @ ipv4_options ?out) # dg_payload d"
  have v: "ipv4_header_valid (?h\<lparr>ip_cksum := x\<rparr>)" for x
    using assms by (simp add: ipv4_datagram_valid_def ipv4_header_valid_def)
  have b: "ipv4_header_bytes (?h\<lparr>ip_cksum := x\<rparr>) @ ipv4_options (?h\<lparr>ip_cksum := x\<rparr>) = ?pre @ be_bytes x @ ?post" for x
    by (simp add: ipv4_header_bytes_cksum ipv4_options_def)
  have ser: "ipv4_header_serialize (?h\<lparr>ip_cksum := x\<rparr>) = Some (?pre @ be_bytes x @ ?post)" for x
    using ipv4_header_serialize_eq [OF v] b by simp
  have n: "length (bl_concatenate (dg_payload d)) < 2 ^ 16"
    "unat (ip_len ?h) = 4 * unat (ip_hlen ?h) + length (bl_concatenate (dg_payload d))"
    using assms unat_u16_less [of "ip_len ?h"] by (simp_all add: ipv4_datagram_valid_def)
  have sz: "bl_size (dg_payload d) = ucast (payload_length ?h)"
    using n payload_length_valid [OF n(2)]
    by (simp add: word_eq_unat_iff [where 'a = 64] bl_size_eq unat_simps unat_ucast_mod)
  have "ck_value (ck_add (?pre @ be_bytes (0 :: u16) @ ?post) (ck_new 0)) = ?v" by (simp add: checksum_def)
  then show "ipv4_datagram_serialize d = Some ?bl"
    unfolding ipv4_datagram_serialize_def Let_def b
    by (simp add: ser sz bl_of_string_def bl_of_buffer_def)
  show "?out = ?h\<lparr>ip_cksum := ip_cksum ?out\<rparr>" by simp
  show "bl_concatenate ?bl = ipv4_header_bytes ?out @ ipv4_options ?out @ bl_concatenate (dg_payload d)"
    by (simp add: bl_concatenate_eq)
  show "ipv4_header_valid ?out" by (rule v)
  have "length (?pre @ be_bytes ?v @ ?post) \<le> 80"
    using assms by (auto simp: ipv4_options_def ipv4_datagram_valid_def ipv4_header_valid_def)
  then have "summable 0 (?pre @ be_bytes ?v @ ?post)" by (intro summable_length) simp
  then show "checksum 0 (ipv4_header_bytes ?out @ ipv4_options ?out) = 0"
    unfolding b by (intro checksum_fill) simp_all
qed

text \<open>Parsing a datagram from arbitrary bytes.\<close>

lemma ipv4_datagram_parse_track:
  assumes "buffer_inv b" and "bs = buffer_str b" and "20 \<le> length bs"
  shows "\<exists>buf. ipv4_datagram_parse b d = Some (if length bs - ipv4_consumed bs = unat (payload_length (ipv4_fields bs))
        then NoError else PacketTooShort, \<lparr>dg_header = ipv4_fields bs, dg_payload = [buf]\<rparr>) \<and>
    buffer_str buf = drop (ipv4_consumed bs) bs \<and> buffer_inv buf"
proof -
  obtain p where p: "ipv4_header_parse (np_new b) (dg_header d) = Some (ipv4_verdict bs, ipv4_fields bs, p)"
    "np_track bs (ipv4_consumed bs) p" "ipv4_consumed bs \<le> length bs"
    using ipv4_header_parse_track [OF assms] by blast
  have c: "buffer_str (np_buffer p) = drop (ipv4_consumed bs) bs" "np_error p = NoError" "buffer_inv (np_buffer p)"
    using p(2,3) by (simp_all add: np_track_def np_contents_def np_inv_def)
  have "unat (buffer_sz (np_buffer p)) = length bs - ipv4_consumed bs"
    using unat_buffer_sz [OF c(3)] c(1) by simp
  then have "bl_size [np_buffer p] \<noteq> ucast (payload_length (ipv4_fields bs)) \<longleftrightarrow>
      length bs - ipv4_consumed bs \<noteq> unat (payload_length (ipv4_fields bs))"
    using unat_u16_less [of "payload_length (ipv4_fields bs)"]
    by (simp add: word_eq_unat_iff [where 'a = 64] bl_size_def unat_ucast_mod)
  with p(1) c show ?thesis by (simp add: ipv4_datagram_parse_def bl_of_buffer_def)
qed

lemma ipv4_datagram_parse_total:
  assumes "buffer_inv b"
  shows "\<exists>res d. ipv4_datagram_parse b d0 = Some (res, d) \<and>
    (res = NoError \<longrightarrow> (\<exists>buf. dg_payload d = [buf] \<and> buffer_inv buf \<and> length (buffer_str buf) \<le> length (buffer_str b)))"
proof (cases "20 \<le> length (buffer_str b)")
  case True
  from ipv4_datagram_parse_track [OF assms refl True, of d0] show ?thesis by auto
next
  case False
  have sz: "unat (buffer_sz b) = length (buffer_str b)" using unat_buffer_sz [OF assms] .
  then have "ipv4_header_parse (np_new b) h = Some (PacketTooShort, h, np_new b)" for h
    using False by (simp add: ipv4_header_parse_def Let_def np_new_def word_less_nat_alt IPv4_LENGTH_def)
  moreover have "np_buffer (np_new b) = b" by (simp add: np_new_def)
  ultimately show ?thesis using assms by (auto simp: ipv4_datagram_parse_def Let_def bl_of_buffer_def)
qed

lemma ipv4_valid_verdict:
  fixes rest :: bytes and h :: ipv4_header
  defines "w \<equiv> ipv4_header_bytes h @ ipv4_options h"
  assumes "ipv4_header_valid h" and "length (w @ rest) = unat (ip_len h)"
  shows "ipv4_verdict (w @ rest) = (if checksum 0 w = 0 then NoError else BadChecksum)"
    "ipv4_fields (w @ rest) = h" "ipv4_consumed (w @ rest) = length w" "length w = 4 * unat (ip_hlen h)"
proof -
  show f: "ipv4_fields (w @ rest) = h" using ipv4_fields_bytes [OF assms(2)] by (simp add: w_def)
  show n: "length w = 4 * unat (ip_hlen h)"
    using assms(2) by (simp add: w_def ipv4_options_def ipv4_header_valid_def)
  have "5 \<le> unat (ip_hlen h)" "ip_ver h = 4" using assms(2) by (simp_all add: ipv4_header_valid_def)
  then show "ipv4_verdict (w @ rest) = (if checksum 0 w = 0 then NoError else BadChecksum)"
    using n assms(3) by (simp add: ipv4_verdict_def f Let_def)
  then show "ipv4_consumed (w @ rest) = length w" using n f by (simp add: ipv4_consumed_def)
qed

text \<open>Bytes that read as the header \<open>h\<close>, in every way accepted, and the payload \<open>pl\<close>.\<close>

definition ipv4_reads :: "bytes \<Rightarrow> ipv4_header \<Rightarrow> bytes \<Rightarrow> bool" where
  "ipv4_reads bs h pl \<longleftrightarrow> (\<forall>b. buffer_inv b \<longrightarrow> buffer_str b = bs \<longrightarrow>
     (\<forall>h0. \<exists>p. ipv4_header_parse (np_new b) h0 = Some (NoError, h, p)) \<and>
     (\<forall>d0. \<exists>buf. ipv4_datagram_parse b d0 = Some (NoError, \<lparr>dg_header = h, dg_payload = [buf]\<rparr>) \<and>
        buffer_str buf = pl \<and> buffer_inv buf))"

lemma ipv4_readsD:
  assumes "ipv4_reads bs h pl" and "buffer_inv b" and "buffer_str b = bs"
  shows "\<exists>p. ipv4_header_parse (np_new b) h0 = Some (NoError, h, p)"
    "\<exists>buf. ipv4_datagram_parse b d0 = Some (NoError, \<lparr>dg_header = h, dg_payload = [buf]\<rparr>) \<and> buffer_str buf = pl \<and> buffer_inv buf"
  using assms by (auto simp: ipv4_reads_def)

lemma ipv4_datagram_parse_own:
  assumes "ipv4_datagram_valid d"
  obtains bl h where "ipv4_datagram_serialize d = Some bl" "h = (dg_header d)\<lparr>ip_cksum := ip_cksum h\<rparr>"
    "length (bl_concatenate bl) = unat (ip_len (dg_header d))" "ipv4_reads (bl_concatenate bl) h (bl_concatenate (dg_payload d))"
proof -
  obtain bl h where bl: "ipv4_datagram_serialize d = Some bl" "h = (dg_header d)\<lparr>ip_cksum := ip_cksum h\<rparr>"
    "bl_concatenate bl = ipv4_header_bytes h @ ipv4_options h @ bl_concatenate (dg_payload d)"
    "ipv4_header_valid h" "checksum 0 (ipv4_header_bytes h @ ipv4_options h) = 0"
    by (rule ipv4_datagram_serialize_ok [OF assms])
  let ?w = "ipv4_header_bytes h @ ipv4_options h" and ?pl = "bl_concatenate (dg_payload d)"
  let ?bs = "bl_concatenate bl"
  have l: "ip_len h = ip_len (dg_header d)" "ip_hlen h = ip_hlen (dg_header d)" by (subst bl(2), simp)+
  then have len: "unat (ip_len h) = 4 * unat (ip_hlen h) + length ?pl"
    using assms by (simp add: ipv4_datagram_valid_def)
  have bs: "?bs = ?w @ ?pl" using bl(3) by simp
  have wl: "length ?w = 4 * unat (ip_hlen h)" using bl(4) by (simp add: ipv4_options_def ipv4_header_valid_def)
  note V = ipv4_valid_verdict [of h ?pl, OF bl(4), folded bs]
  have n: "length ?bs = unat (ip_len h)" using bs wl len by simp
  have tw: "20 \<le> length ?bs" by (simp add: bl(3))
  have "ipv4_reads ?bs h ?pl"
    unfolding ipv4_reads_def
  proof (intro allI impI conjI)
    fix b h0 assume b: "buffer_inv b" "buffer_str b = ?bs"
    show "\<exists>p. ipv4_header_parse (np_new b) h0 = Some (NoError, h, p)"
      using ipv4_header_parse_track [OF b(1) b(2) [symmetric] tw] V(1,2) [OF n] bl(5) by auto
  next
    fix b d0 assume b: "buffer_inv b" "buffer_str b = ?bs"
    show "\<exists>buf. ipv4_datagram_parse b d0 = Some (NoError, \<lparr>dg_header = h, dg_payload = [buf]\<rparr>) \<and> buffer_str buf = ?pl \<and> buffer_inv buf"
      using ipv4_datagram_parse_track [OF b(1) b(2) [symmetric] tw, of d0] V(2,3) [OF n] payload_length_valid [OF len] n wl len bs by auto
  qed
  then show thesis using that bl(1,2) n l(1) by simp
qed

lemma payload_length_mod:
  "unat (payload_length h) = (unat (ip_len h) + 2 ^ 16 - 4 * unat (ip_hlen h)) mod 2 ^ 16"
proof -
  let ?l = "unat (ip_len h)" and ?k = "4 * unat (ip_hlen h)"
  have k: "unat (4 * ucast (ip_hlen h) :: u16) = ?k" "?k < 2 ^ 16" "?l < 2 ^ 16"
    using unat_u8_less [of "ip_hlen h"] unat_u16_less [of "ip_len h"]
    by (simp_all add: unat_word_ariths unat_ucast_mod)
  show ?thesis
  proof (cases "?k \<le> ?l")
    case True
    then have "?l + 2 ^ 16 - ?k = (?l - ?k) + 2 ^ 16" by simp
    then have "(?l + 2 ^ 16 - ?k) mod 2 ^ 16 = ?l - ?k" using k(3) by (simp only: mod_add_self2) simp
    then show ?thesis using True k(1) by (simp add: payload_length_def unat_sub_no_wrap)
  next
    case False
    then show ?thesis using k by (simp add: payload_length_def unat_sub_if_size word_size)
  qed
qed

subsection \<open>Properties\<close>

text \<open>
  C31. Round trip of a datagram. A datagram whose header fields are in range and whose length field
  counts header and payload is serialized without a throw; the header parser accepts the bytes,
  checksum included, and parsing gives back every header field, except that the checksum field now
  holds the computed checksum, and the payload.
\<close>

theorem ipv4_datagram_roundtrip:
  assumes "ipv4_datagram_valid d"
  shows "\<exists>bl d' p. ipv4_datagram_serialize d = Some bl \<and>
    ipv4_header_parse (np_new (buffer_new (bl_concatenate bl))) h0 = Some (NoError, dg_header d', p) \<and>
    ipv4_datagram_parse (buffer_new (bl_concatenate bl)) d0 = Some (NoError, d') \<and>
    dg_header d' = (dg_header d)\<lparr>ip_cksum := ip_cksum (dg_header d')\<rparr> \<and>
    bl_concatenate (dg_payload d') = bl_concatenate (dg_payload d)"
proof -
  obtain bl h where bl: "ipv4_datagram_serialize d = Some bl" "h = (dg_header d)\<lparr>ip_cksum := ip_cksum h\<rparr>"
    "length (bl_concatenate bl) = unat (ip_len (dg_header d))" "ipv4_reads (bl_concatenate bl) h (bl_concatenate (dg_payload d))"
    by (rule ipv4_datagram_parse_own [OF assms])
  have inv: "buffer_inv (buffer_new (bl_concatenate bl))"
    using bl(3) unat_u16_less [of "ip_len (dg_header d)"] by (intro buffer_inv_new) simp
  obtain p where "ipv4_header_parse (np_new (buffer_new (bl_concatenate bl))) h0 = Some (NoError, h, p)"
    using ipv4_readsD(1) [OF bl(4) inv] by auto
  moreover obtain buf where "ipv4_datagram_parse (buffer_new (bl_concatenate bl)) d0 = Some (NoError, \<lparr>dg_header = h, dg_payload = [buf]\<rparr>)"
    "buffer_str buf = bl_concatenate (dg_payload d)"
    using ipv4_readsD(2) [OF bl(4) inv] by auto
  ultimately show ?thesis using bl(1,2) by (auto simp: bl_concatenate_eq)
qed

theorem ipv4_datagram_roundtrip_witness:
  "\<exists>bl d'. ipv4_datagram_serialize \<lparr>dg_header = ipv4_header_default\<lparr>ip_len := 23, ip_src := 0x0a000001\<rparr>, dg_payload = [buffer_new [1, 2, 3]]\<rparr> = Some bl \<and>
     ipv4_datagram_parse (buffer_new (bl_concatenate bl)) ipv4_datagram_default = Some (NoError, d') \<and>
     ip_src (dg_header d') = 0x0a000001 \<and> bl_concatenate (dg_payload d') = [1, 2, 3]"
proof -
  let ?d = "\<lparr>dg_header = ipv4_header_default\<lparr>ip_len := 23, ip_src := 0x0a000001\<rparr>, dg_payload = [buffer_new [1, 2, 3]]\<rparr>"
  have "ipv4_datagram_valid ?d"
    by (simp add: ipv4_datagram_valid_def ipv4_header_valid_def ipv4_header_default_def IPv4_LENGTH_def bl_concatenate_eq)
  from ipv4_datagram_roundtrip [OF this, of _ ipv4_datagram_default] obtain bl d' where
    r: "ipv4_datagram_serialize ?d = Some bl"
    "ipv4_datagram_parse (buffer_new (bl_concatenate bl)) ipv4_datagram_default = Some (NoError, d')"
    "dg_header d' = (dg_header ?d)\<lparr>ip_cksum := ip_cksum (dg_header d')\<rparr>"
    "bl_concatenate (dg_payload d') = bl_concatenate (dg_payload ?d)" by blast
  moreover have "ip_src (dg_header d') = 0x0a000001" by (subst r(3)) simp
  ultimately show ?thesis by (auto simp: bl_concatenate_eq)
qed

text \<open>
  C32. Parsing a datagram from arbitrary bytes into an arbitrary object is total, and this is its exact
  outcome. With fewer than 20 bytes the header of the object stays what it was and all bytes become the
  payload; with 20 or more the header consists of the fields in the first 20 bytes, and the payload is
  what follows the header, options included, if version, header length and total length are right, and
  what follows the first 20 bytes if they are not. The verdict of the header parser, wrong version, bad
  header length, truncation or bad checksum, is thrown away: the result is \<open>NoError\<close> if the payload has
  as many bytes as the length field minus the header length, modulo \<open>2 ^ 16\<close>, and \<open>PacketTooShort\<close> in
  every other case.
\<close>

theorem ipv4_datagram_parse_outcome:
  fixes b :: buffer and d :: ipv4_datagram
  defines "bs \<equiv> buffer_str b"
  defines "h \<equiv> if length bs < 20 then dg_header d else ipv4_fields bs"
  defines "k \<equiv> if length bs < 20 then 0
    else if ip_ver h = 4 \<and> 5 \<le> unat (ip_hlen h) \<and> 4 * unat (ip_hlen h) \<le> length bs \<and> unat (ip_len h) = length bs
    then 4 * unat (ip_hlen h) else 20"
  assumes "buffer_inv b"
  shows "\<exists>p buf. ipv4_header_parse (np_new b) (dg_header d) = Some (ipv4_verdict bs, h, p) \<and>
    ipv4_datagram_parse b d =
      Some (if length bs - k = (unat (ip_len h) + 2 ^ 16 - 4 * unat (ip_hlen h)) mod 2 ^ 16 then NoError else PacketTooShort,
        \<lparr>dg_header = h, dg_payload = [buf]\<rparr>) \<and>
    buffer_str buf = drop k bs"
proof (cases "length bs < 20")
  case True
  have sz: "unat (buffer_sz b) = length bs" using unat_buffer_sz [OF assms(4)] by (simp add: bs_def)
  then have p: "ipv4_header_parse (np_new b) (dg_header d) = Some (PacketTooShort, dg_header d, np_new b)"
    using True by (simp add: ipv4_header_parse_def Let_def np_new_def word_less_nat_alt IPv4_LENGTH_def)
  have "bl_size [b] = ucast (payload_length (dg_header d)) \<longleftrightarrow> length bs = unat (payload_length (dg_header d))"
    using sz unat_u16_less [of "payload_length (dg_header d)"] by (simp add: word_eq_unat_iff [where 'a = 64] bl_size_def unat_ucast_mod)
  then show ?thesis
    using True p by (auto simp: ipv4_datagram_parse_def bl_of_buffer_def np_new_def h_def k_def payload_length_mod ipv4_verdict_def bs_def Let_def)
next
  case False
  then have len: "20 \<le> length bs" by simp
  have b: "bs = buffer_str b" by (simp add: bs_def)
  have k: "ipv4_consumed bs = k" and h: "ipv4_fields bs = h"
    using False by (auto simp: k_def h_def ipv4_consumed_def ipv4_verdict_def Let_def)
  show ?thesis
    using ipv4_header_parse_track [OF assms(4) b len, of "dg_header d"] ipv4_datagram_parse_track [OF assms(4) b len, of d]
    unfolding k h payload_length_mod by blast
qed

theorem ipv4_datagram_parse_outcome_witness:
  "(\<exists>d. ipv4_datagram_parse (buffer_new ([0x45, 0, 0, 20] @ replicate 16 0)) ipv4_datagram_default = Some (NoError, d) \<and>
      ip_ver (dg_header d) = 4) \<and>
   (\<exists>d. ipv4_datagram_parse (buffer_new ([0x45, 0, 0, 21] @ replicate 16 0)) ipv4_datagram_default = Some (PacketTooShort, d)) \<and>
   (\<exists>d. ipv4_datagram_parse (buffer_new [1, 2, 3]) \<lparr>dg_header = ipv4_header_default\<lparr>ip_len := 23\<rparr>, dg_payload = []\<rparr> = Some (NoError, d))"
proof -
  let ?bs = "\<lambda>n :: byte. [0x45, 0, 0, n] @ replicate 16 0"
  have f: "ip_ver (ipv4_fields (?bs n)) = 4" "ip_hlen (ipv4_fields (?bs n)) = 5" "ip_len (ipv4_fields (?bs n)) = ucast n" for n
    by (simp_all add: ipv4_fields_def be_int_def Let_def)
  have "buffer_inv (buffer_new (?bs 20))" "buffer_inv (buffer_new (?bs 21))" "buffer_inv (buffer_new [1, 2, 3])"
    by (simp_all add: buffer_inv_new)
  note P = this [THEN ipv4_datagram_parse_outcome]
  show ?thesis
    using P(1) [of ipv4_datagram_default] P(2) [of ipv4_datagram_default]
      P(3) [of "\<lparr>dg_header = ipv4_header_default\<lparr>ip_len := 23\<rparr>, dg_payload = []\<rparr>"] f [of 20] f [of 21]
    by (auto simp: ipv4_header_default_def IPv4_LENGTH_def)
qed

text \<open>
  Damage to the header goes unnoticed. In the bytes of a valid datagram, replace the time to
  live by any other value: the header parser reports \<open>BadChecksum\<close>, but the datagram parser accepts
  the datagram with the new value.
\<close>

theorem ipv4_bad_checksum_accepted:
  assumes "ipv4_datagram_valid d" and "ipv4_datagram_serialize d = Some bl" and "y \<noteq> ip_ttl (dg_header d)"
  shows "\<exists>d' p. let b = buffer_new ((bl_concatenate bl)[8 := y]) in
    ipv4_header_parse (np_new b) ipv4_header_default = Some (BadChecksum, dg_header d', p) \<and>
    ipv4_datagram_parse b ipv4_datagram_default = Some (NoError, d') \<and>
    ip_ttl (dg_header d') = y \<and> bl_concatenate (dg_payload d') = bl_concatenate (dg_payload d)"
proof -
  obtain h where bl: "h = (dg_header d)\<lparr>ip_cksum := ip_cksum h\<rparr>"
    "bl_concatenate bl = ipv4_header_bytes h @ ipv4_options h @ bl_concatenate (dg_payload d)"
    "ipv4_header_valid h" "checksum 0 (ipv4_header_bytes h @ ipv4_options h) = 0"
    using ipv4_datagram_serialize_ok [OF assms(1)] assms(2) by (metis option.inject)
  let ?w = "ipv4_header_bytes h @ ipv4_options h" and ?pl = "bl_concatenate (dg_payload d)"
  let ?h = "h\<lparr>ip_ttl := y\<rparr>" and ?bs = "(bl_concatenate bl)[8 := y]"
  let ?w' = "ipv4_header_bytes ?h @ ipv4_options ?h"
  have l: "ip_len h = ip_len (dg_header d)" "ip_hlen h = ip_hlen (dg_header d)" "ip_ttl h = ip_ttl (dg_header d)"
    by (subst bl(1), simp)+
  have b1: "be_bytes (x :: u8) = [x]" for x by (simp add: be_bytes_def)
  have hb: "ipv4_header_bytes ?h = (ipv4_header_bytes h)[8 := y]" "ipv4_header_bytes h ! 8 = ip_ttl h"
    unfolding ipv4_header_bytes_def b1 [of "ip_ttl _"]
    by (simp_all add: list_update_append nth_append ipv4_flags_def)
  then have w': "?w' = ?w[8 := y]" by (simp add: list_update_append ipv4_options_def)
  have bs: "?bs = ?w' @ ?pl" using bl(2) w' by (simp add: list_update_append)
  have len: "unat (ip_len ?h) = 4 * unat (ip_hlen ?h) + length ?pl"
    using assms(1) l by (simp add: ipv4_datagram_valid_def)
  have v: "ipv4_header_valid ?h" using bl(3) by (simp add: ipv4_header_valid_def)
  have wl: "length ?w' = 4 * unat (ip_hlen ?h)" using v by (simp add: ipv4_options_def ipv4_header_valid_def)
  have n: "length ?bs = unat (ip_len ?h)" unfolding bs using wl len by simp
  have "length ?w \<le> 64" using bl(3) by (auto simp: ipv4_options_def ipv4_header_valid_def)
  then have "summable 0 ?w" "summable 0 (?w[8 := y])" by (intro summable_length; simp)+
  then have ck: "checksum 0 ?w' \<noteq> 0"
    unfolding w' using checksum_single_byte [OF bl(4), of 8 y] hb(2) l(3) assms(3) by (simp add: nth_append)
  have inv: "buffer_inv (buffer_new ?bs)" using n unat_u16_less [of "ip_len ?h"] by (intro buffer_inv_new) simp
  have tw: "20 \<le> length ?bs" by (simp add: bl(2))
  note V = ipv4_valid_verdict [of ?h ?pl, OF v, folded bs, OF n]
  obtain p where "ipv4_header_parse (np_new (buffer_new ?bs)) ipv4_header_default = Some (BadChecksum, ?h, p)"
    using ipv4_header_parse_track [OF inv _ tw] V(1,2) ck by auto
  moreover obtain buf where "ipv4_datagram_parse (buffer_new ?bs) ipv4_datagram_default =
      Some (NoError, \<lparr>dg_header = ?h, dg_payload = [buf]\<rparr>)" "buffer_str buf = ?pl"
    using ipv4_datagram_parse_track [OF inv _ tw, of ipv4_datagram_default] V(2,3) payload_length_valid [OF len] n wl len bs by auto
  ultimately show ?thesis by (auto simp: bl_concatenate_eq Let_def)
qed

theorem ipv4_bad_checksum_accepted_witness:
  "\<exists>bl d'. ipv4_datagram_serialize \<lparr>dg_header = ipv4_header_default\<lparr>ip_len := 20\<rparr>, dg_payload = []\<rparr> = Some bl \<and>
     ipv4_datagram_parse (buffer_new ((bl_concatenate bl)[8 := 3])) ipv4_datagram_default = Some (NoError, d') \<and>
     ip_ttl (dg_header d') = 3"
proof -
  let ?d = "\<lparr>dg_header = ipv4_header_default\<lparr>ip_len := 20\<rparr>, dg_payload = []\<rparr>"
  have v: "ipv4_datagram_valid ?d"
    by (simp add: ipv4_datagram_valid_def ipv4_header_valid_def ipv4_header_default_def IPv4_LENGTH_def bl_concatenate_eq)
  obtain bl where bl: "ipv4_datagram_serialize ?d = Some bl" by (rule ipv4_datagram_serialize_ok [OF v])
  have "3 \<noteq> ip_ttl (dg_header ?d)" by (simp add: ipv4_header_default_def DEFAULT_TTL_def)
  from ipv4_bad_checksum_accepted [OF v bl this] bl show ?thesis by (auto simp: Let_def)
qed
end
