(* ===== verification/Ethernet_Frame.thy ===== *)
theory Ethernet_Frame
  imports Net_Parser
begin

text \<open>
  Ethernet headers and frames, \<open>libsponge/tcp_helpers/ethernet_header.hh\<close>, \<open>ethernet_header.cc\<close>,
  \<open>ethernet_frame.hh\<close> and \<open>ethernet_frame.cc\<close>. An address, an array of six bytes, is a list; that it
  has six elements is part of the validity of a header. Parsing writes into an existing object.
\<close>

type_synonym EthernetAddress = "u8 list"

definition ETHERNET_BROADCAST :: EthernetAddress where
  "ETHERNET_BROADCAST = [0xff, 0xff, 0xff, 0xff, 0xff, 0xff]"

record ethernet_header =
  eth_dst :: EthernetAddress
  eth_src :: EthernetAddress
  eth_type :: u16

definition ethernet_LENGTH :: u64 where
  "ethernet_LENGTH = 14"

definition TYPE_IPv4 :: u16 where
  "TYPE_IPv4 = 0x800"

definition TYPE_ARP :: u16 where
  "TYPE_ARP = 0x806"

definition ethernet_header_default :: ethernet_header where
  "ethernet_header_default = \<lparr>eth_dst = replicate 6 0, eth_src = replicate 6 0, eth_type = 0\<rparr>"

text \<open>The loop over the bytes of an address, reading: the argument holds the old bytes, which are overwritten.\<close>

fun np_read_array :: "u8 list \<Rightarrow> net_parser \<Rightarrow> (u8 list \<times> net_parser) option" where
  "np_read_array [] p = Some ([], p)"
| "np_read_array (_ # old) p = do {
     (x, p) \<leftarrow> np_u8 p;
     (xs, p) \<leftarrow> np_read_array old p;
     Some (x # xs, p)
   }"

definition ethernet_header_parse ::
    "net_parser \<Rightarrow> ethernet_header \<Rightarrow> (ParseResult \<times> ethernet_header \<times> net_parser) option" where
  "ethernet_header_parse p h =
     (if buffer_sz (np_buffer p) < ethernet_LENGTH then Some (PacketTooShort, h, p)
      else do {
        (dst, p) \<leftarrow> np_read_array (eth_dst h) p;
        (src, p) \<leftarrow> np_read_array (eth_src h) p;
        (typ, p) \<leftarrow> np_u16 p;
        Some (np_error p, \<lparr>eth_dst = dst, eth_src = src, eth_type = typ\<rparr>, p)
      })"

text \<open>The loop over the bytes of an address, writing.\<close>

definition unparse_array :: "bytes \<Rightarrow> u8 list \<Rightarrow> bytes" where
  "unparse_array ret xs = fold (\<lambda>x ret. unparse_u8 ret x) xs ret"

definition ethernet_header_serialize :: "ethernet_header \<Rightarrow> bytes" where
  "ethernet_header_serialize h =
     (let ret = unparse_array [] (eth_dst h);
          ret = unparse_array ret (eth_src h)
      in unparse_u16 ret (eth_type h))"

record ethernet_frame =
  fr_header :: ethernet_header
  fr_payload :: buffer_list

definition ethernet_frame_default :: ethernet_frame where
  "ethernet_frame_default = \<lparr>fr_header = ethernet_header_default, fr_payload = []\<rparr>"

definition ethernet_frame_parse :: "buffer \<Rightarrow> ethernet_frame \<Rightarrow> (ParseResult \<times> ethernet_frame) option" where
  "ethernet_frame_parse buf f = do {
     (_, h, p) \<leftarrow> ethernet_header_parse (np_new buf) (fr_header f);
     Some (np_error p, \<lparr>fr_header = h, fr_payload = bl_of_buffer (np_buffer p)\<rparr>)
   }"

definition ethernet_frame_serialize :: "ethernet_frame \<Rightarrow> buffer_list" where
  "ethernet_frame_serialize f =
     bl_append (bl_append [] (bl_of_string (ethernet_header_serialize (fr_header f)))) (fr_payload f)"

text \<open>The printed form of an address, two hexadecimal digits per byte.\<close>

definition hex_digit :: "nat \<Rightarrow> char" where
  "hex_digit n = ''0123456789abcdef'' ! (n mod 16)"

definition hex_byte :: "u8 \<Rightarrow> string" where
  "hex_byte x = [hex_digit (unat x div 16), hex_digit (unat x mod 16)]"

fun ethernet_address_string :: "EthernetAddress \<Rightarrow> string" where
  "ethernet_address_string [] = ''''"
| "ethernet_address_string [x] = hex_byte x"
| "ethernet_address_string (x # xs) = hex_byte x @ '':'' @ ethernet_address_string xs"

subsection \<open>Headers\<close>

definition address_valid :: "EthernetAddress \<Rightarrow> bool" where
  "address_valid a \<longleftrightarrow> length a = 6"

definition ethernet_header_valid :: "ethernet_header \<Rightarrow> bool" where
  "ethernet_header_valid h \<longleftrightarrow> address_valid (eth_dst h) \<and> address_valid (eth_src h)"

lemma be_bytes_u8 [simp]: "be_bytes (x :: u8) = [x]"
  by (simp add: be_bytes_def)

lemma be_int_u8 [simp]: "be_int [x] = (x :: u8)"
  by (simp add: be_int_def)

lemma unparse_array_eq: "unparse_array ret xs = ret @ xs"
  by (induction xs arbitrary: ret) (simp_all add: unparse_array_def unparse_eq)

lemma np_at_read_array:
  assumes "np_at p (xs @ rest)" and "length old = length xs"
  shows "\<exists>p'. np_read_array old p = Some (xs, p') \<and> np_at p' rest"
  using assms
proof (induction xs arbitrary: p old)
  case Nil
  then show ?case by simp
next
  case (Cons x xs)
  obtain o1 os where old: "old = o1 # os" "length os = length xs" using Cons.prems(2) by (cases old) auto
  have "np_u8 p = Some (x, np_adv 1 p)" "np_at (np_adv 1 p) (xs @ rest)"
    using np_at_u8 [of p x "xs @ rest"] Cons.prems(1) by simp_all
  with Cons.IH [of "np_adv 1 p" os] old show ?case by auto
qed

lemma ethernet_header_serialize_eq:
  "ethernet_header_serialize h = eth_dst h @ eth_src h @ be_bytes (eth_type h)"
  by (simp add: ethernet_header_serialize_def unparse_array_eq unparse_eq)

lemma ethernet_header_parse_at:
  assumes "np_at p (ethernet_header_serialize h @ rest)" and "ethernet_header_valid h" and "ethernet_header_valid h0"
  shows "\<exists>p'. ethernet_header_parse p h0 = Some (NoError, h, p') \<and> np_at p' rest"
proof -
  have l: "length (eth_dst h0) = length (eth_dst h)" "length (eth_src h0) = length (eth_src h)" "length (eth_dst h) = 6"
    "length (eth_src h) = 6"
    using assms(2,3) by (simp_all add: ethernet_header_valid_def address_valid_def)
  have "\<not> buffer_sz (np_buffer p) < ethernet_LENGTH"
    using np_at_size [OF assms(1)] l(3,4)
    by (simp add: word_less_nat_alt ethernet_LENGTH_def ethernet_header_serialize_eq)
  moreover obtain p1 where p1: "np_read_array (eth_dst h0) p = Some (eth_dst h, p1)"
    "np_at p1 (eth_src h @ be_bytes (eth_type h) @ rest)"
    using np_at_read_array [OF _ l(1)] assms(1) by (auto simp: ethernet_header_serialize_eq)
  moreover obtain p2 where p2: "np_read_array (eth_src h0) p1 = Some (eth_src h, p2)" "np_at p2 (be_bytes (eth_type h) @ rest)"
    using np_at_read_array [OF p1(2) l(2)] by blast
  moreover note np_at_u16 [OF p2(2)]
  ultimately show ?thesis by (auto simp: ethernet_header_parse_def np_at_def)
qed

definition ethernet_header_decode :: "bytes \<Rightarrow> (ethernet_header \<times> bytes) option" where
  "ethernet_header_decode bs = (case ethernet_header_parse (np_new (buffer_new bs)) ethernet_header_default of
     Some (NoError, h, p) \<Rightarrow> Some (h, np_contents p) | _ \<Rightarrow> None)"

lemma ethernet_header_valid_default [simp]: "ethernet_header_valid ethernet_header_default"
  by (simp add: ethernet_header_valid_def ethernet_header_default_def address_valid_def)

interpretation ethh: wire_format ethernet_header_valid "\<lambda>h. Some (ethernet_header_serialize h)" ethernet_header_decode
proof unfold_locales
  fix h :: ethernet_header assume v: "ethernet_header_valid h"
  have "ethernet_header_serialize h \<noteq> []"
    using v by (auto simp: ethernet_header_serialize_eq ethernet_header_valid_def address_valid_def)
  then show "\<exists>w. Some (ethernet_header_serialize h) = Some w \<and> w \<noteq> []" by simp
  fix w rest assume w: "Some (ethernet_header_serialize h) = Some w" and len: "length (w @ rest) < 2 ^ 64"
  obtain p' where "ethernet_header_parse (np_new (buffer_new (w @ rest))) ethernet_header_default = Some (NoError, h, p')" "np_at p' rest"
    using ethernet_header_parse_at [of _ h rest ethernet_header_default] np_at_new [OF len] v w by auto
  then show "ethernet_header_decode (w @ rest) = Some (h, rest)"
    by (simp add: ethernet_header_decode_def np_at_def)
qed

subsection \<open>Frames of arbitrary bytes\<close>

lemma np_track_read_array:
  assumes "np_track bs k p" and "k + length old \<le> length bs"
  shows "\<exists>p'. np_read_array old p = Some (take (length old) (drop k bs), p') \<and> np_track bs (k + length old) p'"
  using assms
proof (induction old arbitrary: k p)
  case Nil
  then show ?case by simp
next
  case (Cons o1 os)
  obtain v p1 where "np_u8 p = Some (v, p1)" "np_track bs (k + 1) p1" "v = be_int (take 1 (drop k bs))"
    using np_track_u8 [OF Cons.prems(1) refl] Cons.prems(2) by auto
  moreover from this(2) obtain p2 where "np_read_array os p1 = Some (take (length os) (drop (k + 1) bs), p2)"
    "np_track bs (k + 1 + length os) p2"
    using Cons.IH [of "k + 1" p1] Cons.prems(2) by auto
  moreover have "take (Suc (length os)) (drop k bs) = bs ! k # take (length os) (drop (k + 1) bs)"
    "take 1 (drop k bs) = [bs ! k]"
    using Cons.prems(2) by (simp_all add: Cons_nth_drop_Suc [symmetric] take_Suc_conv_app_nth)
  ultimately show ?case by (auto simp: add.assoc)
qed

lemma ethernet_header_parse_track:
  assumes "buffer_inv b" and "bs = buffer_str b" and "14 \<le> length bs" and "ethernet_header_valid h"
  shows "\<exists>p'. ethernet_header_parse (np_new b) h = Some (NoError,
      \<lparr>eth_dst = take 6 bs, eth_src = take 6 (drop 6 bs), eth_type = be_int (take 2 (drop 12 bs))\<rparr>, p') \<and> np_track bs 14 p'"
proof -
  have t: "np_track bs 0 (np_new b)" using np_track_new [OF assms(1)] assms(2) by simp
  have l: "length (eth_dst h) = 6" "length (eth_src h) = 6" using assms(4) by (simp_all add: ethernet_header_valid_def address_valid_def)
  have "\<not> buffer_sz (np_buffer (np_new b)) < ethernet_LENGTH"
    using unat_buffer_sz [OF assms(1)] assms(2,3) by (simp add: word_less_nat_alt ethernet_LENGTH_def np_new_def)
  moreover obtain p1 where p1: "np_read_array (eth_dst h) (np_new b) = Some (take 6 bs, p1)" "np_track bs 6 p1"
    using np_track_read_array [OF t, of "eth_dst h"] l assms(3) by auto
  moreover obtain p2 where p2: "np_read_array (eth_src h) p1 = Some (take 6 (drop 6 bs), p2)" "np_track bs 12 p2"
    using np_track_read_array [OF p1(2), of "eth_src h"] l assms(3) by auto
  moreover obtain p3 where p3: "np_u16 p2 = Some (be_int (take 2 (drop 12 bs)), p3)" "np_track bs 14 p3"
    using np_track_u16 [OF p2(2), of 14] assms(3) by auto
  moreover have "np_error p3 = NoError" using np_track_error [OF p3(2)] assms(3) by simp
  ultimately show ?thesis by (auto simp: ethernet_header_parse_def)
qed

subsection \<open>Properties\<close>

text \<open>
  C34. Parsing a frame from arbitrary bytes never fails: 14 bytes or more give the two addresses, the
  type and the rest as payload; and a frame too short for its header is accepted as well, with the
  whole input as payload and the header that was there before, although \<open>EthernetHeader::parse\<close>
  reports it.
\<close>

theorem ethernet_frame_parse_outcome:
  fixes b :: buffer
  defines "bs \<equiv> buffer_str b"
  assumes "buffer_inv b" and "ethernet_header_valid (fr_header f)"
  shows "\<exists>f' res p. ethernet_frame_parse b f = Some (NoError, f') \<and>
    ethernet_header_parse (np_new b) (fr_header f) = Some (res, fr_header f', p) \<and>
    (if length bs < 14
     then res = PacketTooShort \<and> fr_header f' = fr_header f \<and> bl_concatenate (fr_payload f') = bs
     else res = NoError \<and> bl_concatenate (fr_payload f') = drop 14 bs \<and>
       ethernet_header_serialize (fr_header f') = take 14 bs)"
proof (cases "length bs < 14")
  case True
  then have "buffer_sz (np_buffer (np_new b)) < ethernet_LENGTH"
    using unat_buffer_sz [OF assms(2)] by (simp add: word_less_nat_alt ethernet_LENGTH_def np_new_def bs_def)
  then have "ethernet_header_parse (np_new b) (fr_header f) = Some (PacketTooShort, fr_header f, np_new b)"
    by (simp add: ethernet_header_parse_def)
  then show ?thesis
    using True by (simp add: ethernet_frame_parse_def bl_of_buffer_def bl_concatenate_eq) (simp add: np_new_def bs_def)
next
  case False
  let ?h = "\<lparr>eth_dst = take 6 bs, eth_src = take 6 (drop 6 bs), eth_type = be_int (take 2 (drop 12 bs))\<rparr>"
  obtain p where p: "ethernet_header_parse (np_new b) (fr_header f) = Some (NoError, ?h, p)" "np_track bs 14 p"
    using ethernet_header_parse_track [OF assms(2) bs_def [THEN meta_eq_to_obj_eq] _ assms(3)] False by auto
  have "np_error p = NoError" "buffer_str (np_buffer p) = drop 14 bs"
    using p(2) False by (simp_all add: np_track_def np_contents_def)
  moreover have "take 6 bs @ take 6 (drop 6 bs) @ be_bytes (be_int (take 2 (drop 12 bs)) :: u16) = take 14 bs"
    using False be_bytes_be_int [of 2 "take 2 (drop 12 bs)", where 'a = 16] take_add [of 6 6 bs] take_add [of 12 2 bs]
    by simp
  ultimately show ?thesis
    using p(1) False by (auto simp: ethernet_frame_parse_def bl_of_buffer_def bl_concatenate_eq ethernet_header_serialize_eq)
qed

theorem ethernet_frame_parse_outcome_witness:
  "\<exists>f'. ethernet_frame_parse (buffer_new [1, 2, 3]) ethernet_frame_default = Some (NoError, f') \<and>
     bl_concatenate (fr_payload f') = [1, 2, 3]"
proof -
  have "buffer_inv (buffer_new [1, 2, 3])" "ethernet_header_valid (fr_header ethernet_frame_default)"
    by (simp_all add: buffer_inv_new ethernet_frame_default_def)
  from ethernet_frame_parse_outcome [OF this] show ?thesis by auto
qed

text \<open>
  Round trip of a frame: parsing the bytes of a serialized frame gives back its header and its
  payload.
\<close>

theorem ethernet_frame_roundtrip:
  assumes "ethernet_header_valid (fr_header f)" and "ethernet_header_valid (fr_header f0)"
    and "length (bl_concatenate (ethernet_frame_serialize f)) < 2 ^ 64"
  shows "\<exists>f'. ethernet_frame_parse (buffer_new (bl_concatenate (ethernet_frame_serialize f))) f0 = Some (NoError, f') \<and>
    fr_header f' = fr_header f \<and> bl_concatenate (fr_payload f') = bl_concatenate (fr_payload f)"
proof -
  have c: "bl_concatenate (ethernet_frame_serialize f) =
      ethernet_header_serialize (fr_header f) @ bl_concatenate (fr_payload f)"
    by (simp add: ethernet_frame_serialize_def bl_concatenate_eq bl_of_string_def bl_of_buffer_def)
  obtain p where "ethernet_header_parse (np_new (buffer_new (bl_concatenate (ethernet_frame_serialize f)))) (fr_header f0) =
      Some (NoError, fr_header f, p)" "np_at p (bl_concatenate (fr_payload f))"
    using ethernet_header_parse_at [OF _ assms(1,2)] np_at_new [OF assms(3)] by (auto simp: c)
  then show ?thesis
    by (auto simp: ethernet_frame_parse_def bl_of_buffer_def bl_concatenate_eq np_at_def np_contents_def)
qed

theorem ethernet_frame_roundtrip_witness:
  "\<exists>f'. ethernet_frame_parse (buffer_new (bl_concatenate (ethernet_frame_serialize
       \<lparr>fr_header = \<lparr>eth_dst = ETHERNET_BROADCAST, eth_src = [1, 2, 3, 4, 5, 6], eth_type = TYPE_ARP\<rparr>,
        fr_payload = [buffer_new [7], buffer_new [8, 9]]\<rparr>))) ethernet_frame_default = Some (NoError, f') \<and>
     eth_src (fr_header f') = [1, 2, 3, 4, 5, 6] \<and> bl_concatenate (fr_payload f') = [7, 8, 9]"
proof -
  let ?f = "\<lparr>fr_header = \<lparr>eth_dst = ETHERNET_BROADCAST, eth_src = [1, 2, 3, 4, 5, 6], eth_type = TYPE_ARP\<rparr>,
        fr_payload = [buffer_new [7], buffer_new [8, 9]]\<rparr>"
  have "ethernet_header_valid (fr_header ?f)" "ethernet_header_valid (fr_header ethernet_frame_default)"
    "length (bl_concatenate (ethernet_frame_serialize ?f)) < 2 ^ 64"
    by (simp_all add: ethernet_header_valid_def address_valid_def ETHERNET_BROADCAST_def ethernet_frame_default_def
        ethernet_header_default_def ethernet_frame_serialize_def bl_of_string_def bl_of_buffer_def bl_concatenate_eq
        ethernet_header_serialize_eq)
  from ethernet_frame_roundtrip [OF this] show ?thesis by (auto simp: bl_concatenate_eq)
qed
end
