(* ===== verification/ARP_Message.thy ===== *)
theory ARP_Message
  imports Ethernet_Frame
begin

text \<open>
  ARP messages, \<open>libsponge/tcp_helpers/arp_message.hh\<close> and \<open>arp_message.cc\<close>. A throw is
  \<^const>\<open>None\<close>; parsing writes into an existing object.
\<close>

record arp_message =
  hardware_type :: u16
  protocol_type :: u16
  hardware_address_size :: u8
  protocol_address_size :: u8
  opcode :: u16
  sender_ethernet_address :: EthernetAddress
  sender_ip_address :: u32
  target_ethernet_address :: EthernetAddress
  target_ip_address :: u32

definition arp_LENGTH :: u64 where
  "arp_LENGTH = 28"

definition TYPE_ETHERNET :: u16 where
  "TYPE_ETHERNET = 1"

definition OPCODE_REQUEST :: u16 where
  "OPCODE_REQUEST = 1"

definition OPCODE_REPLY :: u16 where
  "OPCODE_REPLY = 2"

definition arp_message_default :: arp_message where
  "arp_message_default = \<lparr>hardware_type = TYPE_ETHERNET, protocol_type = TYPE_IPv4, hardware_address_size = 6,
     protocol_address_size = 4, opcode = 0, sender_ethernet_address = replicate 6 0, sender_ip_address = 0,
     target_ethernet_address = replicate 6 0, target_ip_address = 0\<rparr>"

definition arp_supported :: "arp_message \<Rightarrow> bool" where
  "arp_supported m \<longleftrightarrow> hardware_type m = TYPE_ETHERNET \<and> protocol_type m = TYPE_IPv4 \<and>
     hardware_address_size m = 6 \<and> protocol_address_size m = 4 \<and>
     (opcode m = OPCODE_REQUEST \<or> opcode m = OPCODE_REPLY)"

definition arp_parse :: "buffer \<Rightarrow> arp_message \<Rightarrow> (ParseResult \<times> arp_message) option" where
  "arp_parse buf m =
     (let p = np_new buf
      in if buffer_sz (np_buffer p) < arp_LENGTH then Some (PacketTooShort, m)
         else do {
           (ht, p) \<leftarrow> np_u16 p;
           (pt, p) \<leftarrow> np_u16 p;
           (hs, p) \<leftarrow> np_u8 p;
           (ps, p) \<leftarrow> np_u8 p;
           (opc, p) \<leftarrow> np_u16 p;
           let m = m\<lparr>hardware_type := ht, protocol_type := pt, hardware_address_size := hs,
                     protocol_address_size := ps, opcode := opc\<rparr>
           in if \<not> arp_supported m then Some (Unsupported, m)
              else do {
                (se, p) \<leftarrow> np_read_array (sender_ethernet_address m) p;
                (si, p) \<leftarrow> np_u32 p;
                (te, p) \<leftarrow> np_read_array (target_ethernet_address m) p;
                (ti, p) \<leftarrow> np_u32 p;
                Some (np_error p, m\<lparr>sender_ethernet_address := se, sender_ip_address := si,
                                    target_ethernet_address := te, target_ip_address := ti\<rparr>)
              }
         })"

definition arp_serialize :: "arp_message \<Rightarrow> bytes option" where
  "arp_serialize m =
     (if \<not> arp_supported m then None
      else
        let ret = unparse_u16 [] (hardware_type m);
            ret = unparse_u16 ret (protocol_type m);
            ret = unparse_u8 ret (hardware_address_size m);
            ret = unparse_u8 ret (protocol_address_size m);
            ret = unparse_u16 ret (opcode m);
            ret = unparse_array ret (sender_ethernet_address m);
            ret = unparse_u32 ret (sender_ip_address m);
            ret = unparse_array ret (target_ethernet_address m);
            ret = unparse_u32 ret (target_ip_address m)
        in Some ret)"

subsection \<open>Parsing what was serialized\<close>

definition arp_sized :: "arp_message \<Rightarrow> bool" where
  "arp_sized m \<longleftrightarrow> address_valid (sender_ethernet_address m) \<and> address_valid (target_ethernet_address m)"

definition arp_valid :: "arp_message \<Rightarrow> bool" where
  "arp_valid m \<longleftrightarrow> arp_supported m \<and> arp_sized m"

definition arp_bytes :: "arp_message \<Rightarrow> bytes" where
  "arp_bytes m = be_bytes (hardware_type m) @ be_bytes (protocol_type m) @ be_bytes (hardware_address_size m) @
     be_bytes (protocol_address_size m) @ be_bytes (opcode m) @ sender_ethernet_address m @
     be_bytes (sender_ip_address m) @ target_ethernet_address m @ be_bytes (target_ip_address m)"

lemma arp_serialize_eq: "arp_serialize m = (if arp_supported m then Some (arp_bytes m) else None)"
  by (simp add: arp_serialize_def unparse_eq unparse_array_eq arp_bytes_def)

lemma length_arp_bytes: "arp_sized m \<Longrightarrow> length (arp_bytes m) = 28"
  by (simp add: arp_bytes_def arp_sized_def address_valid_def)

lemma arp_sized_default [simp]: "arp_sized arp_message_default"
  by (simp add: arp_sized_def arp_message_default_def address_valid_def)

lemma arp_parse_bytes:
  assumes "arp_valid m" and "arp_sized m0" and "length (arp_bytes m @ rest) < 2 ^ 64"
  shows "arp_parse (buffer_new (arp_bytes m @ rest)) m0 = Some (NoError, m)"
proof -
  let ?b = "buffer_new (arp_bytes m @ rest)"
  have s: "arp_supported m" "arp_sized m" using assms(1) by (simp_all add: arp_valid_def)
  have l: "length (sender_ethernet_address m0) = length (sender_ethernet_address m)"
    "length (target_ethernet_address m0) = length (target_ethernet_address m)"
    using assms(2) s(2) by (simp_all add: arp_sized_def address_valid_def)
  define p0 where "p0 = np_new ?b"
  have at: "np_at p0 (arp_bytes m @ rest)" unfolding p0_def by (rule np_at_new [OF assms(3)])
  have long: "\<not> buffer_sz (np_buffer p0) < arp_LENGTH"
    using np_at_size [OF at] length_arp_bytes [OF s(2)] by (simp add: word_less_nat_alt arp_LENGTH_def)
  note 1 = np_at_u16 [OF at [unfolded arp_bytes_def append_assoc]]
  note 2 = np_at_u16 [OF conjunct2 [OF 1]]
  note 3 = np_at_u8 [OF conjunct2 [OF 2]]
  note 4 = np_at_u8 [OF conjunct2 [OF 3]]
  note 5 = np_at_u16 [OF conjunct2 [OF 4]]
  obtain p6 where 6: "np_read_array (sender_ethernet_address m0)
      (np_adv 2 (np_adv 1 (np_adv 1 (np_adv 2 (np_adv 2 p0))))) = Some (sender_ethernet_address m, p6)"
    "np_at p6 (be_bytes (sender_ip_address m) @ target_ethernet_address m @ be_bytes (target_ip_address m) @ rest)"
    using np_at_read_array [OF conjunct2 [OF 5] l(1)] by blast
  note 7 = np_at_u32 [OF 6(2)]
  obtain p8 where 8: "np_read_array (target_ethernet_address m0) (np_adv 4 p6) = Some (target_ethernet_address m, p8)"
    "np_at p8 (be_bytes (target_ip_address m) @ rest)"
    using np_at_read_array [OF conjunct2 [OF 7] l(2)] by blast
  note 9 = np_at_u32 [OF 8(2)]
  let ?m = "m0\<lparr>hardware_type := hardware_type m, protocol_type := protocol_type m,
     hardware_address_size := hardware_address_size m, protocol_address_size := protocol_address_size m, opcode := opcode m\<rparr>"
  have sup: "arp_supported ?m" using s(1) by (simp add: arp_supported_def)
  have "arp_parse ?b m0 = Some (np_error (np_adv 4 p8), m)"
    unfolding arp_parse_def Let_def p0_def [symmetric] if_not_P [OF long]
      conjunct1 [OF 1] conjunct1 [OF 2] conjunct1 [OF 3] conjunct1 [OF 4] conjunct1 [OF 5] bind_simps
    using sup by (simp add: 6(1) [simplified] conjunct1 [OF 7] 8(1) conjunct1 [OF 9])
  then show ?thesis using 9 by (simp add: np_at_def)
qed

definition arp_decode :: "bytes \<Rightarrow> (arp_message \<times> bytes) option" where
  "arp_decode bs = (case arp_parse (buffer_new bs) arp_message_default of
     Some (NoError, m) \<Rightarrow> Some (m, drop 28 bs) | _ \<Rightarrow> None)"

interpretation arp: wire_format arp_valid arp_serialize arp_decode
proof unfold_locales
  fix m assume v: "arp_valid m"
  then have l: "length (arp_bytes m) = 28" by (simp add: arp_valid_def length_arp_bytes)
  then show "\<exists>w. arp_serialize m = Some w \<and> w \<noteq> []" using v by (auto simp: arp_serialize_eq arp_valid_def)
  fix w rest assume "arp_serialize m = Some w" and "length (w @ rest) < 2 ^ 64"
  with v l arp_parse_bytes [OF v arp_sized_default, of rest] show "arp_decode (w @ rest) = Some (m, rest)"
    by (auto simp: arp_serialize_eq arp_decode_def split: if_splits)
qed

subsection \<open>Messages of arbitrary bytes\<close>

lemma be_bytes_field:
  fixes bs :: bytes
  shows "length bs \<ge> k + 2 \<Longrightarrow> be_bytes (be_int (take 2 (drop k bs)) :: u16) = take 2 (drop k bs)"
    "length bs \<ge> k + 4 \<Longrightarrow> be_bytes (be_int (take 4 (drop k bs)) :: u32) = take 4 (drop k bs)"
    "length bs \<ge> k + 1 \<Longrightarrow> [be_int (take 1 (drop k bs)) :: u8] = take 1 (drop k bs)"
  using be_bytes_be_int [of 2 "take 2 (drop k bs)", where 'a = 16] be_bytes_be_int [of 4 "take 4 (drop k bs)", where 'a = 32]
    be_bytes_be_int [of 1 "take 1 (drop k bs)", where 'a = 8]
  by simp_all

lemma take_pieces: "take n bs @ take m (drop n bs) = take (n + m) bs"
  by (simp add: take_add)

text \<open>The message read from at least 28 bytes, before and after the addresses.\<close>

definition arp_head :: "arp_message \<Rightarrow> bytes \<Rightarrow> arp_message" where
  "arp_head m bs = m\<lparr>hardware_type := be_int (take 2 (drop 0 bs)), protocol_type := be_int (take 2 (drop 2 bs)),
     hardware_address_size := be_int (take 1 (drop 4 bs)), protocol_address_size := be_int (take 1 (drop 5 bs)),
     opcode := be_int (take 2 (drop 6 bs))\<rparr>"

definition arp_whole :: "arp_message \<Rightarrow> bytes \<Rightarrow> arp_message" where
  "arp_whole m bs = (arp_head m bs)\<lparr>sender_ethernet_address := take 6 (drop 8 bs),
     sender_ip_address := be_int (take 4 (drop 14 bs)), target_ethernet_address := take 6 (drop 18 bs),
     target_ip_address := be_int (take 4 (drop 24 bs))\<rparr>"

lemma arp_parse_fields:
  assumes "buffer_inv b" and "bs = buffer_str b" and "28 \<le> length bs" and "arp_sized m"
  shows "arp_parse b m =
    Some (if arp_supported (arp_head m bs) then (NoError, arp_whole m bs) else (Unsupported, arp_head m bs))"
proof -
  define p0 where "p0 = np_new b"
  have l: "length (sender_ethernet_address m) = 6" "length (target_ethernet_address m) = 6"
    using assms(4) by (simp_all add: arp_sized_def address_valid_def)
  have "np_track bs 0 p0" using np_track_new [OF assms(1)] by (simp add: assms(2) p0_def)
  from np_track_u16 [OF this, of 2] assms(3) obtain p1 where 1: "np_u16 p0 = Some (be_int (take 2 (drop 0 bs)), p1)" "np_track bs 2 p1" by auto
  from np_track_u16 [OF 1(2), of 4] assms(3) obtain p2 where 2: "np_u16 p1 = Some (be_int (take 2 (drop 2 bs)), p2)" "np_track bs 4 p2" by auto
  from np_track_u8 [OF 2(2), of 5] assms(3) obtain p3 where 3: "np_u8 p2 = Some (be_int (take 1 (drop 4 bs)), p3)" "np_track bs 5 p3" by auto
  from np_track_u8 [OF 3(2), of 6] assms(3) obtain p4 where 4: "np_u8 p3 = Some (be_int (take 1 (drop 5 bs)), p4)" "np_track bs 6 p4" by auto
  from np_track_u16 [OF 4(2), of 8] assms(3) obtain p5 where 5: "np_u16 p4 = Some (be_int (take 2 (drop 6 bs)), p5)" "np_track bs 8 p5" by auto
  from np_track_read_array [OF 5(2), of "sender_ethernet_address m"] l assms(3)
  obtain p6 where 6: "np_read_array (sender_ethernet_address m) p5 = Some (take 6 (drop 8 bs), p6)" "np_track bs 14 p6" by auto
  from np_track_u32 [OF 6(2), of 18] assms(3) obtain p7 where 7: "np_u32 p6 = Some (be_int (take 4 (drop 14 bs)), p7)" "np_track bs 18 p7" by auto
  from np_track_read_array [OF 7(2), of "target_ethernet_address m"] l assms(3)
  obtain p8 where 8: "np_read_array (target_ethernet_address m) p7 = Some (take 6 (drop 18 bs), p8)" "np_track bs 24 p8" by auto
  from np_track_u32 [OF 8(2), of 28] assms(3) obtain p9 where 9: "np_u32 p8 = Some (be_int (take 4 (drop 24 bs)), p9)" "np_track bs 28 p9" by auto
  have long: "\<not> buffer_sz (np_buffer p0) < arp_LENGTH"
    using unat_buffer_sz [OF assms(1)] assms(2,3) by (simp add: word_less_nat_alt arp_LENGTH_def np_new_def p0_def)
  have a: "sender_ethernet_address (arp_head m bs) = sender_ethernet_address m"
    "target_ethernet_address (arp_head m bs) = target_ethernet_address m"
    by (simp_all add: arp_head_def)
  show ?thesis
    unfolding arp_parse_def Let_def p0_def [symmetric] if_not_P [OF long] 1(1) 2(1) 3(1) 4(1) 5(1) bind_simps
      arp_head_def [symmetric] a 6(1) 7(1) 8(1) 9(1) arp_whole_def [symmetric]
    using np_track_error [OF 9(2)] assms(3) by simp
qed

lemma arp_head_supported: "arp_supported (arp_whole m bs) = arp_supported (arp_head m bs)"
  by (simp add: arp_whole_def arp_supported_def)

lemma arp_whole_bytes:
  assumes "28 \<le> length bs"
  shows "arp_bytes (arp_whole m bs) = take 28 bs" "arp_sized (arp_whole m bs)"
proof -
  note F = be_bytes_field [where bs = bs]
  have "arp_bytes (arp_whole m bs) = take 2 bs @ take 2 (drop 2 bs) @ take 1 (drop 4 bs) @ take 1 (drop 5 bs) @
      take 2 (drop 6 bs) @ take 6 (drop 8 bs) @ take 4 (drop 14 bs) @ take 6 (drop 18 bs) @ take 4 (drop 24 bs)"
    using assms F(1) [of 0] F(1) [of 2] F(1) [of 6] F(3) [of 4] F(3) [of 5] F(2) [of 14] F(2) [of 24]
    by (simp add: arp_bytes_def arp_whole_def arp_head_def)
  also have "\<dots> = take 28 bs"
    using take_pieces [of 2 bs 2] take_pieces [of 4 bs 1] take_pieces [of 5 bs 1] take_pieces [of 6 bs 2]
      take_pieces [of 8 bs 6] take_pieces [of 14 bs 4] take_pieces [of 18 bs 6] take_pieces [of 24 bs 4]
    unfolding append_assoc [symmetric] by simp
  finally show "arp_bytes (arp_whole m bs) = take 28 bs" .
  show "arp_sized (arp_whole m bs)" using assms by (simp add: arp_whole_def arp_sized_def address_valid_def)
qed

subsection \<open>Properties\<close>

text \<open>
  Messages and bytes correspond one to one. A supported message is serialized, and parsing its
  28 bytes, with or without padding behind them, gives it back; conversely any bytes that parse
  without error are the serialization of the parsed message, followed by padding. All other inputs
  are reported: too short, or unsupported, and then the addresses in the object stay as they were.
\<close>

theorem arp_codec:
  fixes b :: buffer
  defines "bs \<equiv> buffer_str b"
  assumes "buffer_inv b" and "arp_sized m0"
  shows "(\<forall>m. arp_valid m \<and> arp_serialize m = Some (take 28 bs) \<longleftrightarrow> arp_parse b m0 = Some (NoError, m)) \<and>
    (\<exists>res m. arp_parse b m0 = Some (res, m) \<and> res \<in> {NoError, PacketTooShort, Unsupported} \<and>
       (res = PacketTooShort \<longleftrightarrow> length bs < 28) \<and>
       (res \<noteq> NoError \<longrightarrow> sender_ethernet_address m = sender_ethernet_address m0 \<and>
          sender_ip_address m = sender_ip_address m0))"
proof (cases "length bs < 28")
  case True
  have "buffer_sz (np_buffer (np_new b)) < arp_LENGTH"
    using True unat_buffer_sz [OF assms(2)] by (simp add: word_less_nat_alt arp_LENGTH_def np_new_def bs_def)
  then have "arp_parse b m0 = Some (PacketTooShort, m0)" by (simp add: arp_parse_def Let_def)
  moreover have "\<not> (arp_valid m \<and> arp_serialize m = Some (take 28 bs))" for m
    using True length_arp_bytes [of m] by (auto simp: arp_valid_def arp_serialize_eq)
  ultimately show ?thesis using True by auto
next
  case False
  then have len: "28 \<le> length bs" by simp
  note P = arp_parse_fields [OF assms(2) bs_def [THEN meta_eq_to_obj_eq] len assms(3)]
  have bwd: "arp_parse b m0 = Some (NoError, m)" if v: "arp_valid m" and s: "arp_serialize m = Some (take 28 bs)" for m
  proof -
    have b28: "arp_bytes m = take 28 bs" using v s by (simp add: arp_serialize_eq arp_valid_def)
    have "length bs < 2 ^ 64" using length_buffer_str [OF assms(2)] by (simp add: bs_def)
    moreover have "arp_bytes m @ drop 28 bs = bs" by (simp add: b28)
    ultimately have "arp_parse (buffer_new bs) m0 = Some (NoError, m)"
      using arp_parse_bytes [OF v assms(3), of "drop 28 bs"] by simp
    moreover have "buffer_inv (buffer_new bs)" using \<open>length bs < 2 ^ 64\<close> by (rule buffer_inv_new)
    ultimately show ?thesis using P arp_parse_fields [of "buffer_new bs" bs m0] len assms(3) by simp
  qed
  have fwd: "arp_valid m \<and> arp_serialize m = Some (take 28 bs)" if "arp_parse b m0 = Some (NoError, m)" for m
    using that P arp_whole_bytes [OF len, of m0] arp_head_supported [of m0 bs]
    by (auto simp: arp_valid_def arp_serialize_eq split: if_splits)
  have "\<forall>m. arp_valid m \<and> arp_serialize m = Some (take 28 bs) \<longleftrightarrow> arp_parse b m0 = Some (NoError, m)"
    using bwd fwd by blast
  then show ?thesis using P len by (auto simp: arp_head_def)
qed

theorem arp_codec_witness:
  "arp_parse (buffer_new (arp_bytes (arp_message_default\<lparr>opcode := OPCODE_REPLY\<rparr>))) arp_message_default =
     Some (NoError, arp_message_default\<lparr>opcode := OPCODE_REPLY\<rparr>)"
proof -
  let ?m = "arp_message_default\<lparr>opcode := OPCODE_REPLY\<rparr>"
  have v: "arp_valid ?m"
    by (simp add: arp_valid_def arp_supported_def arp_sized_def arp_message_default_def address_valid_def)
  then have l: "length (arp_bytes ?m) = 28" by (simp add: arp_valid_def length_arp_bytes)
  then have "buffer_inv (buffer_new (arp_bytes ?m))" by (intro buffer_inv_new) simp
  moreover have "arp_serialize ?m = Some (take 28 (arp_bytes ?m))" using v l by (simp add: arp_serialize_eq arp_valid_def)
  ultimately show ?thesis
    using v conjunct1 [OF arp_codec [of "buffer_new (arp_bytes ?m)" arp_message_default]] by auto
qed
end
