(* ===== verification/Net_Address.thy ===== *)
theory Net_Address
  imports Net_Parser
begin

text \<open>
  Socket addresses, \<open>libsponge/util/address.hh\<close> and \<open>address.cc\<close>: a \<open>sockaddr_storage\<close> of 128 bytes
  with the size that is in use. A \<open>sockaddr_in\<close> is its 16 bytes in the layout of the Linux ABI on a
  little-endian machine: the family, the port and the address in network order, and eight zero bytes.
  The resolver is not part of the program: \<open>getaddrinfo\<close> and \<open>getnameinfo\<close> are arguments of the
  definitions that call them. A throw is \<^const>\<open>None\<close>.
\<close>

record address =
  addr_size :: u32
  addr_storage :: bytes

definition AF_INET :: u16 where
  "AF_INET = 2"

text \<open>\<open>memcpy\<close> of a \<open>sockaddr\<close> into the storage, which is zero before.\<close>

definition address_raw :: "bytes \<Rightarrow> u64 \<Rightarrow> address option" where
  "address_raw addr sz =
     (if sz > 128 then None
      else Some \<lparr>addr_size = ucast sz, addr_storage = take (unat sz) addr @ replicate (128 - unat sz) 0\<rparr>)"

definition ss_family :: "address \<Rightarrow> u16" where
  "ss_family a = be_int (rev (take 2 (addr_storage a)))"

definition sockaddr_in :: "u16 \<Rightarrow> u32 \<Rightarrow> bytes" where
  "sockaddr_in sin_port s_addr = rev (be_bytes AF_INET) @ be_bytes sin_port @ be_bytes s_addr @ replicate 8 0"

definition ipv4_numeric :: "address \<Rightarrow> u32 option" where
  "ipv4_numeric a =
     (if ss_family a \<noteq> AF_INET \<or> addr_size a \<noteq> 16 then None
      else Some (be_int (take 4 (drop 4 (take 16 (addr_storage a))))))"

definition from_ipv4_numeric :: "u32 \<Rightarrow> address option" where
  "from_ipv4_numeric ip_address = address_raw (sockaddr_in 0 ip_address) 16"

definition address_eq :: "address \<Rightarrow> address \<Rightarrow> bool" where
  "address_eq a other \<longleftrightarrow> addr_size a = addr_size other \<and>
     take (unat (addr_size a)) (addr_storage a) = take (unat (addr_size a)) (addr_storage other)"

subsection \<open>The resolver\<close>

text \<open>The hints are the flags and the family; the result is the return value and the \<open>sockaddr\<close> of the
  first answer, if there is one.\<close>

type_synonym getaddrinfo = "string \<Rightarrow> string \<Rightarrow> int \<times> int \<Rightarrow> int \<times> bytes option"
type_synonym getnameinfo = "bytes \<Rightarrow> int \<times> string \<times> string"

definition AI_NUMERICHOST :: int where "AI_NUMERICHOST = 4"
definition AI_ALL :: int where "AI_ALL = 16"
definition AI_NUMERICSERV :: int where "AI_NUMERICSERV = 1024"

definition make_hints :: "int \<Rightarrow> int \<Rightarrow> int \<times> int" where
  "make_hints ai_flags ai_family = (ai_flags, ai_family)"

definition address_resolve :: "getaddrinfo \<Rightarrow> string \<Rightarrow> string \<Rightarrow> int \<times> int \<Rightarrow> address option" where
  "address_resolve gai node service hints =
     (let (gai_ret, resolved_address) = gai node service hints
      in if gai_ret \<noteq> 0 then None
         else case resolved_address of
                None \<Rightarrow> None
              | Some ai_addr \<Rightarrow> address_raw ai_addr (size64 ai_addr))"

definition address_of_host :: "getaddrinfo \<Rightarrow> string \<Rightarrow> string \<Rightarrow> address option" where
  "address_of_host gai hostname service = address_resolve gai hostname service (make_hints AI_ALL (uint AF_INET))"

text \<open>\<open>std::to_string\<close> and \<open>std::stoi\<close>: decimal digits; \<open>stoi\<close> skips white space, takes a sign, and
  throws without a digit or out of the range of \<open>int\<close>.\<close>

definition digit_char :: "nat \<Rightarrow> char" where
  "digit_char d = ''0123456789'' ! (d mod 10)"

fun decimal :: "nat \<Rightarrow> string" where
  "decimal n = (if n < 10 then [digit_char n] else decimal (n div 10) @ [digit_char (n mod 10)])"

declare decimal.simps [simp del]

definition digit_value :: "char \<Rightarrow> nat option" where
  "digit_value c = (let n = of_char c in if 48 \<le> n \<and> n \<le> (57 :: nat) then Some (n - 48) else None)"

fun leading_number :: "string \<Rightarrow> nat \<Rightarrow> nat" where
  "leading_number [] n = n"
| "leading_number (c # s) n = (case digit_value c of None \<Rightarrow> n | Some d \<Rightarrow> leading_number s (10 * n + d))"

definition is_space :: "char \<Rightarrow> bool" where
  "is_space c \<longleftrightarrow> c = CHR '' '' \<or> of_char c \<in> {9 .. 13 :: nat}"

definition stoi :: "string \<Rightarrow> int option" where
  "stoi str =
     (let s = dropWhile is_space str;
          (neg, s) = (case s of c # t \<Rightarrow> if c = CHR ''-'' then (True, t) else if c = CHR ''+'' then (False, t) else (False, s)
                      | [] \<Rightarrow> (False, s))
      in case s of
           [] \<Rightarrow> None
         | c # _ \<Rightarrow>
             if digit_value c = None then None
             else
               let n = int (leading_number s 0); v = (if neg then - n else n)
               in if - (2 ^ 31) \<le> v \<and> v < 2 ^ 31 then Some v else None)"

definition address_of_ip :: "getaddrinfo \<Rightarrow> string \<Rightarrow> u16 \<Rightarrow> address option" where
  "address_of_ip gai ip p =
     address_resolve gai ip (decimal (unat p)) (make_hints (or AI_NUMERICHOST AI_NUMERICSERV) (uint AF_INET))"

definition ip_port :: "getnameinfo \<Rightarrow> address \<Rightarrow> (string \<times> u16) option" where
  "ip_port gni a =
     (let (gni_ret, ip, service) = gni (take (unat (addr_size a)) (addr_storage a))
      in if gni_ret \<noteq> 0 then None else map_option (\<lambda>p. (ip, of_int p)) (stoi service))"

definition address_ip :: "getnameinfo \<Rightarrow> address \<Rightarrow> string option" where
  "address_ip gni a = map_option fst (ip_port gni a)"

definition address_port :: "getnameinfo \<Rightarrow> address \<Rightarrow> u16 option" where
  "address_port gni a = map_option snd (ip_port gni a)"

definition address_to_string :: "getnameinfo \<Rightarrow> address \<Rightarrow> string option" where
  "address_to_string gni a = map_option (\<lambda>(ip, p). ip @ '':'' @ decimal (unat p)) (ip_port gni a)"

text \<open>\<open>inet_ntoa\<close> of an address in host order: the dotted quad.\<close>

definition inet_ntoa :: "u32 \<Rightarrow> string" where
  "inet_ntoa x = (case be_bytes x of
     [a, b, c, d] \<Rightarrow> decimal (unat a) @ ''.'' @ decimal (unat b) @ ''.'' @ decimal (unat c) @ ''.'' @ decimal (unat d)
   | _ \<Rightarrow> [])"

subsection \<open>Numbers and addresses\<close>

lemma digit_value_digit: "d < 10 \<Longrightarrow> digit_value (digit_char d) = Some d"
proof -
  assume "d < 10"
  then have "d \<in> {0, 1, 2, 3, 4, 5, 6, 7, 8, 9}" by auto
  then show ?thesis by (auto simp: digit_char_def digit_value_def)
qed

lemma decimal_digits: "c \<in> set (decimal n) \<Longrightarrow> \<exists>d. digit_value c = Some d"
proof (induction n rule: decimal.induct)
  case (1 n)
  show ?case
  proof (cases "n < 10")
    case True
    then show ?thesis using "1.prems" digit_value_digit [of n] by (subst (asm) decimal.simps) simp
  next
    case False
    then show ?thesis
      using 1 digit_value_digit [of "n mod 10"] by (subst (asm) decimal.simps) auto
  qed
qed

lemma leading_number_decimal:
  "leading_number (decimal n @ s) m = leading_number s (m * 10 ^ length (decimal n) + n)"
proof (induction n arbitrary: s m rule: decimal.induct)
  case (1 n)
  show ?case
  proof (cases "n < 10")
    case True
    then have "decimal n = [digit_char n]" by (subst decimal.simps) simp
    then show ?thesis using True digit_value_digit [of n] by (simp add: mult.commute)
  next
    case False
    then have d: "decimal n = decimal (n div 10) @ [digit_char (n mod 10)]" by (subst decimal.simps) simp
    have "leading_number (decimal n @ s) m =
        leading_number s (10 * (m * 10 ^ length (decimal (n div 10)) + n div 10) + n mod 10)"
      unfolding d using 1 [OF False] digit_value_digit [of "n mod 10"] by simp
    moreover have "10 * (m * 10 ^ length (decimal (n div 10)) + n div 10) + n mod 10 = m * 10 ^ length (decimal n) + n"
      unfolding d by (simp add: algebra_simps)
    ultimately show ?thesis by (simp only:)
  qed
qed

lemma decimal_nonempty: "decimal n \<noteq> []"
  by (subst decimal.simps) simp

lemma digit_plain: "digit_value c = Some d \<Longrightarrow> \<not> is_space c \<and> c \<noteq> CHR ''-'' \<and> c \<noteq> CHR ''+''"
  by (auto simp: digit_value_def is_space_def Let_def split: if_splits)

lemma stoi_decimal:
  assumes "n < 2 ^ 31"
  shows "stoi (decimal n) = Some (int n)"
proof -
  obtain c s where cs: "decimal n = c # s" using decimal_nonempty [of n] by (cases "decimal n") auto
  then obtain d where "digit_value c = Some d" using decimal_digits [of c n] by auto
  moreover have "leading_number (c # s) 0 = n" using leading_number_decimal [of n "[]" 0] by (simp add: cs)
  ultimately show ?thesis using assms digit_plain by (auto simp: stoi_def cs Let_def)
qed

lemma sockaddr_in_simps [simp]: "length (sockaddr_in p x) = 16"
  by (simp add: sockaddr_in_def)

text \<open>The IPv4 address of a number and a port.\<close>

definition inet_address :: "u32 \<Rightarrow> u16 \<Rightarrow> address" where
  "inet_address x p = \<lparr>addr_size = 16, addr_storage = sockaddr_in p x @ replicate 112 0\<rparr>"

lemma address_raw_inet: "address_raw (sockaddr_in p x) 16 = Some (inet_address x p)"
  by (simp add: address_raw_def inet_address_def)

lemma from_ipv4_numeric_eq [simp]: "from_ipv4_numeric x = Some (inet_address x 0)"
  by (simp add: from_ipv4_numeric_def address_raw_inet)

lemma ipv4_numeric_inet [simp]: "ipv4_numeric (inet_address x p) = Some x"
proof -
  have "ss_family (inet_address x p) = AF_INET"
    by (simp add: ss_family_def inet_address_def sockaddr_in_def)
  then show ?thesis by (simp add: ipv4_numeric_def inet_address_def sockaddr_in_def)
qed

text \<open>What the resolver is documented to do on numeric input.\<close>

definition numeric_resolver :: "getaddrinfo \<Rightarrow> getnameinfo \<Rightarrow> bool" where
  "numeric_resolver gai gni \<longleftrightarrow>
     (\<forall>x p. gai (inet_ntoa x) (decimal (unat p)) (or AI_NUMERICHOST AI_NUMERICSERV, uint AF_INET) =
        (0, Some (sockaddr_in p x))) \<and>
     (\<forall>x p. gni (sockaddr_in p x) = (0, inet_ntoa x, decimal (unat p)))"

lemma address_of_ip_numeric: "numeric_resolver gai gni \<Longrightarrow> address_of_ip gai (inet_ntoa x) p = Some (inet_address x p)"
  by (simp add: numeric_resolver_def address_of_ip_def address_resolve_def make_hints_def address_raw_inet size64_def)

lemma ip_port_numeric: "numeric_resolver gai gni \<Longrightarrow> ip_port gni (inet_address x p) = Some (inet_ntoa x, p)"
proof -
  have "unat p < 2 ^ 31" using unat_u16_less [of p] by simp
  from stoi_decimal [OF this] show "numeric_resolver gai gni \<Longrightarrow> ip_port gni (inet_address x p) = Some (inet_ntoa x, p)"
    by (simp add: numeric_resolver_def ip_port_def inet_address_def)
qed

text \<open>A resolver for numeric input only.\<close>

fun quad_numbers :: "nat \<Rightarrow> string \<Rightarrow> nat list" where
  "quad_numbers 0 s = []"
| "quad_numbers (Suc n) s =
     leading_number s 0 # quad_numbers n (drop 1 (dropWhile (\<lambda>c. digit_value c \<noteq> None) s))"

definition plain_getaddrinfo :: getaddrinfo where
  "plain_getaddrinfo node service hints =
     (0, Some (sockaddr_in (of_nat (leading_number service 0)) (be_int (map of_nat (quad_numbers 4 node)))))"

definition plain_getnameinfo :: getnameinfo where
  "plain_getnameinfo addr =
     (0, inet_ntoa (be_int (take 4 (drop 4 addr))), decimal (unat (be_int (take 2 (drop 2 addr)) :: u16)))"

lemma quad_numbers_step:
  "quad_numbers (Suc n) (decimal a @ CHR ''.'' # s) = a # quad_numbers n s"
proof -
  have "digit_value CHR ''.'' = None" by (simp add: digit_value_def)
  moreover have "dropWhile (\<lambda>c. digit_value c \<noteq> None) (decimal a @ t) = dropWhile (\<lambda>c. digit_value c \<noteq> None) t" for t
    using decimal_digits [of _ a] by (intro dropWhile_append2) force
  ultimately show ?thesis by (simp add: leading_number_decimal)
qed

lemma quad_numbers_inet_ntoa: "be_int (map of_nat (quad_numbers 4 (inet_ntoa x))) = x"
proof -
  have "length (be_bytes x) = Suc (Suc (Suc (Suc 0)))" by simp
  then obtain a b c d where q: "be_bytes x = [a, b, c, d]"
    unfolding length_Suc_conv length_0_conv by blast
  have "quad_numbers 4 (inet_ntoa x) = [unat a, unat b, unat c, unat d]"
    using quad_numbers_step leading_number_decimal [of _ "[]" 0]
    by (simp add: inet_ntoa_def q eval_nat_numeral del: quad_numbers.simps(2)) simp
  then have "map of_nat (quad_numbers 4 (inet_ntoa x)) = be_bytes x" by (simp add: q)
  then show ?thesis using be_int_be_bytes_num(3) [of x] by (simp only:)
qed

lemma plain_resolver: "numeric_resolver plain_getaddrinfo plain_getnameinfo"
  using leading_number_decimal [of _ "[]" 0] quad_numbers_inet_ntoa
  by (simp add: numeric_resolver_def plain_getaddrinfo_def plain_getnameinfo_def) (simp add: sockaddr_in_def)

subsection \<open>Properties\<close>

text \<open>
  Conversions of an IPv4 address. With a resolver that translates numeric strings as documented,
  the address built from a dotted quad and a port has that number, that quad and that port; the
  address made from the number alone has the same number, and the two are equal exactly when the
  port is zero.
\<close>

lemma address_conversions:
  assumes "numeric_resolver gai gni"
  shows "\<exists>a b. address_of_ip gai (inet_ntoa x) p = Some a \<and> from_ipv4_numeric x = Some b \<and>
    ipv4_numeric a = Some x \<and> ipv4_numeric b = Some x \<and>
    address_ip gni a = Some (inet_ntoa x) \<and> address_port gni a = Some p \<and>
    address_to_string gni a = Some (inet_ntoa x @ '':'' @ decimal (unat p)) \<and>
    (address_eq a b \<longleftrightarrow> p = 0)"
proof -
  have "address_eq (inet_address x p) (inet_address x 0) \<longleftrightarrow> be_bytes p = be_bytes (0 :: u16)"
    by (simp add: address_eq_def inet_address_def sockaddr_in_def)
  also have "\<dots> \<longleftrightarrow> p = 0" by (metis be_int_be_bytes_num(2))
  finally show ?thesis
    using address_of_ip_numeric [OF assms, of x p] ip_port_numeric [OF assms, of x p]
    by (simp add: address_ip_def address_port_def address_to_string_def)
qed

end
