(* ===== verification/Ordered_Map.thy ===== *)
theory Ordered_Map
  imports Sponge_Prelude
begin

text \<open>
  What the code uses of \<open>std::map\<close>: a list of pairs with strictly increasing keys, so that iteration
  is in key order. \<open>omap_insert\<close> is \<open>insert\<close>, which leaves an existing entry alone; \<open>omap_put\<close> is
  an assignment through \<open>operator[]\<close> or through an iterator.
\<close>

type_synonym ('k, 'v) omap = "('k \<times> 'v) list"

definition omap_inv :: "('k :: linorder, 'v) omap \<Rightarrow> bool" where
  "omap_inv m \<longleftrightarrow> sorted_wrt (<) (map fst m)"

definition omap_find :: "'k \<Rightarrow> ('k, 'v) omap \<Rightarrow> 'v option" where
  "omap_find k m = map_of m k"

fun omap_put :: "'k :: linorder \<Rightarrow> 'v \<Rightarrow> ('k, 'v) omap \<Rightarrow> ('k, 'v) omap" where
  "omap_put k v [] = [(k, v)]"
| "omap_put k v ((a, b) # m) =
     (if k < a then (k, v) # (a, b) # m else if k = a then (k, v) # m else (a, b) # omap_put k v m)"

definition omap_insert :: "'k :: linorder \<Rightarrow> 'v \<Rightarrow> ('k, 'v) omap \<Rightarrow> ('k, 'v) omap" where
  "omap_insert k v m = (if omap_find k m = None then omap_put k v m else m)"

definition omap_erase :: "'k \<Rightarrow> ('k, 'v) omap \<Rightarrow> ('k, 'v) omap" where
  "omap_erase k m = filter (\<lambda>e. fst e \<noteq> k) m"

text \<open>A loop over all entries that erases some and updates the others in place.\<close>

fun omap_sweep :: "('v \<Rightarrow> 'v option) \<Rightarrow> ('k, 'v) omap \<Rightarrow> ('k, 'v) omap" where
  "omap_sweep f [] = []"
| "omap_sweep f ((k, v) # m) = (case f v of None \<Rightarrow> omap_sweep f m | Some w \<Rightarrow> (k, w) # omap_sweep f m)"

subsection \<open>The contract of a map\<close>

locale map_store =
  fixes invar :: "'m \<Rightarrow> bool"
    and empty :: 'm
    and find :: "'k \<Rightarrow> 'm \<Rightarrow> 'v option"
    and put :: "'k \<Rightarrow> 'v \<Rightarrow> 'm \<Rightarrow> 'm"
    and erase :: "'k \<Rightarrow> 'm \<Rightarrow> 'm"
    and sweep :: "('v \<Rightarrow> 'v option) \<Rightarrow> 'm \<Rightarrow> 'm"
  assumes empty_ok: "invar empty" "find k empty = None"
    and put_ok: "invar m \<Longrightarrow> invar (put k v m)" "invar m \<Longrightarrow> find j (put k v m) = (if j = k then Some v else find j m)"
    and erase_ok: "invar m \<Longrightarrow> invar (erase k m)" "invar m \<Longrightarrow> find j (erase k m) = (if j = k then None else find j m)"
    and sweep_ok: "invar m \<Longrightarrow> invar (sweep f m)" "invar m \<Longrightarrow> find j (sweep f m) = Option.bind (find j m) f"
begin

text \<open>Clearing everything that a test rejects keeps the entries that pass it.\<close>

lemma sweep_filter:
  "invar m \<Longrightarrow> find j (sweep (\<lambda>v. if P v then Some v else None) m) =
     (case find j m of None \<Rightarrow> None | Some v \<Rightarrow> if P v then Some v else None)"
  by (simp add: sweep_ok split: option.split)

lemma put_put: "invar m \<Longrightarrow> find j (put k v (put k w m)) = find j (put k v m)"
  by (simp add: put_ok)

end

lemma omap_put_keys: "fst ` set (omap_put k v m) = insert k (fst ` set m)"
  by (induction k v m rule: omap_put.induct) auto

lemma omap_inv_put: "omap_inv m \<Longrightarrow> omap_inv (omap_put k v m)"
proof (induction k v m rule: omap_put.induct)
  case (2 k v a b m)
  have "fst ` set (omap_put k v m) = insert k (fst ` set m)" by (rule omap_put_keys)
  with 2 show ?case by (auto simp: omap_inv_def)
qed (simp add: omap_inv_def)

lemma omap_find_absent: "omap_inv ((a, b) # m) \<Longrightarrow> k \<le> a \<Longrightarrow> map_of m k = None"
  by (auto simp: omap_inv_def map_of_eq_None_iff)

lemma omap_find_put: "omap_inv m \<Longrightarrow> omap_find j (omap_put k v m) = (if j = k then Some v else omap_find j m)"
proof (induction k v m rule: omap_put.induct)
  case (2 k v a b m)
  then show ?case using omap_find_absent [OF 2(2)] by (auto simp: omap_find_def omap_inv_def)
qed (simp add: omap_find_def)

lemma omap_erase_ok:
  "omap_inv m \<Longrightarrow> omap_inv (omap_erase k m)" "omap_find j (omap_erase k m) = (if j = k then None else omap_find j m)"
proof -
  show "omap_inv m \<Longrightarrow> omap_inv (omap_erase k m)"
    by (induction m) (auto simp: omap_inv_def omap_erase_def)
  show "omap_find j (omap_erase k m) = (if j = k then None else omap_find j m)"
    by (induction m) (auto simp: omap_find_def omap_erase_def)
qed

lemma omap_sweep_keys: "fst ` set (omap_sweep f m) \<subseteq> fst ` set m"
  by (induction f m rule: omap_sweep.induct) (auto split: option.splits)

lemma omap_sweep_ok:
  assumes "omap_inv m"
  shows "omap_inv (omap_sweep f m)" "omap_find j (omap_sweep f m) = Option.bind (omap_find j m) f"
proof -
  show "omap_inv (omap_sweep f m)"
    using assms
  proof (induction f m rule: omap_sweep.induct)
    case (2 f k v m)
    have "\<forall>x \<in> fst ` set (omap_sweep f m). k < x"
      using 2(3) omap_sweep_keys [of f m] by (fastforce simp: omap_inv_def)
    with 2 show ?case by (auto simp: omap_inv_def split: option.split)
  qed simp
  show "omap_find j (omap_sweep f m) = Option.bind (omap_find j m) f"
    using assms
  proof (induction f m rule: omap_sweep.induct)
    case (2 f k v m)
    have "map_of (omap_sweep f m) k = None"
      using omap_find_absent [OF 2(3), of k] omap_sweep_keys [of f m] by (auto simp: map_of_eq_None_iff)
    moreover have "omap_inv m" using 2(3) by (simp add: omap_inv_def)
    ultimately show ?case using 2(1,2) by (auto simp: omap_find_def split: option.split)
  qed (simp add: omap_find_def)
qed

interpretation omap: map_store omap_inv "[]" omap_find omap_put omap_erase omap_sweep
  by unfold_locales (simp_all add: omap_inv_put omap_find_put omap_erase_ok omap_sweep_ok, simp_all add: omap_inv_def omap_find_def)

lemma omap_insert_ok:
  assumes "omap_inv m"
  shows "omap_inv (omap_insert k v m)"
    "omap_find j (omap_insert k v m) = (if j = k \<and> omap_find k m = None then Some v else omap_find j m)"
  using assms by (simp_all add: omap_insert_def omap.put_ok)

lemmas omap_simps = omap.empty_ok omap.put_ok omap.erase_ok omap.sweep_ok omap_insert_ok

end
