(* ===== verification/Network_Interface.thy ===== *)
theory Network_Interface
  imports IPv4_Datagram ARP_Message Net_Address Ordered_Map
begin

text \<open>
  The network interface, \<open>libsponge/network_interface.hh\<close> and \<open>network_interface.cc\<close>: datagrams in,
  Ethernet frames out, with the Address Resolution Protocol in between. Throws of the parts are
  \<^const>\<open>None\<close>. Output under the flag \<open>debug\<close>, which is constantly false, and the message of the
  constructor are left out.
\<close>

record arp_entry =
  eth_addr :: EthernetAddress
  ent_elapsed :: u64

record network_interface =
  ni_ethernet_address :: EthernetAddress
  ni_ip_address :: address
  frames_out :: "ethernet_frame list"
  forwarding_table :: "(u32, arp_entry) omap"
  outstanding_msg :: "(u32, u64) omap"
  unsent_datagrams :: "(u32, ipv4_datagram list) omap"

definition MSG_EXPIRY :: u64 where
  "MSG_EXPIRY = 5000"

definition ENTRY_EXPIRY :: u64 where
  "ENTRY_EXPIRY = 30000"

definition ARPMSG_ETHERNET_BROADCAST :: EthernetAddress where
  "ARPMSG_ETHERNET_BROADCAST = [0, 0, 0, 0, 0, 0]"

definition ni_new :: "EthernetAddress \<Rightarrow> address \<Rightarrow> network_interface" where
  "ni_new ethernet_address ip_address = \<lparr>ni_ethernet_address = ethernet_address, ni_ip_address = ip_address,
     frames_out = [], forwarding_table = [], outstanding_msg = [], unsent_datagrams = []\<rparr>"

subsection \<open>Sending\<close>

definition push_frame :: "EthernetAddress \<Rightarrow> u16 \<Rightarrow> buffer_list \<Rightarrow> network_interface \<Rightarrow> network_interface" where
  "push_frame dst typ body ni =
     (let hdr = \<lparr>eth_dst = dst, eth_src = ni_ethernet_address ni, eth_type = typ\<rparr>;
          frame = \<lparr>fr_header = hdr, fr_payload = body\<rparr>
      in ni\<lparr>frames_out := frames_out ni @ [frame]\<rparr>)"

definition queue_unsent :: "u32 \<Rightarrow> ipv4_datagram \<Rightarrow> network_interface \<Rightarrow> network_interface" where
  "queue_unsent next_hop_ip dgram ni =
     (case omap_find next_hop_ip (unsent_datagrams ni) of
        None \<Rightarrow> ni\<lparr>unsent_datagrams := omap_insert next_hop_ip [dgram] (unsent_datagrams ni)\<rparr>
      | Some q \<Rightarrow> ni\<lparr>unsent_datagrams := omap_put next_hop_ip (q @ [dgram]) (unsent_datagrams ni)\<rparr>)"

definition arp_request :: "u32 \<Rightarrow> u32 \<Rightarrow> network_interface \<Rightarrow> arp_message" where
  "arp_request own_ip next_hop_ip ni = arp_message_default\<lparr>opcode := OPCODE_REQUEST,
     sender_ethernet_address := ni_ethernet_address ni, sender_ip_address := own_ip,
     target_ethernet_address := ARPMSG_ETHERNET_BROADCAST, target_ip_address := next_hop_ip\<rparr>"

definition send_datagram :: "ipv4_datagram \<Rightarrow> address \<Rightarrow> network_interface \<Rightarrow> network_interface option" where
  "send_datagram dgram next_hop ni = do {
     next_hop_ip \<leftarrow> ipv4_numeric next_hop;
     case omap_find next_hop_ip (forwarding_table ni) of
       Some ent \<Rightarrow> do {
         body \<leftarrow> ipv4_datagram_serialize dgram;
         Some (push_frame (eth_addr ent) TYPE_IPv4 body ni)
       }
     | None \<Rightarrow>
         let ni = queue_unsent next_hop_ip dgram ni
         in if omap_find next_hop_ip (outstanding_msg ni) \<noteq> None then Some ni
            else do {
              let ni = ni\<lparr>outstanding_msg := omap_insert next_hop_ip 0 (outstanding_msg ni)\<rparr>;
              own_ip \<leftarrow> ipv4_numeric (ni_ip_address ni);
              body \<leftarrow> arp_serialize (arp_request own_ip next_hop_ip ni);
              Some (push_frame ETHERNET_BROADCAST TYPE_ARP (bl_of_string body) ni)
            }
   }"

subsection \<open>Receiving\<close>

text \<open>The loop that sends what waited for the address; the queue is popped after each send.\<close>

definition pop_unsent :: "u32 \<Rightarrow> network_interface \<Rightarrow> network_interface" where
  "pop_unsent ip ni =
     (case omap_find ip (unsent_datagrams ni) of
        None \<Rightarrow> ni
      | Some q \<Rightarrow> ni\<lparr>unsent_datagrams := omap_put ip (tl q) (unsent_datagrams ni)\<rparr>)"

partial_function (option) flush_unsent :: "u32 \<Rightarrow> network_interface \<Rightarrow> network_interface option" where
  "flush_unsent ip ni =
     (case omap_find ip (unsent_datagrams ni) of
        None \<Rightarrow> Some ni
      | Some q \<Rightarrow>
          (case q of
             [] \<Rightarrow> Some ni
           | dgram # _ \<Rightarrow> do {
               next_hop \<leftarrow> from_ipv4_numeric ip;
               ni \<leftarrow> send_datagram dgram next_hop ni;
               flush_unsent ip (pop_unsent ip ni)
             }))"

definition arp_reply :: "u32 \<Rightarrow> arp_message \<Rightarrow> network_interface \<Rightarrow> arp_message" where
  "arp_reply own_ip msg ni = arp_message_default\<lparr>opcode := OPCODE_REPLY,
     sender_ethernet_address := ni_ethernet_address ni, sender_ip_address := own_ip,
     target_ethernet_address := sender_ethernet_address msg, target_ip_address := sender_ip_address msg\<rparr>"

definition recv_arp :: "arp_message \<Rightarrow> u32 \<Rightarrow> network_interface \<Rightarrow> network_interface option" where
  "recv_arp msg own_ip ni = do {
     let ent = \<lparr>eth_addr = sender_ethernet_address msg, ent_elapsed = 0\<rparr>;
     let ni = ni\<lparr>forwarding_table := omap_insert (sender_ip_address msg) ent (forwarding_table ni)\<rparr>;
     ni \<leftarrow> flush_unsent (sender_ip_address msg) ni;
     if opcode msg = OPCODE_REQUEST
     then do {
       body \<leftarrow> arp_serialize (arp_reply own_ip msg ni);
       Some (push_frame (sender_ethernet_address msg) TYPE_ARP (bl_of_string body) ni)
     }
     else Some (ni\<lparr>outstanding_msg := omap_erase (sender_ip_address msg) (outstanding_msg ni)\<rparr>)
   }"

definition recv_frame :: "ethernet_frame \<Rightarrow> network_interface \<Rightarrow> (ipv4_datagram option \<times> network_interface) option" where
  "recv_frame frame ni =
     (if eth_dst (fr_header frame) \<noteq> ni_ethernet_address ni \<and> eth_dst (fr_header frame) \<noteq> ETHERNET_BROADCAST
      then Some (None, ni)
      else
        let payload_single = buffer_new (bl_concatenate (fr_payload frame))
        in if eth_type (fr_header frame) = TYPE_IPv4
           then do {
             (res, dgram) \<leftarrow> ipv4_datagram_parse payload_single ipv4_datagram_default;
             Some (if res \<noteq> NoError then None else Some dgram, ni)
           }
           else if eth_type (fr_header frame) = TYPE_ARP
           then do {
             (res, msg) \<leftarrow> arp_parse payload_single arp_message_default;
             if res \<noteq> NoError then Some (None, ni)
             else do {
               own_ip \<leftarrow> ipv4_numeric (ni_ip_address ni);
               if target_ip_address msg \<noteq> own_ip then Some (None, ni)
               else do {
                 ni \<leftarrow> recv_arp msg own_ip ni;
                 Some (None, ni)
               }
             }
           }
           else Some (None, ni))"

subsection \<open>Time\<close>

definition age_entry :: "u64 \<Rightarrow> arp_entry \<Rightarrow> arp_entry option" where
  "age_entry ms ent =
     (if ent_elapsed ent + ms > ENTRY_EXPIRY then None else Some (ent\<lparr>ent_elapsed := ent_elapsed ent + ms\<rparr>))"

definition age_msg :: "u64 \<Rightarrow> u64 \<Rightarrow> u64 option" where
  "age_msg ms t = (if t + ms > MSG_EXPIRY then None else Some (t + ms))"

definition ni_tick :: "u64 \<Rightarrow> network_interface \<Rightarrow> network_interface" where
  "ni_tick ms_since_last_tick ni =
     ni\<lparr>forwarding_table := omap_sweep (age_entry ms_since_last_tick) (forwarding_table ni),
        outstanding_msg := omap_sweep (age_msg ms_since_last_tick) (outstanding_msg ni)\<rparr>"

subsection \<open>Invariant\<close>

text \<open>What waits for an address.\<close>

definition waiting :: "u32 \<Rightarrow> network_interface \<Rightarrow> ipv4_datagram list" where
  "waiting ip ni = (case omap_find ip (unsent_datagrams ni) of None \<Rightarrow> [] | Some q \<Rightarrow> q)"

definition sendable :: "ipv4_datagram \<Rightarrow> bool" where
  "sendable d \<longleftrightarrow> ipv4_datagram_serialize d \<noteq> None"

text \<open>The interface has the numeric address \<open>own\<close>; the tables are in order and nothing in them is
  overdue; datagrams wait only for addresses that are not known, and all of them can be sent.\<close>

definition ni_inv :: "u32 \<Rightarrow> network_interface \<Rightarrow> bool" where
  "ni_inv own ni \<longleftrightarrow>
     address_valid (ni_ethernet_address ni) \<and> ipv4_numeric (ni_ip_address ni) = Some own \<and>
     omap_inv (forwarding_table ni) \<and> omap_inv (outstanding_msg ni) \<and> omap_inv (unsent_datagrams ni) \<and>
     (\<forall>ip ent. omap_find ip (forwarding_table ni) = Some ent \<longrightarrow> ent_elapsed ent \<le> ENTRY_EXPIRY \<and> waiting ip ni = []) \<and>
     (\<forall>ip t. omap_find ip (outstanding_msg ni) = Some t \<longrightarrow> t \<le> MSG_EXPIRY) \<and>
     (\<forall>ip. \<forall>d \<in> set (waiting ip ni). sendable d)"

lemma ni_invD:
  assumes "ni_inv own ni"
  shows "address_valid (ni_ethernet_address ni)" "ipv4_numeric (ni_ip_address ni) = Some own"
    "omap_inv (forwarding_table ni)" "omap_inv (outstanding_msg ni)" "omap_inv (unsent_datagrams ni)"
    "omap_find ip (forwarding_table ni) = Some ent \<Longrightarrow> ent_elapsed ent \<le> ENTRY_EXPIRY \<and> waiting ip ni = []"
    "omap_find ip (outstanding_msg ni) = Some t \<Longrightarrow> t \<le> MSG_EXPIRY"
    "d \<in> set (waiting ip ni) \<Longrightarrow> sendable d"
  using assms by (auto simp: ni_inv_def)

lemma ni_inv_new:
  assumes "address_valid eth" and "ipv4_numeric addr = Some own"
  shows "ni_inv own (ni_new eth addr)"
  using assms by (simp add: ni_inv_def ni_new_def omap_simps waiting_def)

lemma push_frame_simps [simp]:
  "frames_out (push_frame dst typ body ni) = frames_out ni @
     [\<lparr>fr_header = \<lparr>eth_dst = dst, eth_src = ni_ethernet_address ni, eth_type = typ\<rparr>, fr_payload = body\<rparr>]"
  "forwarding_table (push_frame dst typ body ni) = forwarding_table ni"
  "outstanding_msg (push_frame dst typ body ni) = outstanding_msg ni"
  "unsent_datagrams (push_frame dst typ body ni) = unsent_datagrams ni"
  "ni_ethernet_address (push_frame dst typ body ni) = ni_ethernet_address ni"
  "ni_ip_address (push_frame dst typ body ni) = ni_ip_address ni"
  by (simp_all add: push_frame_def Let_def)

lemma waiting_simps [simp]:
  "waiting ip (ni\<lparr>outstanding_msg := m\<rparr>) = waiting ip ni" "waiting ip (ni\<lparr>forwarding_table := t\<rparr>) = waiting ip ni"
  "waiting ip (push_frame dst typ body ni) = waiting ip ni" "waiting ip (ni\<lparr>frames_out := fs\<rparr>) = waiting ip ni"
  by (simp_all add: waiting_def)

lemma ni_inv_push_frame [simp]: "ni_inv own (push_frame dst typ body ni) = ni_inv own ni"
  by (simp add: ni_inv_def)

lemma queue_unsent_simps [simp]:
  "frames_out (queue_unsent ip d ni) = frames_out ni" "forwarding_table (queue_unsent ip d ni) = forwarding_table ni"
  "outstanding_msg (queue_unsent ip d ni) = outstanding_msg ni"
  "ni_ethernet_address (queue_unsent ip d ni) = ni_ethernet_address ni"
  "ni_ip_address (queue_unsent ip d ni) = ni_ip_address ni"
  by (simp_all add: queue_unsent_def split: option.split)

lemma waiting_queue_unsent:
  assumes "omap_inv (unsent_datagrams ni)"
  shows "omap_inv (unsent_datagrams (queue_unsent ip d ni))"
    "waiting j (queue_unsent ip d ni) = (if j = ip then waiting ip ni @ [d] else waiting j ni)"
  using assms by (auto simp: queue_unsent_def waiting_def omap_simps split: option.split)

subsection \<open>Sending\<close>

definition ipv4_frame :: "EthernetAddress \<Rightarrow> EthernetAddress \<Rightarrow> ipv4_datagram \<Rightarrow> ethernet_frame" where
  "ipv4_frame src dst d =
     \<lparr>fr_header = \<lparr>eth_dst = dst, eth_src = src, eth_type = TYPE_IPv4\<rparr>, fr_payload = the (ipv4_datagram_serialize d)\<rparr>"

definition request_message :: "EthernetAddress \<Rightarrow> u32 \<Rightarrow> u32 \<Rightarrow> arp_message" where
  "request_message src own ip = arp_message_default\<lparr>opcode := OPCODE_REQUEST,
     sender_ethernet_address := src, sender_ip_address := own,
     target_ethernet_address := ARPMSG_ETHERNET_BROADCAST, target_ip_address := ip\<rparr>"

definition reply_message :: "EthernetAddress \<Rightarrow> u32 \<Rightarrow> EthernetAddress \<Rightarrow> u32 \<Rightarrow> arp_message" where
  "reply_message src own dst ip = arp_message_default\<lparr>opcode := OPCODE_REPLY,
     sender_ethernet_address := src, sender_ip_address := own,
     target_ethernet_address := dst, target_ip_address := ip\<rparr>"

definition arp_frame :: "EthernetAddress \<Rightarrow> EthernetAddress \<Rightarrow> arp_message \<Rightarrow> ethernet_frame" where
  "arp_frame src dst m =
     \<lparr>fr_header = \<lparr>eth_dst = dst, eth_src = src, eth_type = TYPE_ARP\<rparr>, fr_payload = bl_of_string (arp_bytes m)\<rparr>"

lemma arp_messages_valid:
  assumes "address_valid src"
  shows "arp_valid (request_message src own ip)"
    "address_valid dst \<Longrightarrow> arp_valid (reply_message src own dst ip)"
    "arp_supported (reply_message src own dst ip)"
  using assms by (simp_all add: arp_valid_def arp_supported_def arp_sized_def request_message_def reply_message_def
      arp_message_default_def ARPMSG_ETHERNET_BROADCAST_def address_valid_def OPCODE_REQUEST_def OPCODE_REPLY_def)

lemma arp_serialize_request:
  "address_valid (ni_ethernet_address ni) \<Longrightarrow>
     arp_serialize (arp_request own ip ni) = Some (arp_bytes (request_message (ni_ethernet_address ni) own ip))"
  using arp_messages_valid(1) [of "ni_ethernet_address ni" own ip]
  by (simp add: arp_serialize_eq arp_valid_def) (simp add: arp_request_def request_message_def)

text \<open>\<open>send_datagram\<close> to a known and to an unknown address.\<close>

lemma send_known:
  assumes "ipv4_numeric next_hop = Some ip" and "omap_find ip (forwarding_table ni) = Some ent" and "sendable d"
  shows "send_datagram d next_hop ni =
    Some (ni\<lparr>frames_out := frames_out ni @ [ipv4_frame (ni_ethernet_address ni) (eth_addr ent) d]\<rparr>)"
  using assms by (auto simp: send_datagram_def sendable_def ipv4_frame_def push_frame_def Let_def)

lemma send_unknown:
  assumes inv: "ni_inv own ni" and "ipv4_numeric next_hop = Some ip" and "omap_find ip (forwarding_table ni) = None"
  shows "send_datagram d next_hop ni =
    Some (if omap_find ip (outstanding_msg ni) \<noteq> None then queue_unsent ip d ni
          else (queue_unsent ip d ni)\<lparr>outstanding_msg := omap_insert ip 0 (outstanding_msg ni),
            frames_out := frames_out ni @ [arp_frame (ni_ethernet_address ni) ETHERNET_BROADCAST
              (request_message (ni_ethernet_address ni) own ip)]\<rparr>)"
proof -
  let ?ni = "(queue_unsent ip d ni)\<lparr>outstanding_msg := omap_insert ip 0 (outstanding_msg ni)\<rparr>"
  have "address_valid (ni_ethernet_address ?ni)" using ni_invD(1) [OF inv] by simp
  from arp_serialize_request [OF this, of own ip]
  show ?thesis
    using assms(2,3) ni_invD(2) [OF inv]
    by (simp add: send_datagram_def Let_def arp_frame_def push_frame_def)
qed

lemma ni_inv_send:
  assumes inv: "ni_inv own ni" and ip: "ipv4_numeric next_hop = Some ip" and d: "sendable d"
  shows "\<exists>ni'. send_datagram d next_hop ni = Some ni' \<and> ni_inv own ni' \<and>
    ni_ethernet_address ni' = ni_ethernet_address ni \<and> forwarding_table ni' = forwarding_table ni"
proof (cases "omap_find ip (forwarding_table ni)")
  case (Some ent)
  from send_known [OF ip Some d] inv show ?thesis by (simp add: ni_inv_def)
next
  case None
  note I = ni_invD [OF inv]
  let ?q = "queue_unsent ip d ni"
  have q: "ni_inv own ?q"
    using inv d None waiting_queue_unsent [OF I(5)] by (auto simp: ni_inv_def)
  moreover have "ni_inv own (?q\<lparr>outstanding_msg := omap_insert ip 0 (outstanding_msg ni), frames_out := fs\<rparr>)" for fs
    using q I(4) omap_insert_ok [OF I(4)] by (auto simp: ni_inv_def split: if_splits)
  ultimately show ?thesis using send_unknown [OF inv ip None] by auto
qed

subsection \<open>Receiving\<close>

lemma waiting_pop:
  assumes "omap_inv (unsent_datagrams ni)"
  shows "omap_inv (unsent_datagrams (pop_unsent ip ni))"
    "waiting j (pop_unsent ip ni) = (if j = ip then tl (waiting ip ni) else waiting j ni)"
  using assms by (auto simp: pop_unsent_def waiting_def omap_simps split: option.split)

lemma pop_unsent_simps [simp]:
  "frames_out (pop_unsent ip ni) = frames_out ni" "forwarding_table (pop_unsent ip ni) = forwarding_table ni"
  "outstanding_msg (pop_unsent ip ni) = outstanding_msg ni"
  "ni_ethernet_address (pop_unsent ip ni) = ni_ethernet_address ni"
  "ni_ip_address (pop_unsent ip ni) = ni_ip_address ni"
  by (simp_all add: pop_unsent_def split: option.split)

text \<open>What sending everything that waits for \<open>ip\<close> leaves unchanged, and what it sends.\<close>

definition flushed :: "u32 \<Rightarrow> EthernetAddress \<Rightarrow> network_interface \<Rightarrow> network_interface \<Rightarrow> bool" where
  "flushed ip dst ni ni' \<longleftrightarrow>
     frames_out ni' = frames_out ni @ map (ipv4_frame (ni_ethernet_address ni) dst) (waiting ip ni) \<and>
     (\<forall>j. waiting j ni' = (if j = ip then [] else waiting j ni)) \<and> omap_inv (unsent_datagrams ni') \<and>
     forwarding_table ni' = forwarding_table ni \<and> outstanding_msg ni' = outstanding_msg ni \<and>
     ni_ethernet_address ni' = ni_ethernet_address ni \<and> ni_ip_address ni' = ni_ip_address ni"

lemma flush_known:
  assumes "omap_inv (unsent_datagrams ni)" and "omap_find ip (forwarding_table ni) = Some ent"
    and "\<forall>d \<in> set (waiting ip ni). sendable d"
  shows "\<exists>ni'. flush_unsent ip ni = Some ni' \<and> flushed ip (eth_addr ent) ni ni'"
  using assms
proof (induction "waiting ip ni" arbitrary: ni)
  case Nil
  then have "flush_unsent ip ni = Some ni"
    by (subst flush_unsent.simps) (auto simp: waiting_def split: option.splits)
  with Nil show ?case by (auto simp: flushed_def)
next
  case (Cons d q)
  define ni1 where "ni1 = ni\<lparr>frames_out := frames_out ni @ [ipv4_frame (ni_ethernet_address ni) (eth_addr ent) d]\<rparr>"
  have w: "omap_find ip (unsent_datagrams ni) = Some (d # q)"
    using Cons.hyps(2) by (auto simp: waiting_def split: option.splits)
  have sd: "sendable d" using Cons.hyps(2) Cons.prems(3) by (metis list.set_intros(1))
  have step: "flush_unsent ip ni = flush_unsent ip (pop_unsent ip ni1)"
    using send_known [OF ipv4_numeric_inet Cons.prems(2) sd]
    by (subst flush_unsent.simps) (simp add: w ni1_def)
  have inv1: "omap_inv (unsent_datagrams ni1)" using Cons.prems(1) by (simp add: ni1_def)
  have w1: "waiting j (pop_unsent ip ni1) = (if j = ip then q else waiting j ni)" for j
    using waiting_pop(2) [OF inv1] Cons.hyps(2) [symmetric] by (simp add: ni1_def)
  have "\<exists>ni'. flush_unsent ip (pop_unsent ip ni1) = Some ni' \<and> flushed ip (eth_addr ent) (pop_unsent ip ni1) ni'"
  proof (rule Cons.hyps(1))
    show "q = waiting ip (pop_unsent ip ni1)" by (simp add: w1)
    show "omap_inv (unsent_datagrams (pop_unsent ip ni1))" by (rule waiting_pop(1) [OF inv1])
    show "omap_find ip (forwarding_table (pop_unsent ip ni1)) = Some ent" using Cons.prems(2) by (simp add: ni1_def)
    show "\<forall>d \<in> set (waiting ip (pop_unsent ip ni1)). sendable d"
      using Cons.prems(3) Cons.hyps(2) [symmetric] by (simp add: w1)
  qed
  then obtain ni' where "flush_unsent ip ni = Some ni'" "flushed ip (eth_addr ent) (pop_unsent ip ni1) ni'"
    using step by auto
  moreover from this(2) have "flushed ip (eth_addr ent) ni ni'"
    using Cons.hyps(2) [symmetric] by (simp add: flushed_def w1) (simp add: ni1_def)
  ultimately show ?case by blast
qed

lemma arp_serialize_reply:
  "arp_serialize (arp_reply own msg ni) =
     Some (arp_bytes (reply_message (ni_ethernet_address ni) own (sender_ethernet_address msg) (sender_ip_address msg)))"
proof -
  have "arp_supported (reply_message (ni_ethernet_address ni) own (sender_ethernet_address msg) (sender_ip_address msg))"
    by (simp add: reply_message_def arp_supported_def arp_message_default_def)
  then show ?thesis by (simp add: arp_serialize_eq arp_reply_def reply_message_def)
qed

text \<open>The mapping that is in force after a message from \<open>ip\<close>: an old one is kept.\<close>

definition learned :: "arp_message \<Rightarrow> network_interface \<Rightarrow> arp_entry" where
  "learned msg ni = (case omap_find (sender_ip_address msg) (forwarding_table ni) of
     Some ent \<Rightarrow> ent | None \<Rightarrow> \<lparr>eth_addr = sender_ethernet_address msg, ent_elapsed = 0\<rparr>)"

lemma recv_arp_ok:
  fixes msg :: arp_message
  assumes inv: "ni_inv own ni"
  defines "ip \<equiv> sender_ip_address msg"
  shows "\<exists>ni'. recv_arp msg own ni = Some ni' \<and> ni_inv own ni' \<and>
    frames_out ni' = frames_out ni @
      map (ipv4_frame (ni_ethernet_address ni) (eth_addr (learned msg ni))) (waiting ip ni) @
      (if opcode msg = OPCODE_REQUEST
       then [arp_frame (ni_ethernet_address ni) (sender_ethernet_address msg)
         (reply_message (ni_ethernet_address ni) own (sender_ethernet_address msg) ip)] else []) \<and>
    (\<forall>j. waiting j ni' = (if j = ip then [] else waiting j ni)) \<and>
    (\<forall>j. omap_find j (forwarding_table ni') = (if j = ip then Some (learned msg ni) else omap_find j (forwarding_table ni))) \<and>
    (\<forall>j. omap_find j (outstanding_msg ni') =
       (if j = ip \<and> opcode msg \<noteq> OPCODE_REQUEST then None else omap_find j (outstanding_msg ni))) \<and>
    ni_ethernet_address ni' = ni_ethernet_address ni"
proof -
  note I = ni_invD [OF inv]
  let ?ent = "\<lparr>eth_addr = sender_ethernet_address msg, ent_elapsed = 0\<rparr>"
  define ni1 where "ni1 = ni\<lparr>forwarding_table := omap_insert ip ?ent (forwarding_table ni)\<rparr>"
  have t: "omap_find j (forwarding_table ni1) = (if j = ip then Some (learned msg ni) else omap_find j (forwarding_table ni))"
    "omap_inv (forwarding_table ni1)" for j
    using omap_insert_ok [OF I(3)] by (auto simp: ni1_def learned_def ip_def split: option.split)
  have "\<exists>ni2. flush_unsent ip ni1 = Some ni2 \<and> flushed ip (eth_addr (learned msg ni)) ni1 ni2"
    by (rule flush_known) (use I(5,8) t in \<open>simp_all add: ni1_def\<close>)
  then obtain ni2 where f: "flush_unsent ip ni1 = Some ni2" "flushed ip (eth_addr (learned msg ni)) ni1 ni2" by blast
  have w: "waiting j ni2 = (if j = ip then [] else waiting j ni)" for j using f(2) by (simp add: flushed_def ni1_def)
  have age: "ent_elapsed (learned msg ni) \<le> ENTRY_EXPIRY"
    using I(6) by (auto simp: learned_def split: option.split)
  have eqs: "forwarding_table ni2 = forwarding_table ni1" "outstanding_msg ni2 = outstanding_msg ni"
    "ni_ethernet_address ni2 = ni_ethernet_address ni" "ni_ip_address ni2 = ni_ip_address ni"
    "frames_out ni2 = frames_out ni @ map (ipv4_frame (ni_ethernet_address ni) (eth_addr (learned msg ni))) (waiting ip ni)"
    "omap_inv (unsent_datagrams ni2)"
    using f(2) by (simp_all add: flushed_def) (simp_all add: ni1_def)
  have inv2: "ni_inv own ni2"
    using I eqs t w age by (auto simp: ni_inv_def split: if_splits)
  have "ni_inv own (ni2\<lparr>outstanding_msg := omap_erase ip (outstanding_msg ni2)\<rparr>)"
    using inv2 by (auto simp: ni_inv_def omap_erase_ok split: if_splits)
  moreover have "recv_arp msg own ni = Some (if opcode msg = OPCODE_REQUEST
      then push_frame (sender_ethernet_address msg) TYPE_ARP (bl_of_string (arp_bytes (reply_message (ni_ethernet_address ni) own (sender_ethernet_address msg) ip))) ni2
      else ni2\<lparr>outstanding_msg := omap_erase ip (outstanding_msg ni2)\<rparr>)"
    using f(1) arp_serialize_reply [of own msg ni2] eqs(3) unfolding ip_def ni1_def by (simp add: recv_arp_def Let_def)
  ultimately show ?thesis
    using inv2 w t eqs by (auto simp: arp_frame_def omap_erase_ok(2))
qed

text \<open>What an incoming frame is to the interface.\<close>

definition for_us :: "network_interface \<Rightarrow> ethernet_frame \<Rightarrow> bool" where
  "for_us ni frame \<longleftrightarrow> eth_dst (fr_header frame) \<in> {ni_ethernet_address ni, ETHERNET_BROADCAST}"

definition arp_in :: "network_interface \<Rightarrow> u32 \<Rightarrow> ethernet_frame \<Rightarrow> arp_message option" where
  "arp_in ni own frame =
     (if for_us ni frame \<and> eth_type (fr_header frame) = TYPE_ARP
      then case arp_parse (buffer_new (bl_concatenate (fr_payload frame))) arp_message_default of
             Some (NoError, msg) \<Rightarrow> if target_ip_address msg = own then Some msg else None
           | _ \<Rightarrow> None
      else None)"

definition datagram_in :: "network_interface \<Rightarrow> ethernet_frame \<Rightarrow> ipv4_datagram option" where
  "datagram_in ni frame =
     (if for_us ni frame \<and> eth_type (fr_header frame) = TYPE_IPv4
      then case ipv4_datagram_parse (buffer_new (bl_concatenate (fr_payload frame))) ipv4_datagram_default of
             Some (NoError, d) \<Rightarrow> Some d
           | _ \<Rightarrow> None
      else None)"

definition frame_fits :: "ethernet_frame \<Rightarrow> bool" where
  "frame_fits frame \<longleftrightarrow> length (bl_concatenate (fr_payload frame)) < 2 ^ 64"

lemma arp_parse_total:
  assumes "buffer_inv b" and "arp_sized m0"
  shows "\<exists>res m. arp_parse b m0 = Some (res, m)"
proof (cases "28 \<le> length (buffer_str b)")
  case True
  from arp_parse_fields [OF assms(1) refl this assms(2)] show ?thesis by (auto split: if_splits)
next
  case False
  then show ?thesis
    using unat_buffer_sz [OF assms(1)] by (simp add: arp_parse_def Let_def np_new_def word_less_nat_alt arp_LENGTH_def)
qed

lemma recv_frame_eq:
  assumes inv: "ni_inv own ni" and fits: "frame_fits frame"
  shows "recv_frame frame ni = (case arp_in ni own frame of
      None \<Rightarrow> Some (datagram_in ni frame, ni)
    | Some msg \<Rightarrow> map_option (\<lambda>ni'. (None, ni')) (recv_arp msg own ni))"
proof (cases "for_us ni frame")
  case False
  then show ?thesis by (simp add: recv_frame_def arp_in_def datagram_in_def for_us_def)
next
  case True
  let ?b = "buffer_new (bl_concatenate (fr_payload frame))"
  have b: "buffer_inv ?b" using fits by (intro buffer_inv_new) (simp add: frame_fits_def)
  obtain r1 d where d: "ipv4_datagram_parse ?b ipv4_datagram_default = Some (r1, d)"
    using ipv4_datagram_parse_total [OF b] by blast
  obtain r2 m where m: "arp_parse ?b arp_message_default = Some (r2, m)"
    using arp_parse_total [OF b arp_sized_default] by blast
  have ne: "TYPE_IPv4 \<noteq> TYPE_ARP" by (simp add: TYPE_IPv4_def TYPE_ARP_def)
  have us: "\<not> (eth_dst (fr_header frame) \<noteq> ni_ethernet_address ni \<and> eth_dst (fr_header frame) \<noteq> ETHERNET_BROADCAST)"
    using True by (auto simp: for_us_def)
  show ?thesis
    unfolding recv_frame_def if_not_P [OF us]
    using True d m ne ni_invD(2) [OF inv]
    by (auto simp: arp_in_def datagram_in_def Let_def map_option_case bind_eq_Some_conv split: ParseResult.split option.split)
qed

lemma recv_frame_ok:
  assumes "ni_inv own ni" and "frame_fits frame"
  shows "\<exists>ni'. recv_frame frame ni = Some (datagram_in ni frame, ni') \<and> ni_inv own ni' \<and>
    ni_ethernet_address ni' = ni_ethernet_address ni"
proof (cases "arp_in ni own frame")
  case None
  then show ?thesis using recv_frame_eq [OF assms] assms(1) by simp
next
  case (Some msg)
  then have "datagram_in ni frame = None"
    by (auto simp: arp_in_def datagram_in_def TYPE_IPv4_def TYPE_ARP_def split: if_splits)
  then show ?thesis using recv_frame_eq [OF assms] Some recv_arp_ok [OF assms(1), of msg] by auto
qed

subsection \<open>Time\<close>

lemma unat_aged:
  assumes "t \<le> limit" and "unat limit < 2 ^ 63" and "unat ms < 2 ^ 63"
  shows "unat (t + ms) = unat t + unat (ms :: u64)"
  using assms by (intro unat_add_no_wrap) (simp add: word_le_nat_alt)

lemma ni_inv_tick:
  assumes inv: "ni_inv own ni"
  shows "ni_inv own (ni_tick ms ni)"
proof -
  note I = ni_invD [OF inv]
  show ?thesis
    using I omap.sweep_ok [OF I(3)] omap.sweep_ok [OF I(4)]
    by (auto simp: ni_inv_def ni_tick_def waiting_def age_entry_def age_msg_def bind_eq_Some_conv split: if_splits)
qed

subsection \<open>Runs of an interface\<close>

datatype ni_op = NiSend ipv4_datagram address | NiRecv ethernet_frame | NiTick u64 | NiTake

fun ni_step :: "ni_op \<Rightarrow> network_interface \<Rightarrow> network_interface option" where
  "ni_step (NiSend d next_hop) ni = send_datagram d next_hop ni"
| "ni_step (NiRecv frame) ni = map_option snd (recv_frame frame ni)"
| "ni_step (NiTick ms) ni = Some (ni_tick ms ni)"
| "ni_step NiTake ni = Some (ni\<lparr>frames_out := []\<rparr>)"

fun ni_op_ok :: "ni_op \<Rightarrow> bool" where
  "ni_op_ok (NiSend d next_hop) \<longleftrightarrow> sendable d \<and> ipv4_numeric next_hop \<noteq> None"
| "ni_op_ok (NiRecv frame) \<longleftrightarrow> frame_fits frame"
| "ni_op_ok (NiTick ms) \<longleftrightarrow> unat ms < 2 ^ 63"
| "ni_op_ok NiTake \<longleftrightarrow> True"

lemma ni_inv_step:
  assumes "ni_inv own ni" and "ni_op_ok op"
  shows "\<exists>ni'. ni_step op ni = Some ni' \<and> ni_inv own ni' \<and> ni_ethernet_address ni' = ni_ethernet_address ni"
proof (cases op)
  case (NiSend d next_hop)
  then show ?thesis using ni_inv_send [OF assms(1), of next_hop _ d] assms(2) by auto
next
  case (NiRecv frame)
  then show ?thesis using recv_frame_ok [OF assms(1), of frame] assms(2) by auto
next
  case (NiTick ms)
  then show ?thesis using ni_inv_tick [OF assms(1)] by (simp add: ni_tick_def)
next
  case NiTake
  then show ?thesis using assms(1) by (simp add: ni_inv_def)
qed

text \<open>The addresses a list of frames asks for, as anyone on the wire reads them.\<close>

definition asked_ip :: "ethernet_frame \<Rightarrow> u32 option" where
  "asked_ip f =
     (if eth_type (fr_header f) = TYPE_ARP
      then case arp_parse (buffer_new (bl_concatenate (fr_payload f))) arp_message_default of
             Some (NoError, m) \<Rightarrow> if opcode m = OPCODE_REQUEST then Some (target_ip_address m) else None
           | _ \<Rightarrow> None
      else None)"

definition asked :: "ethernet_frame list \<Rightarrow> u32 list" where
  "asked fs = List.map_filter asked_ip fs"

definition after_step :: "nat \<Rightarrow> ni_op \<Rightarrow> nat" where
  "after_step t op = t + (case op of NiTick ms \<Rightarrow> unat ms | _ \<Rightarrow> 0)"

text \<open>The times and addresses of all requests sent in a run that starts at time \<open>t\<close>.\<close>

fun request_log :: "nat \<Rightarrow> ni_op list \<Rightarrow> network_interface \<Rightarrow> (nat \<times> u32) list" where
  "request_log t [] ni = []"
| "request_log t (op # ops) ni =
     (case ni_step op ni of
        None \<Rightarrow> []
      | Some ni' \<Rightarrow>
          map (Pair (after_step t op)) (asked (drop (length (frames_out ni)) (frames_out ni'))) @
          request_log (after_step t op) ops ni')"

lemma asked_simps [simp]: "asked [] = []" "asked (fs @ gs) = asked fs @ asked gs"
  by (simp_all add: asked_def List.map_filter_def)

lemma asked_ipv4 [simp]: "asked (map (ipv4_frame src dst) ds) = []"
  by (induction ds) (simp_all add: asked_def List.map_filter_def asked_ip_def ipv4_frame_def TYPE_IPv4_def TYPE_ARP_def)

lemma asked_arp:
  assumes "arp_valid m"
  shows "asked [arp_frame src dst m] = (if opcode m = OPCODE_REQUEST then [target_ip_address m] else [])"
proof -
  have "length (arp_bytes m) = 28" using assms by (simp add: arp_valid_def length_arp_bytes)
  then have "arp_parse (buffer_new (arp_bytes m)) arp_message_default = Some (NoError, m)"
    using arp_parse_bytes [OF assms arp_sized_default, of "[]"] by simp
  then show ?thesis
    by (simp add: asked_def List.map_filter_def asked_ip_def arp_frame_def bl_of_string_def bl_of_buffer_def bl_concatenate_eq)
qed

lemma arp_parse_sized:
  assumes "buffer_inv b" and "arp_sized m0" and "arp_parse b m0 = Some (NoError, m)"
  shows "arp_sized m"
proof (cases "28 \<le> length (buffer_str b)")
  case True
  from arp_parse_fields [OF assms(1) refl this assms(2)] arp_whole_bytes(2) [OF True] assms(3) show ?thesis
    by (auto split: if_splits)
next
  case False
  then show ?thesis
    using assms(3) unat_buffer_sz [OF assms(1)]
    by (simp add: arp_parse_def Let_def np_new_def word_less_nat_alt arp_LENGTH_def)
qed

lemma arp_in_valid:
  assumes "arp_in ni own frame = Some msg" and "frame_fits frame"
  shows "address_valid (sender_ethernet_address msg)"
proof -
  have b: "buffer_inv (buffer_new (bl_concatenate (fr_payload frame)))"
    using assms(2) by (intro buffer_inv_new) (simp add: frame_fits_def)
  have "arp_parse (buffer_new (bl_concatenate (fr_payload frame))) arp_message_default = Some (NoError, msg)"
    using assms(1) by (auto simp: arp_in_def split: if_splits option.splits prod.splits ParseResult.splits)
  from arp_parse_sized [OF b arp_sized_default this] show ?thesis by (simp add: arp_sized_def)
qed

lemma asked_recv:
  assumes inv: "ni_inv own ni" and fits: "frame_fits frame" and r: "recv_frame frame ni = Some (x, ni')"
  shows "asked (drop (length (frames_out ni)) (frames_out ni')) = []"
proof (cases "arp_in ni own frame")
  case None
  then show ?thesis using recv_frame_eq [OF inv fits] r by simp
next
  case (Some msg)
  then have m: "recv_arp msg own ni = Some ni'"
    using recv_frame_eq [OF inv fits] r by (cases "recv_arp msg own ni") auto
  have "arp_valid (reply_message (ni_ethernet_address ni) own (sender_ethernet_address msg) ip)" for ip
    using arp_messages_valid(2) ni_invD(1) [OF inv] arp_in_valid [OF Some fits] by blast
  from asked_arp [OF this] recv_arp_ok [OF inv, of msg] m show ?thesis
    by (auto simp: reply_message_def OPCODE_REPLY_def OPCODE_REQUEST_def)
qed

text \<open>
  Why no second request for \<open>ip\<close> follows too soon on one sent \<open>age\<close> milliseconds ago: it is long
  gone, or it is still outstanding, or the address has been learned since.
\<close>

definition quiet :: "u32 \<Rightarrow> nat \<Rightarrow> network_interface \<Rightarrow> bool" where
  "quiet ip age ni \<longleftrightarrow> 5000 < age \<or>
     (\<exists>e. omap_find ip (outstanding_msg ni) = Some e \<and> unat e = age \<and>
        (\<forall>ent. omap_find ip (forwarding_table ni) = Some ent \<longrightarrow> unat (ent_elapsed ent) \<le> age)) \<or>
     (\<exists>ent. omap_find ip (forwarding_table ni) = Some ent \<and> unat (ent_elapsed ent) \<le> age)"

lemma quiet_send:
  assumes inv: "ni_inv own ni" and ip: "ipv4_numeric next_hop = Some k" and d: "sendable d"
    and s: "send_datagram d next_hop ni = Some ni'"
  shows "quiet ip age ni \<Longrightarrow> quiet ip age ni'"
    "asked (drop (length (frames_out ni)) (frames_out ni')) =
       (if omap_find k (forwarding_table ni) = None \<and> omap_find k (outstanding_msg ni) = None then [k] else [])"
    "asked (drop (length (frames_out ni)) (frames_out ni')) = [k] \<Longrightarrow> quiet k 0 ni'"
proof -
  note I = ni_invD [OF inv]
  have v: "arp_valid (request_message (ni_ethernet_address ni) own k)" by (rule arp_messages_valid(1) [OF I(1)])
  have req: "asked [arp_frame (ni_ethernet_address ni) ETHERNET_BROADCAST (request_message (ni_ethernet_address ni) own k)] = [k]"
    using asked_arp [OF v] by (simp add: request_message_def)
  have "quiet ip age ni \<longrightarrow> quiet ip age ni'"
    "asked (drop (length (frames_out ni)) (frames_out ni')) =
       (if omap_find k (forwarding_table ni) = None \<and> omap_find k (outstanding_msg ni) = None then [k] else [])"
    "asked (drop (length (frames_out ni)) (frames_out ni')) = [k] \<longrightarrow> quiet k 0 ni'"
    using s send_known [OF ip _ d] send_unknown [OF inv ip, of d] req asked_ipv4 [of _ _ "[d]"]
      omap_insert_ok [OF I(4)]
    by (cases "omap_find k (forwarding_table ni)"; cases "omap_find k (outstanding_msg ni)";
        auto simp: quiet_def)+
  then show "quiet ip age ni \<Longrightarrow> quiet ip age ni'"
    "asked (drop (length (frames_out ni)) (frames_out ni')) =
       (if omap_find k (forwarding_table ni) = None \<and> omap_find k (outstanding_msg ni) = None then [k] else [])"
    "asked (drop (length (frames_out ni)) (frames_out ni')) = [k] \<Longrightarrow> quiet k 0 ni'"
    by blast+
qed

lemma quiet_recv:
  assumes inv: "ni_inv own ni" and fits: "frame_fits frame" and r: "recv_frame frame ni = Some (x, ni')" and q: "quiet ip age ni"
  shows "quiet ip age ni'"
proof (cases "arp_in ni own frame")
  case None
  then show ?thesis using recv_frame_eq [OF inv fits] r q by simp
next
  case (Some msg)
  then have "recv_arp msg own ni = Some ni'"
    using recv_frame_eq [OF inv fits] r by (cases "recv_arp msg own ni") auto
  with recv_arp_ok [OF inv, of msg] have
    t: "omap_find j (forwarding_table ni') = (if j = sender_ip_address msg then Some (learned msg ni) else omap_find j (forwarding_table ni))"
    "omap_find j (outstanding_msg ni') =
       (if j = sender_ip_address msg \<and> opcode msg \<noteq> OPCODE_REQUEST then None else omap_find j (outstanding_msg ni))" for j
    by auto
  show ?thesis
    using q by (auto simp: quiet_def t learned_def split: option.split)
qed

lemma quiet_tick:
  assumes inv: "ni_inv own ni" and ms: "unat ms < 2 ^ 63" and q: "quiet ip age ni"
  shows "quiet ip (age + unat ms) (ni_tick ms ni)"
proof -
  note I = ni_invD [OF inv]
  have e: "omap_find ip (outstanding_msg (ni_tick ms ni)) = (if unat e + unat ms > 5000 then None else Some (e + ms))"
    "unat (e + ms) = unat e + unat ms" if "omap_find ip (outstanding_msg ni) = Some e" for e
  proof -
    show u: "unat (e + ms) = unat e + unat ms"
      using I(7) [OF that] ms by (intro unat_aged [of _ MSG_EXPIRY]) (simp_all add: MSG_EXPIRY_def)
    show "omap_find ip (outstanding_msg (ni_tick ms ni)) = (if unat e + unat ms > 5000 then None else Some (e + ms))"
      using that u omap.sweep_ok(2) [OF I(4)] by (simp add: ni_tick_def age_msg_def word_less_nat_alt MSG_EXPIRY_def)
  qed
  have f: "omap_find ip (forwarding_table (ni_tick ms ni)) =
      (if unat (ent_elapsed ent) + unat ms > 30000 then None else Some (ent\<lparr>ent_elapsed := ent_elapsed ent + ms\<rparr>))"
    "unat (ent_elapsed ent + ms) = unat (ent_elapsed ent) + unat ms"
    if "omap_find ip (forwarding_table ni) = Some ent" for ent
  proof -
    show u: "unat (ent_elapsed ent + ms) = unat (ent_elapsed ent) + unat ms"
      using I(6) [OF that] ms by (intro unat_aged [of _ ENTRY_EXPIRY]) (simp_all add: ENTRY_EXPIRY_def)
    show "omap_find ip (forwarding_table (ni_tick ms ni)) =
      (if unat (ent_elapsed ent) + unat ms > 30000 then None else Some (ent\<lparr>ent_elapsed := ent_elapsed ent + ms\<rparr>))"
      using that u omap.sweep_ok(2) [OF I(3)] by (simp add: ni_tick_def age_entry_def word_less_nat_alt ENTRY_EXPIRY_def)
  qed
  have g: "omap_find ip (forwarding_table ni) = None \<Longrightarrow> omap_find ip (forwarding_table (ni_tick ms ni)) = None"
    using omap.sweep_ok(2) [OF I(3)] by (simp add: ni_tick_def)
  show ?thesis
  proof (cases "5000 < age + unat ms")
    case False
    with q consider (out) e where "omap_find ip (outstanding_msg ni) = Some e" "unat e = age"
        "\<forall>ent. omap_find ip (forwarding_table ni) = Some ent \<longrightarrow> unat (ent_elapsed ent) \<le> age"
      | (known) ent where "omap_find ip (forwarding_table ni) = Some ent" "unat (ent_elapsed ent) \<le> age"
      by (auto simp: quiet_def)
    then show ?thesis
    proof cases
      case out
      then have "unat (ent_elapsed ent) \<le> age + unat ms" if "omap_find ip (forwarding_table (ni_tick ms ni)) = Some ent" for ent
        using that f g by (cases "omap_find ip (forwarding_table ni)") (auto split: if_splits)
      then show ?thesis using e [OF out(1)] out(2) False by (auto simp: quiet_def)
    next
      case known
      then show ?thesis using f [OF known(1)] False by (auto simp: quiet_def)
    qed
  qed (simp add: quiet_def)
qed

text \<open>A step never asks for an address that is quiet, and every request starts a quiet time.\<close>

lemma quiet_step:
  assumes inv: "ni_inv own ni" and ok: "ni_op_ok op" and st: "ni_step op ni = Some ni'"
  defines "new \<equiv> asked (drop (length (frames_out ni)) (frames_out ni'))"
    and "dt \<equiv> (case op of NiTick ms \<Rightarrow> unat ms | _ \<Rightarrow> 0)"
  shows "quiet ip age ni \<Longrightarrow> quiet ip (age + dt) ni'" "quiet ip age ni \<Longrightarrow> ip \<in> set new \<Longrightarrow> 5000 < age + dt"
    "ip \<in> set new \<Longrightarrow> quiet ip 0 ni'" "length new \<le> 1"
proof -
  have "(quiet ip age ni \<longrightarrow> quiet ip (age + dt) ni' \<and> (ip \<in> set new \<longrightarrow> 5000 < age + dt)) \<and>
    (ip \<in> set new \<longrightarrow> quiet ip 0 ni') \<and> length new \<le> 1"
  proof (cases op)
    case (NiSend d next_hop)
    then obtain k where k: "ipv4_numeric next_hop = Some k" "sendable d" "send_datagram d next_hop ni = Some ni'"
      using ok st by auto
    note Q = quiet_send [OF inv k]
    have "5000 < age" if "quiet ip age ni" "ip \<in> set new"
      using that Q(2) by (auto simp: new_def quiet_def split: if_splits)
    then show ?thesis using Q NiSend by (auto simp: new_def dt_def)
  next
    case (NiRecv frame)
    then obtain x where r: "recv_frame frame ni = Some (x, ni')" "frame_fits frame" using ok st by auto
    then show ?thesis
      using NiRecv quiet_recv [OF inv r(2,1)] asked_recv [OF inv r(2,1)] by (simp add: new_def dt_def)
  next
    case (NiTick ms)
    then show ?thesis using ok st quiet_tick [OF inv, of ms] by (auto simp: new_def dt_def ni_tick_def)
  next
    case NiTake
    then show ?thesis using st by (auto simp: new_def dt_def quiet_def)
  qed
  then show "quiet ip age ni \<Longrightarrow> quiet ip (age + dt) ni'" "quiet ip age ni \<Longrightarrow> ip \<in> set new \<Longrightarrow> 5000 < age + dt"
    "ip \<in> set new \<Longrightarrow> quiet ip 0 ni'" "length new \<le> 1" by blast+
qed

lemma request_log_Cons:
  assumes "ni_step op ni = Some ni'"
  shows "request_log t (op # ops) ni =
    map (Pair (after_step t op)) (asked (drop (length (frames_out ni)) (frames_out ni'))) @ request_log (after_step t op) ops ni'"
  using assms by simp

lemma request_log_quiet:
  assumes "ni_inv own ni" and "\<forall>op \<in> set ops. ni_op_ok op" and "quiet ip age ni" and "(t', ip) \<in> set (request_log (t0 + age) ops ni)"
  shows "t0 + 5000 < t'"
  using assms
proof (induction ops arbitrary: ni age)
  case (Cons op ops)
  obtain ni' where ni': "ni_step op ni = Some ni'" "ni_inv own ni'"
    using ni_inv_step [OF Cons.prems(1)] Cons.prems(2) by auto
  note Q = quiet_step [OF Cons.prems(1) _ ni'(1)]
  let ?dt = "case op of NiTick ms \<Rightarrow> unat ms | _ \<Rightarrow> 0"
  have ok: "ni_op_ok op" using Cons.prems(2) by simp
  have at: "after_step (t0 + age) op = t0 + (age + ?dt)" by (simp add: after_step_def)
  from Cons.prems(4) show ?case
    unfolding request_log_Cons [OF ni'(1)] at
    using Q(1,2) [OF ok, of ip age] Cons.prems(3) Cons.IH [OF ni'(2), of "age + ?dt"] Cons.prems(2) by auto
qed simp

lemma request_log_spaced:
  assumes "ni_inv own ni" and "\<forall>op \<in> set ops. ni_op_ok op"
  shows "sorted_wrt (\<lambda>(s, ip) (t, jp). ip = jp \<longrightarrow> s + 5000 < t) (request_log t0 ops ni)"
  using assms
proof (induction ops arbitrary: ni t0)
  case (Cons op ops)
  obtain ni' where ni': "ni_step op ni = Some ni'" "ni_inv own ni'"
    using ni_inv_step [OF Cons.prems(1)] Cons.prems(2) by auto
  have ok: "ni_op_ok op" "\<forall>op \<in> set ops. ni_op_ok op" using Cons.prems(2) by simp_all
  note Q = quiet_step(3,4) [OF Cons.prems(1) ok(1) ni'(1)]
  let ?new = "asked (drop (length (frames_out ni)) (frames_out ni'))"
  have later: "after_step t0 op + 5000 < t" if "ip \<in> set ?new" "(t, ip) \<in> set (request_log (after_step t0 op) ops ni')" for t ip
    using request_log_quiet [OF ni'(2) ok(2) Q(1) [OF that(1)], of t "after_step t0 op"] that(2) by simp
  have "sorted_wrt R (map (Pair (after_step t0 op)) ?new)" for R using Q(2) by (cases ?new) auto
  with Cons.IH [OF ni'(2) ok(2)] later show ?case
    unfolding request_log_Cons [OF ni'(1)] by (auto simp: sorted_wrt_append)
qed simp

subsection \<open>Two interfaces\<close>

lemma arp_frame_payload: "bl_concatenate (fr_payload (arp_frame src dst m)) = arp_bytes m"
  by (simp add: arp_frame_def bl_of_string_def bl_of_buffer_def bl_concatenate_eq)

lemma arp_in_frame:
  assumes "arp_valid m" and "dst \<in> {ni_ethernet_address ni, ETHERNET_BROADCAST}"
  shows "arp_in ni own (arp_frame src dst m) = (if target_ip_address m = own then Some m else None)"
    "frame_fits (arp_frame src dst m)"
proof -
  have l: "length (arp_bytes m) = 28" using assms(1) by (simp add: arp_valid_def length_arp_bytes)
  then have "arp_parse (buffer_new (arp_bytes m)) arp_message_default = Some (NoError, m)"
    using arp_parse_bytes [OF assms(1) arp_sized_default, of "[]"] by simp
  then show "arp_in ni own (arp_frame src dst m) = (if target_ip_address m = own then Some m else None)"
    using assms(2) by (simp add: arp_in_def arp_frame_payload) (simp add: for_us_def arp_frame_def)
  show "frame_fits (arp_frame src dst m)" using l by (simp add: frame_fits_def arp_frame_payload)
qed

lemma recv_arp_frame:
  assumes "ni_inv own ni" and "arp_valid m" and "dst \<in> {ni_ethernet_address ni, ETHERNET_BROADCAST}" and "target_ip_address m = own"
  shows "recv_frame (arp_frame src dst m) ni = map_option (\<lambda>ni'. (None, ni')) (recv_arp m own ni)"
  using recv_frame_eq [OF assms(1) arp_in_frame(2) [OF assms(2,3)]] arp_in_frame(1) [OF assms(2,3), of own] assms(4)
  by simp

lemma datagram_in_frame:
  assumes "ipv4_datagram_valid d" and "dst \<in> {ni_ethernet_address ni, ETHERNET_BROADCAST}"
  shows "\<exists>d'. datagram_in ni (ipv4_frame src dst d) = Some d' \<and> arp_in ni own (ipv4_frame src dst d) = None \<and>
    frame_fits (ipv4_frame src dst d) \<and>
    dg_header d' = (dg_header d)\<lparr>ip_cksum := ip_cksum (dg_header d')\<rparr> \<and>
    bl_concatenate (dg_payload d') = bl_concatenate (dg_payload d)"
proof -
  obtain bl h where bl: "ipv4_datagram_serialize d = Some bl" "h = (dg_header d)\<lparr>ip_cksum := ip_cksum h\<rparr>"
    "length (bl_concatenate bl) = unat (ip_len (dg_header d))" "ipv4_reads (bl_concatenate bl) h (bl_concatenate (dg_payload d))"
    by (rule ipv4_datagram_parse_own [OF assms(1)])
  have n: "length (bl_concatenate bl) < 2 ^ 64" using bl(3) unat_u16_less [of "ip_len (dg_header d)"] by simp
  obtain buf where "ipv4_datagram_parse (buffer_new (bl_concatenate bl)) ipv4_datagram_default =
      Some (NoError, \<lparr>dg_header = h, dg_payload = [buf]\<rparr>)" "buffer_str buf = bl_concatenate (dg_payload d)"
    using ipv4_readsD(2) [OF bl(4) buffer_inv_new [OF n]] by auto
  then show ?thesis
    using assms(2) bl(1,2) n
    by (auto simp: datagram_in_def arp_in_def for_us_def ipv4_frame_def frame_fits_def bl_concatenate_eq TYPE_IPv4_def TYPE_ARP_def)
qed

lemma sendable_valid: "ipv4_datagram_valid d \<Longrightarrow> sendable d"
  by (metis ipv4_datagram_serialize_ok sendable_def option.distinct(1))

subsection \<open>Properties\<close>

text \<open>
  C21. Sending a datagram. To an address in the forwarding table, exactly one IPv4 frame goes out, to
  the Ethernet address of the table, with the serialized datagram as payload. To an unknown address,
  the datagram is appended to what waits for that address, and an ARP request for it is broadcast,
  unless one is outstanding. The invariant of the interface is kept.
\<close>

theorem send_datagram_outcome:
  assumes "ni_inv own ni" and "ipv4_numeric next_hop = Some ip" and "ipv4_datagram_serialize d = Some body"
  shows "\<exists>ni'. send_datagram d next_hop ni = Some ni' \<and> ni_inv own ni' \<and>
    (case omap_find ip (forwarding_table ni) of
       Some ent \<Rightarrow> unsent_datagrams ni' = unsent_datagrams ni \<and> outstanding_msg ni' = outstanding_msg ni \<and>
         frames_out ni' = frames_out ni @
           [\<lparr>fr_header = \<lparr>eth_dst = eth_addr ent, eth_src = ni_ethernet_address ni, eth_type = TYPE_IPv4\<rparr>, fr_payload = body\<rparr>]
     | None \<Rightarrow> (\<forall>j. waiting j ni' = (if j = ip then waiting ip ni @ [d] else waiting j ni)) \<and>
         omap_find ip (outstanding_msg ni') \<noteq> None \<and>
         frames_out ni' = frames_out ni @
           (if omap_find ip (outstanding_msg ni) \<noteq> None then []
            else [arp_frame (ni_ethernet_address ni) ETHERNET_BROADCAST
                    (request_message (ni_ethernet_address ni) own ip)]))"
proof -
  note I = ni_invD [OF assms(1)]
  have s: "sendable d" using assms(3) by (simp add: sendable_def)
  note keep = ni_inv_send [OF assms(1,2) s]
  show ?thesis
  proof (cases "omap_find ip (forwarding_table ni)")
    case (Some ent)
    with keep send_known [OF assms(2) Some s] assms(3) show ?thesis by (auto simp: ipv4_frame_def)
  next
    case None
    with keep send_unknown [OF assms(1,2) None, of d] waiting_queue_unsent [OF I(5)] omap_insert_ok [OF I(4)]
    show ?thesis by (auto split: if_splits)
  qed
qed

theorem send_datagram_outcome_witness:
  "\<exists>ni'. send_datagram \<lparr>dg_header = ipv4_header_default\<lparr>ip_len := 20\<rparr>, dg_payload = []\<rparr> (inet_address 9 0)
       (ni_new [1, 2, 3, 4, 5, 6] (inet_address 7 0)) = Some ni' \<and> length (frames_out ni') = 1"
proof -
  let ?d = "\<lparr>dg_header = ipv4_header_default\<lparr>ip_len := 20\<rparr>, dg_payload = []\<rparr>"
  let ?ni = "ni_new [1, 2, 3, 4, 5, 6] (inet_address 7 0)"
  have i: "ni_inv 7 ?ni" by (rule ni_inv_new) (simp_all add: address_valid_def)
  have "ipv4_datagram_valid ?d"
    by (simp add: ipv4_datagram_valid_def ipv4_header_valid_def ipv4_header_default_def IPv4_LENGTH_def bl_concatenate_eq)
  then obtain body where "ipv4_datagram_serialize ?d = Some body" using ipv4_datagram_serialize_ok by blast
  from send_datagram_outcome [OF i ipv4_numeric_inet this, of 9 0] show ?thesis
    by (auto simp: ni_new_def omap_simps)
qed

text \<open>
  C20. Receiving a frame never throws and keeps the invariant. A frame for another station is ignored;
  an IPv4 frame delivers its datagram if it parses. An ARP message for our address makes an unknown sender
  known, with age zero; if the sender is known already, the old mapping stays in force with its age, even if
  the message names another Ethernet address. To the mapping in force everything is sent that waited for
  it, in order; a request is answered, to the address in the message, and a reply ends the outstanding
  request. Nothing else is sent.
\<close>

theorem recv_frame_outcome:
  assumes "ni_inv own ni" and "frame_fits frame"
  shows "\<exists>ni'. recv_frame frame ni = Some (datagram_in ni frame, ni') \<and> ni_inv own ni' \<and>
    (case arp_in ni own frame of
       None \<Rightarrow> ni' = ni
     | Some msg \<Rightarrow>
         (\<forall>j. omap_find j (forwarding_table ni') =
            (if j = sender_ip_address msg then Some (learned msg ni) else omap_find j (forwarding_table ni))) \<and>
         (\<forall>j. waiting j ni' = (if j = sender_ip_address msg then [] else waiting j ni)) \<and>
         (\<forall>j. omap_find j (outstanding_msg ni') =
            (if j = sender_ip_address msg \<and> opcode msg \<noteq> OPCODE_REQUEST then None else omap_find j (outstanding_msg ni))) \<and>
         frames_out ni' = frames_out ni @
           map (ipv4_frame (ni_ethernet_address ni) (eth_addr (learned msg ni))) (waiting (sender_ip_address msg) ni) @
           (if opcode msg = OPCODE_REQUEST
            then [arp_frame (ni_ethernet_address ni) (sender_ethernet_address msg)
                    (reply_message (ni_ethernet_address ni) own (sender_ethernet_address msg) (sender_ip_address msg))]
            else []))"
proof (cases "arp_in ni own frame")
  case None
  then show ?thesis using recv_frame_eq [OF assms] assms(1) by simp
next
  case (Some msg)
  then have "datagram_in ni frame = None"
    by (auto simp: arp_in_def datagram_in_def TYPE_IPv4_def TYPE_ARP_def split: if_splits)
  then show ?thesis using recv_frame_eq [OF assms] Some recv_arp_ok [OF assms(1), of msg] by auto
qed

theorem recv_frame_outcome_witness:
  "\<exists>ni'. recv_frame (arp_frame [6, 5, 4, 3, 2, 1] ETHERNET_BROADCAST (request_message [6, 5, 4, 3, 2, 1] 9 7))
       (ni_new [1, 2, 3, 4, 5, 6] (inet_address 7 0)) = Some (None, ni') \<and>
     map (eth_dst \<circ> fr_header) (frames_out ni') = [[6, 5, 4, 3, 2, 1]] \<and>
     omap_find 9 (forwarding_table ni') = Some \<lparr>eth_addr = [6, 5, 4, 3, 2, 1], ent_elapsed = 0\<rparr>"
proof -
  let ?f = "arp_frame [6, 5, 4, 3, 2, 1] ETHERNET_BROADCAST (request_message [6, 5, 4, 3, 2, 1] 9 7)"
  let ?ni = "ni_new [1, 2, 3, 4, 5, 6] (inet_address 7 0)"
  have i: "ni_inv 7 ?ni" by (rule ni_inv_new) (simp_all add: address_valid_def)
  have v: "arp_valid (request_message [6, 5, 4, 3, 2, 1] 9 7)" by (rule arp_messages_valid) (simp add: address_valid_def)
  have a: "arp_in ?ni 7 ?f = Some (request_message [6, 5, 4, 3, 2, 1] 9 7)" "frame_fits ?f"
    using arp_in_frame [OF v, of ETHERNET_BROADCAST ?ni] by (simp_all add: request_message_def)
  have "datagram_in ?ni ?f = None" by (simp add: datagram_in_def arp_frame_def TYPE_IPv4_def TYPE_ARP_def)
  with recv_frame_outcome [OF i a(2)] a(1) show ?thesis
    by (auto simp: request_message_def arp_frame_def ni_new_def waiting_def learned_def omap_simps)
qed

text \<open>
  C13. ARP requests are rate limited. In any run of sends, received frames and ticks, two requests for
  the same address are more than five seconds apart, whatever is learned or forgotten in between.
\<close>

theorem arp_requests_spaced:
  assumes "address_valid eth" and "ipv4_numeric addr = Some own" and "\<forall>op \<in> set ops. ni_op_ok op"
  shows "sorted_wrt (\<lambda>(s, ip) (t, jp). ip = jp \<longrightarrow> s + 5000 < t) (request_log 0 ops (ni_new eth addr))"
  by (rule request_log_spaced [OF ni_inv_new [OF assms(1,2)] assms(3)])

theorem arp_requests_spaced_witness:
  "\<exists>d. sendable d \<and> sorted_wrt (\<lambda>(s, ip) (t, jp). ip = jp \<longrightarrow> s + 5000 < t)
     (request_log 0 [NiSend d (inet_address 9 0), NiTick 3000, NiSend d (inet_address 9 0), NiTick 2001, NiSend d (inet_address 9 0)]
        (ni_new [1, 2, 3, 4, 5, 6] (inet_address 7 0)))"
proof -
  let ?d = "\<lparr>dg_header = ipv4_header_default\<lparr>ip_len := 20\<rparr>, dg_payload = []\<rparr>"
  have d: "sendable ?d"
    by (rule sendable_valid)
      (simp add: ipv4_datagram_valid_def ipv4_header_valid_def ipv4_header_default_def IPv4_LENGTH_def bl_concatenate_eq)
  have "sorted_wrt (\<lambda>(s, ip) (t, jp). ip = jp \<longrightarrow> s + 5000 < t)
     (request_log 0 [NiSend ?d (inet_address 9 0), NiTick 3000, NiSend ?d (inet_address 9 0), NiTick 2001, NiSend ?d (inet_address 9 0)]
        (ni_new [1, 2, 3, 4, 5, 6] (inet_address 7 0)))"
    by (rule arp_requests_spaced [of _ _ 7]) (use d in \<open>simp_all add: address_valid_def\<close>)
  with d show ?thesis by blast
qed

text \<open>
  A known mapping is neither refreshed nor replaced. When a later ARP message of the same sender
  arrives, the old Ethernet address and the old age stay, and the mapping is dropped thirty seconds
  after it was first learned, however recently its sender has been heard.
\<close>

theorem mapping_not_refreshed:
  assumes "ni_inv own ni" and "frame_fits frame" and "arp_in ni own frame = Some msg"
    and "omap_find (sender_ip_address msg) (forwarding_table ni) = Some ent" and "ent_elapsed ent + ms > ENTRY_EXPIRY"
  shows "\<exists>ni'. recv_frame frame ni = Some (None, ni') \<and>
    omap_find (sender_ip_address msg) (forwarding_table ni') = Some ent \<and>
    omap_find (sender_ip_address msg) (forwarding_table (ni_tick ms ni')) = None"
proof -
  obtain ni' where r: "recv_arp msg own ni = Some ni'" "ni_inv own ni'"
    "omap_find (sender_ip_address msg) (forwarding_table ni') = Some ent"
    using recv_arp_ok [OF assms(1), of msg] assms(4) by (auto simp: learned_def)
  then show ?thesis
    using recv_frame_eq [OF assms(1,2)] assms(3,5) omap.sweep_ok(2) [OF ni_invD(3) [OF r(2)]]
    by (simp add: ni_tick_def age_entry_def)
qed

theorem mapping_not_refreshed_witness:
  "\<exists>ni'. recv_frame (arp_frame [6, 5, 4, 3, 2, 1] ETHERNET_BROADCAST (request_message [6, 5, 4, 3, 2, 1] 9 7))
       ((ni_new [1, 2, 3, 4, 5, 6] (inet_address 7 0))\<lparr>forwarding_table := [(9, \<lparr>eth_addr = [8, 8, 8, 8, 8, 8], ent_elapsed = 29999\<rparr>)]\<rparr>) =
       Some (None, ni') \<and>
     omap_find 9 (forwarding_table ni') = Some \<lparr>eth_addr = [8, 8, 8, 8, 8, 8], ent_elapsed = 29999\<rparr> \<and>
     omap_find 9 (forwarding_table (ni_tick 2 ni')) = None"
proof -
  let ?m = "request_message [6, 5, 4, 3, 2, 1] 9 7"
  let ?f = "arp_frame [6, 5, 4, 3, 2, 1] ETHERNET_BROADCAST ?m"
  let ?e = "\<lparr>eth_addr = [8, 8, 8, 8, 8, 8], ent_elapsed = 29999\<rparr>"
  let ?ni = "(ni_new [1, 2, 3, 4, 5, 6] (inet_address 7 0))\<lparr>forwarding_table := [(9, ?e)]\<rparr>"
  have i: "ni_inv 7 ?ni"
    by (auto simp: ni_inv_def ni_new_def address_valid_def waiting_def omap_simps omap_inv_def omap_find_def ENTRY_EXPIRY_def split: if_splits)
  have v: "arp_valid ?m" by (rule arp_messages_valid) (simp add: address_valid_def)
  have a: "arp_in ?ni 7 ?f = Some ?m" "frame_fits ?f"
    using arp_in_frame [OF v, of ETHERNET_BROADCAST ?ni] by (simp_all add: request_message_def)
  have s: "sender_ip_address ?m = 9" by (simp add: request_message_def)
  from mapping_not_refreshed [OF i a(2,1), unfolded s, of ?e 2] show ?thesis
    by (simp add: ENTRY_EXPIRY_def) (simp add: omap_find_def)
qed

text \<open>
  C17. Address resolution, end to end. A host sends a datagram to a neighbour it does not know. Its
  broadcast reaches the neighbour, the neighbour's answer comes back, and the frame this releases
  delivers the datagram: the same payload and the same header, but for the checksum that was filled in.
\<close>

theorem address_resolution_delivers:
  assumes a: "ni_inv ipA a" "frames_out a = []" "waiting ipB a = []"
    "omap_find ipB (forwarding_table a) = None" "omap_find ipB (outstanding_msg a) = None"
    and b: "ni_inv ipB b" "frames_out b = []" "waiting ipA b = []"
    and d: "ipv4_datagram_valid d" and hop: "ipv4_numeric next_hop = Some ipB"
  shows "\<exists>a1 b1 a2 request reply frame d'.
    send_datagram d next_hop a = Some a1 \<and> frames_out a1 = [request] \<and>
    recv_frame request b = Some (None, b1) \<and> frames_out b1 = [reply] \<and>
    recv_frame reply (a1\<lparr>frames_out := []\<rparr>) = Some (None, a2) \<and> frames_out a2 = [frame] \<and>
    recv_frame frame (b1\<lparr>frames_out := []\<rparr>) = Some (Some d', b1\<lparr>frames_out := []\<rparr>) \<and>
    dg_header d' = (dg_header d)\<lparr>ip_cksum := ip_cksum (dg_header d')\<rparr> \<and>
    bl_concatenate (dg_payload d') = bl_concatenate (dg_payload d)"
proof -
  let ?ea = "ni_ethernet_address a" and ?eb = "ni_ethernet_address b"
  let ?rq = "request_message ?ea ipA ipB" and ?rp = "reply_message ?eb ipB ?ea ipA"
  note A = ni_invD [OF a(1)] and B = ni_invD [OF b(1)]
  have v: "arp_valid ?rq" "arp_valid ?rp" using arp_messages_valid A(1) B(1) by blast+
  have rq: "target_ip_address ?rq = ipB" "sender_ip_address ?rq = ipA" "sender_ethernet_address ?rq = ?ea"
      "opcode ?rq = OPCODE_REQUEST"
    and rp: "target_ip_address ?rp = ipA" "sender_ip_address ?rp = ipB" "sender_ethernet_address ?rp = ?eb"
      "opcode ?rp \<noteq> OPCODE_REQUEST"
    by (simp_all add: request_message_def reply_message_def OPCODE_REPLY_def OPCODE_REQUEST_def)
  obtain a1 where a1: "send_datagram d next_hop a = Some a1" "ni_inv ipA a1" "ni_ethernet_address a1 = ?ea"
    "forwarding_table a1 = forwarding_table a"
    using ni_inv_send [OF a(1) hop sendable_valid [OF d]] by blast
  then have a1': "frames_out a1 = [arp_frame ?ea ETHERNET_BROADCAST ?rq]" "waiting ipB a1 = [d]"
    using send_unknown [OF a(1) hop a(4), of d] waiting_queue_unsent(2) [OF A(5)] a(2,3,5) by auto
  define a1e where "a1e = a1\<lparr>frames_out := []\<rparr>"
  have a1e: "ni_inv ipA a1e" "waiting ipB a1e = [d]" "frames_out a1e = []" "ni_ethernet_address a1e = ?ea"
    "omap_find ipB (forwarding_table a1e) = None"
    using a1 a1' a(4) by (simp_all add: a1e_def ni_inv_def)
  obtain b1 where b1: "recv_arp ?rq ipB b = Some b1" "ni_inv ipB b1" "ni_ethernet_address b1 = ?eb"
    "frames_out b1 = [arp_frame ?eb ?ea ?rp]"
    using recv_arp_ok [OF b(1), of ?rq] b(2,3) unfolding rq by auto
  obtain a2 where a2: "recv_arp ?rp ipA a1e = Some a2" "frames_out a2 = [ipv4_frame ?ea ?eb d]"
    using recv_arp_ok [OF a1e(1), of ?rp] a1e(2-5) rp unfolding learned_def rp by auto
  let ?be = "b1\<lparr>frames_out := []\<rparr>"
  have be: "ni_inv ipB ?be" using b1(2) by (simp add: ni_inv_def)
  obtain d' where d': "datagram_in ?be (ipv4_frame ?ea ?eb d) = Some d'" "arp_in ?be ipB (ipv4_frame ?ea ?eb d) = None"
    "frame_fits (ipv4_frame ?ea ?eb d)" "dg_header d' = (dg_header d)\<lparr>ip_cksum := ip_cksum (dg_header d')\<rparr>"
    "bl_concatenate (dg_payload d') = bl_concatenate (dg_payload d)"
    using datagram_in_frame [OF d, where dst = ?eb and ni = ?be and src = ?ea and own = ipB] b1(3) by auto
  have "recv_frame (arp_frame ?ea ETHERNET_BROADCAST ?rq) b = Some (None, b1)"
    using recv_arp_frame [OF b(1) v(1) _ rq(1)] b1(1) by simp
  moreover have "recv_frame (arp_frame ?eb ?ea ?rp) a1e = Some (None, a2)"
    using recv_arp_frame [OF a1e(1) v(2) _ rp(1)] a1e(4) a2(1) by simp
  moreover have "recv_frame (ipv4_frame ?ea ?eb d) ?be = Some (Some d', ?be)"
    using recv_frame_eq [OF be d'(3)] d'(1,2) by simp
  ultimately show ?thesis using a1(1) a1'(1) b1(4) a2(2) d'(4,5) unfolding a1e_def by blast
qed

theorem address_resolution_delivers_witness:
  "\<exists>a1 request. send_datagram \<lparr>dg_header = ipv4_header_default\<lparr>ip_len := 20\<rparr>, dg_payload = []\<rparr> (inet_address 9 0)
       (ni_new [1, 2, 3, 4, 5, 6] (inet_address 7 0)) = Some a1 \<and> frames_out a1 = [request] \<and>
     (\<exists>b1. recv_frame request (ni_new [6, 5, 4, 3, 2, 1] (inet_address 9 0)) = Some (None, b1))"
proof -
  have i: "ni_inv 7 (ni_new [1, 2, 3, 4, 5, 6] (inet_address 7 0))" "ni_inv 9 (ni_new [6, 5, 4, 3, 2, 1] (inet_address 9 0))"
    by (rule ni_inv_new; simp add: address_valid_def)+
  have "ipv4_datagram_valid \<lparr>dg_header = ipv4_header_default\<lparr>ip_len := 20\<rparr>, dg_payload = []\<rparr>"
    by (simp add: ipv4_datagram_valid_def ipv4_header_valid_def ipv4_header_default_def IPv4_LENGTH_def bl_concatenate_eq)
  from address_resolution_delivers [OF i(1) _ _ _ _ i(2) _ _ this ipv4_numeric_inet, of 0]
  show ?thesis by (simp add: ni_new_def waiting_def omap_simps) blast
qed

end
