(* ===== verification/FD_Adapter.thy ===== *)
theory FD_Adapter
  imports TCP_Segment Network_Interface
begin

text \<open>
  The adapters between a connection and a device: \<open>libsponge/tcp_helpers/fd_adapter.hh\<close> and
  \<open>fd_adapter.cc\<close> (TCP in UDP), \<open>tcp_over_ip.cc\<close> (TCP in IPv4), \<open>tuntap_adapter.hh\<close> and
  \<open>tuntap_adapter.cc\<close> (on a TUN and on a TAP device), \<open>lossy_fd_adapter.hh\<close>, and the configuration
  of \<open>tcp_config.hh\<close>. What is read from a device is an argument of the model, what is written to it
  is a result, beside the segment, whose ports a write sets; the resolver and the random number generator are parameters. Throws are \<^const>\<open>None\<close>.
\<close>

record fd_adapter_config =
  cfg_source :: address
  cfg_destination :: address
  loss_rate_dn :: u16
  loss_rate_up :: u16

definition fd_adapter_config_default :: "getaddrinfo \<Rightarrow> fd_adapter_config option" where
  "fd_adapter_config_default gai = do {
     source \<leftarrow> address_of_ip gai ''0'' 0;
     destination \<leftarrow> address_of_ip gai ''0'' 0;
     Some \<lparr>cfg_source = source, cfg_destination = destination, loss_rate_dn = 0, loss_rate_up = 0\<rparr>
   }"

record fd_adapter =
  ad_cfg :: fd_adapter_config
  ad_listen :: bool

definition fd_adapter_default :: "getaddrinfo \<Rightarrow> fd_adapter option" where
  "fd_adapter_default gai = map_option (\<lambda>cfg. \<lparr>ad_cfg = cfg, ad_listen = False\<rparr>) (fd_adapter_config_default gai)"

definition set_listening :: "bool \<Rightarrow> fd_adapter \<Rightarrow> fd_adapter" where
  "set_listening l ad = ad\<lparr>ad_listen := l\<rparr>"

definition set_ports :: "getnameinfo \<Rightarrow> fd_adapter_config \<Rightarrow> tcp_segment \<Rightarrow> tcp_segment option" where
  "set_ports gni cfg seg = do {
     sp \<leftarrow> address_port gni (cfg_source cfg);
     dp \<leftarrow> address_port gni (cfg_destination cfg);
     Some (seg\<lparr>header := (header seg)\<lparr>sport := sp, dport := dp\<rparr>\<rparr>)
   }"

subsection \<open>TCP in UDP\<close>

record received_datagram =
  source_address :: address
  rd_payload :: bytes

definition udp_read :: "received_datagram \<Rightarrow> fd_adapter \<Rightarrow> (tcp_segment option \<times> fd_adapter) option" where
  "udp_read datagram ad =
     (if \<not> ad_listen ad \<and> \<not> address_eq (source_address datagram) (cfg_destination (ad_cfg ad)) then Some (None, ad)
      else do {
        (res, seg) \<leftarrow> tcp_segment_parse (buffer_new (rd_payload datagram)) 0 tcp_segment_default;
        if res \<noteq> NoError then Some (None, ad)
        else if ad_listen ad
        then if syn (header seg) \<and> \<not> rst (header seg)
             then Some (Some seg, set_listening False (ad\<lparr>ad_cfg := (ad_cfg ad)\<lparr>cfg_destination := source_address datagram\<rparr>\<rparr>))
             else Some (None, ad)
        else Some (Some seg, ad)
      })"

definition udp_write :: "getnameinfo \<Rightarrow> tcp_segment \<Rightarrow> fd_adapter \<Rightarrow> (tcp_segment \<times> address \<times> buffer_list) option" where
  "udp_write gni seg ad = do {
     seg \<leftarrow> set_ports gni (ad_cfg ad) seg;
     body \<leftarrow> tcp_segment_serialize 0 seg;
     Some (seg, cfg_destination (ad_cfg ad), body)
   }"

subsection \<open>TCP in IPv4\<close>

text \<open>What a listening adapter does with a segment: \<open>Some None\<close> is a segment it does not want.\<close>

definition adopt_peer :: "getaddrinfo \<Rightarrow> getnameinfo \<Rightarrow> ipv4_header \<Rightarrow> tcp_header \<Rightarrow> fd_adapter \<Rightarrow> fd_adapter option option" where
  "adopt_peer gai gni ip tcp ad =
     (if ad_listen ad
      then if syn tcp \<and> \<not> rst tcp
           then do {
             own \<leftarrow> address_port gni (cfg_source (ad_cfg ad));
             source \<leftarrow> address_of_ip gai (inet_ntoa (ip_dst ip)) own;
             destination \<leftarrow> address_of_ip gai (inet_ntoa (ip_src ip)) (sport tcp);
             Some (Some (set_listening False
               (ad\<lparr>ad_cfg := (ad_cfg ad)\<lparr>cfg_source := source, cfg_destination := destination\<rparr>\<rparr>)))
           }
           else Some None
      else Some (Some ad))"

definition unwrap_tcp_in_ip ::
  "getaddrinfo \<Rightarrow> getnameinfo \<Rightarrow> ipv4_datagram \<Rightarrow> fd_adapter \<Rightarrow> (tcp_segment option \<times> fd_adapter) option" where
  "unwrap_tcp_in_ip gai gni ip_dgram ad = do {
     for_us \<leftarrow> (if ad_listen ad then Some True
                else map_option (\<lambda>ip. ip_dst (dg_header ip_dgram) = ip) (ipv4_numeric (cfg_source (ad_cfg ad))));
     if \<not> for_us then Some (None, ad)
     else do {
       from_peer \<leftarrow> (if ad_listen ad then Some True
                     else map_option (\<lambda>ip. ip_src (dg_header ip_dgram) = ip) (ipv4_numeric (cfg_destination (ad_cfg ad))));
       if \<not> from_peer then Some (None, ad)
       else if ip_proto (dg_header ip_dgram) \<noteq> PROTO_TCP then Some (None, ad)
       else do {
         buf \<leftarrow> bl_to_buffer (dg_payload ip_dgram);
         (res, tcp_seg) \<leftarrow> tcp_segment_parse buf (pseudo_cksum (dg_header ip_dgram)) tcp_segment_default;
         if res \<noteq> NoError then Some (None, ad)
         else do {
           own \<leftarrow> address_port gni (cfg_source (ad_cfg ad));
           if dport (header tcp_seg) \<noteq> own then Some (None, ad)
           else do {
             adopted \<leftarrow> adopt_peer gai gni (dg_header ip_dgram) (header tcp_seg) ad;
             case adopted of
               None \<Rightarrow> Some (None, ad)
             | Some ad \<Rightarrow> do {
                 peer \<leftarrow> address_port gni (cfg_destination (ad_cfg ad));
                 Some (if sport (header tcp_seg) \<noteq> peer then None else Some tcp_seg, ad)
               }
           }
         }
       }
     }
   }"

definition wrap_tcp_in_ip :: "getnameinfo \<Rightarrow> tcp_segment \<Rightarrow> fd_adapter \<Rightarrow> (tcp_segment \<times> ipv4_datagram) option" where
  "wrap_tcp_in_ip gni seg ad = do {
     seg \<leftarrow> set_ports gni (ad_cfg ad) seg;
     src \<leftarrow> ipv4_numeric (cfg_source (ad_cfg ad));
     dst \<leftarrow> ipv4_numeric (cfg_destination (ad_cfg ad));
     let h = ipv4_header_default\<lparr>ip_src := src, ip_dst := dst\<rparr>;
         h = h\<lparr>ip_len := ucast (ucast (ip_hlen h) * 4 + ucast (doff (header seg)) * 4 + buffer_sz (payload seg) :: u64)\<rparr>
     in do {
       body \<leftarrow> tcp_segment_serialize (pseudo_cksum h) seg;
       Some (seg, \<lparr>dg_header = h, dg_payload = body\<rparr>)
     }
   }"

subsection \<open>TUN and TAP devices\<close>

definition tun_read :: "getaddrinfo \<Rightarrow> getnameinfo \<Rightarrow> bytes \<Rightarrow> fd_adapter \<Rightarrow> (tcp_segment option \<times> fd_adapter) option" where
  "tun_read gai gni bs ad = do {
     (res, ip_dgram) \<leftarrow> ipv4_datagram_parse (buffer_new bs) ipv4_datagram_default;
     if res \<noteq> NoError then Some (None, ad) else unwrap_tcp_in_ip gai gni ip_dgram ad
   }"

definition tun_write :: "getnameinfo \<Rightarrow> tcp_segment \<Rightarrow> fd_adapter \<Rightarrow> (tcp_segment \<times> buffer_list) option" where
  "tun_write gni seg ad = do {
     (seg, d) \<leftarrow> wrap_tcp_in_ip gni seg ad;
     bl \<leftarrow> ipv4_datagram_serialize d;
     Some (seg, bl)
   }"

text \<open>The adapter on a TAP device; \<open>tap_out\<close> are the frames written to the device so far.\<close>

record eth_adapter =
  eth_base :: fd_adapter
  eth_interface :: network_interface
  eth_next_hop :: address
  tap_out :: "bytes list"

definition eth_adapter_new :: "getaddrinfo \<Rightarrow> EthernetAddress \<Rightarrow> address \<Rightarrow> address \<Rightarrow> eth_adapter option" where
  "eth_adapter_new gai eth_address ip_address next_hop =
     map_option (\<lambda>base. \<lparr>eth_base = base, eth_interface = ni_new eth_address ip_address, eth_next_hop = next_hop,
        tap_out = [bl_concatenate (ethernet_frame_serialize ethernet_frame_default)]\<rparr>) (fd_adapter_default gai)"

fun write_frames :: "ethernet_frame list \<Rightarrow> bytes list \<Rightarrow> bytes list" where
  "write_frames [] tap = tap"
| "write_frames (frame # frames) tap = write_frames frames (tap @ [bl_concatenate (ethernet_frame_serialize frame)])"

definition send_pending :: "eth_adapter \<Rightarrow> eth_adapter" where
  "send_pending ad =
     ad\<lparr>tap_out := write_frames (frames_out (eth_interface ad)) (tap_out ad),
        eth_interface := (eth_interface ad)\<lparr>frames_out := []\<rparr>\<rparr>"

definition eth_read :: "getaddrinfo \<Rightarrow> getnameinfo \<Rightarrow> bytes \<Rightarrow> eth_adapter \<Rightarrow> (tcp_segment option \<times> eth_adapter) option" where
  "eth_read gai gni bs ad = do {
     (res, frame) \<leftarrow> ethernet_frame_parse (buffer_new bs) ethernet_frame_default;
     if res \<noteq> NoError then Some (None, ad)
     else do {
       (ip_dgram, ni) \<leftarrow> recv_frame frame (eth_interface ad);
       let ad = send_pending (ad\<lparr>eth_interface := ni\<rparr>)
       in case ip_dgram of
            None \<Rightarrow> Some (None, ad)
          | Some d \<Rightarrow> do {
              (seg, base) \<leftarrow> unwrap_tcp_in_ip gai gni d (eth_base ad);
              Some (seg, ad\<lparr>eth_base := base\<rparr>)
            }
     }
   }"

definition eth_tick :: "u64 \<Rightarrow> eth_adapter \<Rightarrow> eth_adapter" where
  "eth_tick ms_since_last_tick ad = send_pending (ad\<lparr>eth_interface := ni_tick ms_since_last_tick (eth_interface ad)\<rparr>)"

definition eth_write :: "getnameinfo \<Rightarrow> tcp_segment \<Rightarrow> eth_adapter \<Rightarrow> (tcp_segment \<times> eth_adapter) option" where
  "eth_write gni seg ad = do {
     (seg, d) \<leftarrow> wrap_tcp_in_ip gni seg (eth_base ad);
     ni \<leftarrow> send_datagram d (eth_next_hop ad) (eth_interface ad);
     Some (seg, send_pending (ad\<lparr>eth_interface := ni\<rparr>))
   }"

subsection \<open>Loss\<close>

definition should_drop :: "('g \<Rightarrow> u32 \<times> 'g) \<Rightarrow> bool \<Rightarrow> fd_adapter_config \<Rightarrow> 'g \<Rightarrow> bool \<times> 'g" where
  "should_drop rand uplink cfg g =
     (let loss = (if uplink then loss_rate_up cfg else loss_rate_dn cfg)
      in if loss \<noteq> 0 then (let (x, g) = rand g in (ucast x < loss, g)) else (False, g))"

definition lossy_read ::
  "('g \<Rightarrow> u32 \<times> 'g) \<Rightarrow> ('a \<Rightarrow> fd_adapter_config) \<Rightarrow> ('a \<Rightarrow> (tcp_segment option \<times> 'a) option) \<Rightarrow>
     'a \<times> 'g \<Rightarrow> (tcp_segment option \<times> 'a \<times> 'g) option" where
  "lossy_read rand config rd ag = do {
     (ret, a) \<leftarrow> rd (fst ag);
     let (dropped, g) = should_drop rand False (config a) (snd ag)
     in Some (if dropped then None else ret, a, g)
   }"

definition lossy_write ::
  "('g \<Rightarrow> u32 \<times> 'g) \<Rightarrow> ('a \<Rightarrow> fd_adapter_config) \<Rightarrow> (tcp_segment \<Rightarrow> 'a \<Rightarrow> (tcp_segment \<times> 'a) option) \<Rightarrow>
     tcp_segment \<Rightarrow> 'a \<times> 'g \<Rightarrow> (tcp_segment \<times> 'a \<times> 'g) option" where
  "lossy_write rand config wr seg ag =
     (let (dropped, g) = should_drop rand True (config (fst ag)) (snd ag)
      in if dropped then Some (seg, fst ag, g) else map_option (\<lambda>(seg, a). (seg, a, g)) (wr seg (fst ag)))"

subsection \<open>The contract of an adapter\<close>

text \<open>The same segment, up to the ports and the checksum.\<close>

definition same_segment :: "tcp_segment \<Rightarrow> tcp_segment \<Rightarrow> bool" where
  "same_segment s t \<longleftrightarrow> tcp_header_eq (header s) (header t) \<and> buffer_str (payload s) = buffer_str (payload t)"

fun write_all :: "(tcp_segment \<Rightarrow> 'a \<Rightarrow> (tcp_segment \<times> 'w) option) \<Rightarrow> tcp_segment list \<Rightarrow> 'a \<Rightarrow> 'w list option" where
  "write_all wr [] a = Some []"
| "write_all wr (s # ss) a = do {
     (_, w) \<leftarrow> wr s a;
     ws \<leftarrow> write_all wr ss a;
     Some (w # ws)
   }"

fun read_all :: "('w \<Rightarrow> 'b \<Rightarrow> (tcp_segment option \<times> 'b) option) \<Rightarrow> 'w list \<Rightarrow> 'b \<Rightarrow> (tcp_segment list \<times> 'b) option" where
  "read_all rd [] b = Some ([], b)"
| "read_all rd (w # ws) b = do {
     (x, b) \<leftarrow> rd w b;
     (xs, b) \<leftarrow> read_all rd ws b;
     Some (case x of None \<Rightarrow> xs | Some s \<Rightarrow> s # xs, b)
   }"

text \<open>Two linked adapters: what one writes, the other reads; \<open>waits\<close> is the state before the first
  segment, which has to be a SYN, when the reader still listens.\<close>

locale segment_channel =
  fixes wr :: "tcp_segment \<Rightarrow> 'a \<Rightarrow> (tcp_segment \<times> 'w) option"
    and rd :: "'w \<Rightarrow> 'b \<Rightarrow> (tcp_segment option \<times> 'b) option"
    and linked :: "'a \<Rightarrow> 'b \<Rightarrow> bool"
    and waits :: "'a \<Rightarrow> 'b \<Rightarrow> bool"
    and fits :: "tcp_segment \<Rightarrow> bool"
  assumes delivers: "linked a b \<Longrightarrow> fits seg \<Longrightarrow>
      \<exists>seg' w seg''. wr seg a = Some (seg', w) \<and> rd w b = Some (Some seg'', b) \<and> same_segment seg'' seg"
    and accepts: "waits a b \<Longrightarrow> fits seg \<Longrightarrow> syn (header seg) \<Longrightarrow> \<not> rst (header seg) \<Longrightarrow>
      \<exists>seg' w seg'' b'. wr seg a = Some (seg', w) \<and> rd w b = Some (Some seg'', b') \<and> same_segment seg'' seg \<and> linked a b'"
begin

lemma delivers_all:
  assumes "linked a b" and "\<forall>s \<in> set segs. fits s"
  shows "\<exists>ws segs'. write_all wr segs a = Some ws \<and> read_all rd ws b = Some (segs', b) \<and> list_all2 same_segment segs' segs"
  using assms(2)
proof (induction segs)
  case (Cons s segs)
  obtain s' w s'' where "wr s a = Some (s', w)" "rd w b = Some (Some s'', b)" "same_segment s'' s"
    using delivers [OF assms(1)] Cons.prems by fastforce
  moreover obtain ws segs' where "write_all wr segs a = Some ws" "read_all rd ws b = Some (segs', b)" "list_all2 same_segment segs' segs"
    using Cons by auto
  ultimately show ?case by auto
qed simp

lemma accepts_all:
  assumes "waits a b" and "\<forall>s \<in> set (s0 # segs). fits s" and "syn (header s0)" and "\<not> rst (header s0)"
  shows "\<exists>ws segs' b'. write_all wr (s0 # segs) a = Some ws \<and> read_all rd ws b = Some (segs', b') \<and>
    list_all2 same_segment segs' (s0 # segs) \<and> linked a b'"
proof -
  obtain s' w s'' b' where 1: "wr s0 a = Some (s', w)" "rd w b = Some (Some s'', b')" "same_segment s'' s0" "linked a b'"
    using accepts [OF assms(1) _ assms(3,4)] assms(2) by auto
  obtain ws segs' where "write_all wr segs a = Some ws" "read_all rd ws b' = Some (segs', b')" "list_all2 same_segment segs' segs"
    using delivers_all [OF 1(4)] assms(2) by (metis list.set_intros(2))
  with 1 show ?thesis by auto
qed

end

subsection \<open>TCP in IPv4 on the wire\<close>

lemma pseudo_cksum_cksum [simp]: "pseudo_cksum (h\<lparr>ip_cksum := v\<rparr>) = pseudo_cksum h"
  by (simp add: pseudo_cksum_def payload_length_def)

lemma unat_add_le: "unat (a + b) \<le> unat a + unat (b :: 'a :: len word)"
  by (simp add: unat_word_ariths)

lemma unat_halves: "unat (drop_bit 16 (x :: u32)) < 2 ^ 16" "unat (x AND 0xffff) < 2 ^ 16"
proof -
  show "unat (drop_bit 16 x) < 2 ^ 16"
    using unat_u32_less [of x] by (simp add: drop_bit_eq_div unat_div)
  have "x AND 0xffff = take_bit 16 x" by (simp add: take_bit_eq_mask mask_eq_exp_minus_1)
  then show "unat (x AND 0xffff) < 2 ^ 16" by (simp only: unsigned_take_bit_eq) (simp add: take_bit_eq_mod)
qed

lemma pseudo_cksum_bound: "unat (pseudo_cksum h) < 2 ^ 19"
proof -
  let ?a = "drop_bit 16 (ip_src h) + (ip_src h AND 0xffff)"
  let ?b = "drop_bit 16 (ip_dst h) + (ip_dst h AND 0xffff)"
  have "unat (ucast (ip_proto h) :: u32) < 2 ^ 8" "unat (ucast (payload_length h) :: u32) < 2 ^ 16"
    using unat_u8_less [of "ip_proto h"] unat_u16_less [of "payload_length h"] by (simp_all add: unat_ucast_mod)
  then show ?thesis
    using unat_halves [of "ip_src h"] unat_halves [of "ip_dst h"]
      unat_add_le [of "drop_bit 16 (ip_src h)" "ip_src h AND 0xffff"] unat_add_le [of "drop_bit 16 (ip_dst h)" "ip_dst h AND 0xffff"]
      unat_add_le [of ?a ?b] unat_add_le [of "?a + ?b" "ucast (ip_proto h)"]
      unat_add_le [of "?a + ?b + ucast (ip_proto h)" "ucast (payload_length h)"]
    by (simp add: pseudo_cksum_def Let_def)
qed

lemma address_port_inet: "numeric_resolver gai gni \<Longrightarrow> address_port gni (inet_address x p) = Some p"
  using ip_port_numeric by (simp add: address_port_def)

definition ip_fits :: "tcp_segment \<Rightarrow> bool" where
  "ip_fits seg \<longleftrightarrow> tcp_header_valid (header seg) \<and> buffer_inv (payload seg) \<and>
     20 + 4 * unat (doff (header seg)) + length (buffer_str (payload seg)) < 2 ^ 16"

definition with_ports :: "u16 \<Rightarrow> u16 \<Rightarrow> tcp_segment \<Rightarrow> tcp_segment" where
  "with_ports sp dp seg = seg\<lparr>header := (header seg)\<lparr>sport := sp, dport := dp\<rparr>\<rparr>"

lemma wrap_ok:
  assumes net: "numeric_resolver gai gni" and fits: "ip_fits seg"
    and cfg: "cfg_source (ad_cfg ad) = inet_address src sp" "cfg_destination (ad_cfg ad) = inet_address dst dp"
  obtains d where "wrap_tcp_in_ip gni seg ad = Some (with_ports sp dp seg, d)" "ipv4_datagram_valid d"
    "ip_src (dg_header d) = src" "ip_dst (dg_header d) = dst" "ip_proto (dg_header d) = PROTO_TCP"
    "tcp_reads (pseudo_cksum (dg_header d)) (bl_concatenate (dg_payload d)) (with_ports sp dp seg)"
proof -
  let ?seg = "with_ports sp dp seg" and ?n = "4 * unat (doff (header seg)) + length (buffer_str (payload seg))"
  let ?h = "ipv4_header_default\<lparr>ip_src := src, ip_dst := dst,
    ip_len := ucast (20 + ucast (doff (header seg)) * 4 + buffer_sz (payload seg) :: u64)\<rparr>"
  have seg: "header ?seg = (header seg)\<lparr>sport := sp, dport := dp\<rparr>" "payload ?seg = payload seg" "doff (header ?seg) = doff (header seg)"
    by (simp_all add: with_ports_def)
  have f: "tcp_header_valid (header ?seg)" "buffer_inv (payload seg)" "20 + ?n < 2 ^ 16"
    using fits by (simp_all add: ip_fits_def seg tcp_header_valid_def)
  have "unat (20 + ucast (doff (header seg)) * 4 + buffer_sz (payload seg) :: u64) = 20 + ?n"
    using f(3) unat_four_hlen(2) [of "doff (header seg)"] unat_buffer_sz [OF f(2)]
    by (simp add: unat_word_ariths)
  then have len: "unat (ip_len ?h) = 20 + ?n" using f(3) by (simp add: unat_ucast_mod)
  have "unat (pseudo_cksum ?h) + 255 * 256 * (4 * unat (doff (header ?seg)) + length (buffer_str (payload ?seg))) < 2 ^ 32"
    using pseudo_cksum_bound [of ?h] f(3) by (simp only: seg) simp
  from tcp_segment_parse_own [OF f(1) this] obtain bl where bl: "tcp_segment_serialize (pseudo_cksum ?h) ?seg = Some bl"
    "length (bl_concatenate bl) = ?n" "tcp_reads (pseudo_cksum ?h) (bl_concatenate bl) ?seg"
    by (metis seg(2,3))
  let ?d = "\<lparr>dg_header = ?h, dg_payload = bl\<rparr>"
  have hl: "(ucast (ip_hlen (ipv4_header_default)) * 4 :: u64) = 20" "unat (ip_hlen ipv4_header_default) = 5"
    by (simp_all add: ipv4_header_default_def IPv4_LENGTH_def)
  have "set_ports gni (ad_cfg ad) seg = Some ?seg"
    using address_port_inet [OF net] cfg by (simp add: set_ports_def with_ports_def)
  then have w: "wrap_tcp_in_ip gni seg ad = Some (?seg, ?d)"
    using cfg bl(1) by (simp add: wrap_tcp_in_ip_def Let_def hl seg(2,3))
  have "ipv4_datagram_valid ?d"
    using len bl(2) by (simp add: ipv4_datagram_valid_def ipv4_header_valid_def hl) (simp add: ipv4_header_default_def)
  with w bl(3) show thesis by (intro that [of ?d]) (simp_all, simp add: ipv4_header_default_def)
qed

lemma same_segment_reads:
  assumes "header seg' = (header (with_ports sp dp seg))\<lparr>tcp_cksum := tcp_cksum (header seg')\<rparr>"
    and "buffer_str (payload seg') = buffer_str (payload (with_ports sp dp seg))"
  shows "same_segment seg' seg" "sport (header seg') = sp" "dport (header seg') = dp"
    "syn (header seg') = syn (header seg)" "rst (header seg') = rst (header seg)"
proof -
  have *: "header seg' = (header seg)\<lparr>sport := sp, dport := dp, tcp_cksum := tcp_cksum (header seg')\<rparr>"
    by (subst assms(1)) (simp add: with_ports_def)
  show "sport (header seg') = sp" "dport (header seg') = dp"
    "syn (header seg') = syn (header seg)" "rst (header seg') = rst (header seg)" by (subst *, simp)+
  have "tcp_header_eq (header seg') (header seg)" by (subst *) (simp add: tcp_header_eq_def wi_eq_def)
  then show "same_segment seg' seg" using assms(2) by (simp add: same_segment_def with_ports_def)
qed

text \<open>The adapter after it has taken \<open>src\<close>, port \<open>sp\<close>, as its peer.\<close>

definition bound_to :: "u32 \<Rightarrow> u16 \<Rightarrow> u32 \<Rightarrow> u16 \<Rightarrow> fd_adapter \<Rightarrow> fd_adapter" where
  "bound_to src sp dst dp ad = \<lparr>ad_cfg = (ad_cfg ad)\<lparr>cfg_source := inet_address dst dp, cfg_destination := inet_address src sp\<rparr>,
     ad_listen = False\<rparr>"

definition reads_from :: "u32 \<Rightarrow> u16 \<Rightarrow> u32 \<Rightarrow> u16 \<Rightarrow> tcp_segment \<Rightarrow> fd_adapter \<Rightarrow> bool" where
  "reads_from src sp dst dp seg ad \<longleftrightarrow>
     ad = bound_to src sp dst dp ad \<or>
     ad_listen ad \<and> (\<exists>any. cfg_source (ad_cfg ad) = inet_address any dp) \<and> syn (header seg) \<and> \<not> rst (header seg)"

lemma bound_to_simps [simp]:
  "cfg_source (ad_cfg (bound_to src sp dst dp ad)) = inet_address dst dp"
  "cfg_destination (ad_cfg (bound_to src sp dst dp ad)) = inet_address src sp" "ad_listen (bound_to src sp dst dp ad) = False"
  by (simp_all add: bound_to_def)

lemma unwrap_ok:
  assumes net: "numeric_resolver gai gni"
    and h: "ip_src h = src" "ip_dst h = dst" "ip_proto h = PROTO_TCP"
    and r: "tcp_reads (pseudo_cksum h) (buffer_str buf) (with_ports sp dp seg)" "buffer_inv buf"
    and ad: "reads_from src sp dst dp seg ad"
  shows "\<exists>seg'. unwrap_tcp_in_ip gai gni \<lparr>dg_header = h, dg_payload = [buf]\<rparr> ad = Some (Some seg', bound_to src sp dst dp ad) \<and>
    same_segment seg' seg \<and> sport (header seg') = sp \<and> dport (header seg') = dp"
proof -
  obtain seg' where seg': "tcp_segment_parse buf (pseudo_cksum h) tcp_segment_default = Some (NoError, seg')"
    "header seg' = (header (with_ports sp dp seg))\<lparr>tcp_cksum := tcp_cksum (header seg')\<rparr>"
    "buffer_str (payload seg') = buffer_str (payload (with_ports sp dp seg))"
    using tcp_readsD [OF r(1,2) refl] by blast
  note S = same_segment_reads [OF seg'(2,3)]
  note N = address_port_inet [OF net] address_of_ip_numeric [OF net]
  from ad consider (bound) "ad = bound_to src sp dst dp ad"
    | (listening) any where "ad_listen ad" "cfg_source (ad_cfg ad) = inet_address any dp" "syn (header seg)" "\<not> rst (header seg)"
    by (auto simp: reads_from_def)
  then have "unwrap_tcp_in_ip gai gni \<lparr>dg_header = h, dg_payload = [buf]\<rparr> ad = Some (Some seg', bound_to src sp dst dp ad)"
  proof cases
    case bound
    then have c: "cfg_source (ad_cfg ad) = inet_address dst dp" "cfg_destination (ad_cfg ad) = inet_address src sp" "\<not> ad_listen ad"
      by (metis bound_to_simps)+
    have "unwrap_tcp_in_ip gai gni \<lparr>dg_header = h, dg_payload = [buf]\<rparr> ad = Some (Some seg', ad)"
      using c h seg'(1) S N by (simp add: unwrap_tcp_in_ip_def adopt_peer_def bl_to_buffer_def)
    then show ?thesis using bound by simp
  next
    case listening
    then show ?thesis
      using h seg'(1) S N by (simp add: unwrap_tcp_in_ip_def adopt_peer_def bl_to_buffer_def set_listening_def bound_to_def)
  qed
  with S show ?thesis by blast
qed

lemma tun_delivers:
  assumes net: "numeric_resolver gai gni" and fits: "ip_fits seg"
    and a: "cfg_source (ad_cfg a) = inet_address src sp" "cfg_destination (ad_cfg a) = inet_address dst dp"
    and b: "reads_from src sp dst dp seg b"
  shows "\<exists>bl seg'. tun_write gni seg a = Some (with_ports sp dp seg, bl) \<and>
    tun_read gai gni (bl_concatenate bl) b = Some (Some seg', bound_to src sp dst dp b) \<and>
    same_segment seg' seg \<and> sport (header seg') = sp \<and> dport (header seg') = dp"
proof -
  obtain d where d: "wrap_tcp_in_ip gni seg a = Some (with_ports sp dp seg, d)" "ipv4_datagram_valid d"
    "ip_src (dg_header d) = src" "ip_dst (dg_header d) = dst" "ip_proto (dg_header d) = PROTO_TCP"
    "tcp_reads (pseudo_cksum (dg_header d)) (bl_concatenate (dg_payload d)) (with_ports sp dp seg)"
    by (rule wrap_ok [OF net fits a])
  obtain bl h where bl: "ipv4_datagram_serialize d = Some bl" "h = (dg_header d)\<lparr>ip_cksum := ip_cksum h\<rparr>"
    "length (bl_concatenate bl) = unat (ip_len (dg_header d))" "ipv4_reads (bl_concatenate bl) h (bl_concatenate (dg_payload d))"
    by (rule ipv4_datagram_parse_own [OF d(2)])
  have inv: "buffer_inv (buffer_new (bl_concatenate bl))"
    using bl(3) unat_u16_less [of "ip_len (dg_header d)"] by (intro buffer_inv_new) simp
  obtain buf where buf: "ipv4_datagram_parse (buffer_new (bl_concatenate bl)) ipv4_datagram_default =
      Some (NoError, \<lparr>dg_header = h, dg_payload = [buf]\<rparr>)" "buffer_str buf = bl_concatenate (dg_payload d)" "buffer_inv buf"
    using ipv4_readsD(2) [OF bl(4) inv] by auto
  have h: "ip_src h = src" "ip_dst h = dst" "ip_proto h = PROTO_TCP" "pseudo_cksum h = pseudo_cksum (dg_header d)"
    by (subst bl(2), simp add: d)+
  from unwrap_ok [OF net h(1-3) _ buf(3) b] h(4) buf(2) d(6) obtain seg' where
    "unwrap_tcp_in_ip gai gni \<lparr>dg_header = h, dg_payload = [buf]\<rparr> b = Some (Some seg', bound_to src sp dst dp b)"
    "same_segment seg' seg" "sport (header seg') = sp" "dport (header seg') = dp" by auto
  then show ?thesis using d(1) bl(1) buf(1) by (simp add: tun_write_def tun_read_def)
qed

lemma udp_delivers:
  assumes net: "numeric_resolver gai gni" and fits: "ip_fits seg"
    and a: "cfg_source (ad_cfg a) = inet_address src sp" "cfg_destination (ad_cfg a) = inet_address dst dp"
    and b: "if ad_listen b then syn (header seg) \<and> \<not> rst (header seg) else address_eq origin (cfg_destination (ad_cfg b))"
  shows "\<exists>bl seg'. udp_write gni seg a = Some (with_ports sp dp seg, inet_address dst dp, bl) \<and>
    udp_read \<lparr>source_address = origin, rd_payload = bl_concatenate bl\<rparr> b =
      Some (Some seg', if ad_listen b then \<lparr>ad_cfg = (ad_cfg b)\<lparr>cfg_destination := origin\<rparr>, ad_listen = False\<rparr> else b) \<and>
    same_segment seg' seg"
proof -
  let ?seg = "with_ports sp dp seg"
  have seg: "doff (header ?seg) = doff (header seg)" "payload ?seg = payload seg" by (simp_all add: with_ports_def)
  have f: "tcp_header_valid (header ?seg)"
    "unat (0 :: u32) + 255 * 256 * (4 * unat (doff (header ?seg)) + length (buffer_str (payload ?seg))) < 2 ^ 32"
    using fits by (simp_all add: ip_fits_def tcp_header_valid_def seg)
  obtain bl where bl: "tcp_segment_serialize 0 ?seg = Some bl"
    "length (bl_concatenate bl) = 4 * unat (doff (header ?seg)) + length (buffer_str (payload ?seg))"
    "tcp_reads 0 (bl_concatenate bl) ?seg"
    by (rule tcp_segment_parse_own [OF f])
  have "buffer_inv (buffer_new (bl_concatenate bl))" using bl(2) f(2) by (intro buffer_inv_new) simp
  from tcp_readsD [OF bl(3) this, of tcp_segment_default] obtain seg' where
    seg': "tcp_segment_parse (buffer_new (bl_concatenate bl)) 0 tcp_segment_default = Some (NoError, seg')"
    "header seg' = (header ?seg)\<lparr>tcp_cksum := tcp_cksum (header seg')\<rparr>" "buffer_str (payload seg') = buffer_str (payload ?seg)"
    by auto
  note S = same_segment_reads [OF seg'(2,3)]
  have "set_ports gni (ad_cfg a) seg = Some ?seg"
    using address_port_inet [OF net] a by (simp add: set_ports_def with_ports_def)
  then show ?thesis
    using a(2) b bl(1) seg'(1) S by (auto simp: udp_write_def udp_read_def set_listening_def split: if_splits)
qed

definition ip_config :: "getaddrinfo \<Rightarrow> getnameinfo \<Rightarrow> u32 \<Rightarrow> u16 \<Rightarrow> u32 \<Rightarrow> u16 \<Rightarrow> fd_adapter \<Rightarrow> bool" where
  "ip_config gai gni src sp dst dp a \<longleftrightarrow> numeric_resolver gai gni \<and>
     cfg_source (ad_cfg a) = inet_address src sp \<and> cfg_destination (ad_cfg a) = inet_address dst dp"

interpretation tun: segment_channel "tun_write gni" "\<lambda>bl. tun_read gai gni (bl_concatenate bl)"
  "\<lambda>a b. \<exists>src sp dst dp. ip_config gai gni src sp dst dp a \<and> b = bound_to src sp dst dp b"
  "\<lambda>a b. \<exists>src sp dst dp any. ip_config gai gni src sp dst dp a \<and> ad_listen b \<and> cfg_source (ad_cfg b) = inet_address any dp"
  ip_fits for gai gni
proof
  fix a b :: fd_adapter and seg
  assume "\<exists>src sp dst dp. ip_config gai gni src sp dst dp a \<and> b = bound_to src sp dst dp b" and fits: "ip_fits seg"
  then obtain src sp dst dp where c: "ip_config gai gni src sp dst dp a" and b: "b = bound_to src sp dst dp b" by blast
  then have "reads_from src sp dst dp seg b" by (simp add: reads_from_def)
  from tun_delivers [OF _ fits _ _ this, of gai gni a] c b [symmetric]
  show "\<exists>seg' w seg''. tun_write gni seg a = Some (seg', w) \<and> tun_read gai gni (bl_concatenate w) b = Some (Some seg'', b) \<and> same_segment seg'' seg"
    by (auto simp: ip_config_def)
next
  fix a b :: fd_adapter and seg
  assume "\<exists>src sp dst dp any. ip_config gai gni src sp dst dp a \<and> ad_listen b \<and> cfg_source (ad_cfg b) = inet_address any dp"
    and fits: "ip_fits seg" and s: "syn (header seg)" "\<not> rst (header seg)"
  then obtain src sp dst dp any where c: "ip_config gai gni src sp dst dp a" "ad_listen b" "cfg_source (ad_cfg b) = inet_address any dp" by blast
  then have r: "reads_from src sp dst dp seg b" using s by (auto simp: reads_from_def)
  have "bound_to src sp dst dp b = bound_to src sp dst dp (bound_to src sp dst dp b)" by (simp add: bound_to_def)
  with tun_delivers [OF _ fits _ _ r, of gai gni a] c(1)
  show "\<exists>seg' w seg'' b'. tun_write gni seg a = Some (seg', w) \<and> tun_read gai gni (bl_concatenate w) b = Some (Some seg'', b') \<and>
      same_segment seg'' seg \<and> (\<exists>src sp dst dp. ip_config gai gni src sp dst dp a \<and> b' = bound_to src sp dst dp b')"
    unfolding ip_config_def by metis
qed

interpretation udp: segment_channel "udp_write gni" "\<lambda>w. udp_read \<lparr>source_address = origin, rd_payload = bl_concatenate (snd w)\<rparr>"
  "\<lambda>a b. (\<exists>gai src sp dst dp. ip_config gai gni src sp dst dp a) \<and> \<not> ad_listen b \<and> address_eq origin (cfg_destination (ad_cfg b))"
  "\<lambda>a b. (\<exists>gai src sp dst dp. ip_config gai gni src sp dst dp a) \<and> ad_listen b"
  ip_fits for gni origin
proof
  fix a b :: fd_adapter and seg
  assume "(\<exists>gai src sp dst dp. ip_config gai gni src sp dst dp a) \<and> \<not> ad_listen b \<and> address_eq origin (cfg_destination (ad_cfg b))" "ip_fits seg"
  then show "\<exists>seg' w seg''. udp_write gni seg a = Some (seg', w) \<and>
      udp_read \<lparr>source_address = origin, rd_payload = bl_concatenate (snd w)\<rparr> b = Some (Some seg'', b) \<and> same_segment seg'' seg"
    using udp_delivers [of _ gni seg a _ _ _ _ b origin] by (fastforce simp: ip_config_def)
next
  fix a b :: fd_adapter and seg
  assume "(\<exists>gai src sp dst dp. ip_config gai gni src sp dst dp a) \<and> ad_listen b" "ip_fits seg" "syn (header seg)" "\<not> rst (header seg)"
  then show "\<exists>seg' w seg'' b'. udp_write gni seg a = Some (seg', w) \<and>
      udp_read \<lparr>source_address = origin, rd_payload = bl_concatenate (snd w)\<rparr> b = Some (Some seg'', b') \<and> same_segment seg'' seg \<and>
      (\<exists>gai src sp dst dp. ip_config gai gni src sp dst dp a) \<and> \<not> ad_listen b' \<and> address_eq origin (cfg_destination (ad_cfg b'))"
    using udp_delivers [of _ gni seg a _ _ _ _ b origin] by (fastforce simp: ip_config_def address_eq_def)
qed

lemma inet_address_inject: "numeric_resolver gai gni \<Longrightarrow> inet_address x p = inet_address y q \<Longrightarrow> x = y \<and> p = q"
  by (metis address_port_inet ipv4_numeric_inet option.inject)

subsection \<open>Properties\<close>

text \<open>
  C18. A listening adapter and its first client. When the client writes a list of segments that starts
  with a SYN, the server reads the same segments in the same order, over a TUN device as over UDP,
  equal in everything but the ports and the checksum. The server stops listening and is bound to the
  client: over IPv4 its source is the address the client has contacted, so that replies come from there,
  and its destination is the client; over UDP its destination is where the datagram came from.
\<close>

theorem adapters_deliver:
  assumes a: "ip_config gai gni src sp dst dp a"
    and b: "ad_listen b" "cfg_source (ad_cfg b) = inet_address any dp"
    and segs: "\<forall>s \<in> set (s0 # segs). ip_fits s" "syn (header s0)" "\<not> rst (header s0)"
  shows "(\<exists>ws segs' b'. write_all (tun_write gni) (s0 # segs) a = Some ws \<and>
      read_all (\<lambda>bl. tun_read gai gni (bl_concatenate bl)) ws b = Some (segs', b') \<and>
      list_all2 same_segment segs' (s0 # segs) \<and> \<not> ad_listen b' \<and>
      cfg_source (ad_cfg b') = inet_address dst dp \<and> cfg_destination (ad_cfg b') = inet_address src sp) \<and>
    (\<exists>ws segs' b'. write_all (udp_write gni) (s0 # segs) a = Some ws \<and>
      read_all (\<lambda>w. udp_read \<lparr>source_address = origin, rd_payload = bl_concatenate (snd w)\<rparr>) ws b = Some (segs', b') \<and>
      list_all2 same_segment segs' (s0 # segs) \<and> \<not> ad_listen b' \<and> address_eq origin (cfg_destination (ad_cfg b')))"
proof
  have net: "numeric_resolver gai gni" using a by (simp add: ip_config_def)
  obtain ws segs' b' src1 sp1 dst1 dp1 where t: "write_all (tun_write gni) (s0 # segs) a = Some ws"
    "read_all (\<lambda>bl. tun_read gai gni (bl_concatenate bl)) ws b = Some (segs', b')" "list_all2 same_segment segs' (s0 # segs)"
    "ip_config gai gni src1 sp1 dst1 dp1 a" "b' = bound_to src1 sp1 dst1 dp1 b'"
    using tun.accepts_all [OF _ segs, where a = a and b = b and gai = gai and gni = gni] a b by blast
  have "src1 = src \<and> sp1 = sp" "dst1 = dst \<and> dp1 = dp"
    using a t(4) by (auto simp: ip_config_def intro!: inet_address_inject [OF net])
  then have "b' = bound_to src sp dst dp b'" using t(5) by simp
  then have "\<not> ad_listen b'" "cfg_source (ad_cfg b') = inet_address dst dp" "cfg_destination (ad_cfg b') = inet_address src sp"
    by (metis bound_to_simps)+
  with t show "\<exists>ws segs' b'. write_all (tun_write gni) (s0 # segs) a = Some ws \<and>
      read_all (\<lambda>bl. tun_read gai gni (bl_concatenate bl)) ws b = Some (segs', b') \<and>
      list_all2 same_segment segs' (s0 # segs) \<and> \<not> ad_listen b' \<and>
      cfg_source (ad_cfg b') = inet_address dst dp \<and> cfg_destination (ad_cfg b') = inet_address src sp" by blast
  show "\<exists>ws segs' b'. write_all (udp_write gni) (s0 # segs) a = Some ws \<and>
      read_all (\<lambda>w. udp_read \<lparr>source_address = origin, rd_payload = bl_concatenate (snd w)\<rparr>) ws b = Some (segs', b') \<and>
      list_all2 same_segment segs' (s0 # segs) \<and> \<not> ad_listen b' \<and> address_eq origin (cfg_destination (ad_cfg b'))"
    using udp.accepts_all [OF _ segs, where a = a and b = b and gni = gni and origin = origin] a b(1) by blast
qed

theorem adapters_deliver_witness:
  "\<exists>ws segs' b'. write_all (tun_write plain_getnameinfo)
      [tcp_segment_default\<lparr>header := tcp_header_default\<lparr>syn := True\<rparr>\<rparr>, tcp_segment_default]
      \<lparr>ad_cfg = \<lparr>cfg_source = inet_address 1 2, cfg_destination = inet_address 3 4, loss_rate_dn = 0, loss_rate_up = 0\<rparr>, ad_listen = False\<rparr> = Some ws \<and>
    read_all (\<lambda>bl. tun_read plain_getaddrinfo plain_getnameinfo (bl_concatenate bl)) ws
      \<lparr>ad_cfg = \<lparr>cfg_source = inet_address 0 4, cfg_destination = inet_address 0 0, loss_rate_dn = 0, loss_rate_up = 0\<rparr>, ad_listen = True\<rparr> = Some (segs', b') \<and>
    length segs' = 2 \<and> cfg_destination (ad_cfg b') = inet_address 1 2"
proof -
  let ?a = "\<lparr>ad_cfg = \<lparr>cfg_source = inet_address 1 2, cfg_destination = inet_address 3 4, loss_rate_dn = 0, loss_rate_up = 0\<rparr>, ad_listen = False\<rparr>"
  let ?b = "\<lparr>ad_cfg = \<lparr>cfg_source = inet_address 0 4, cfg_destination = inet_address 0 0, loss_rate_dn = 0, loss_rate_up = 0\<rparr>, ad_listen = True\<rparr>"
  let ?s = "tcp_segment_default\<lparr>header := tcp_header_default\<lparr>syn := True\<rparr>\<rparr>"
  have a: "ip_config plain_getaddrinfo plain_getnameinfo 1 2 3 4 ?a" by (simp add: ip_config_def plain_resolver)
  have "ip_fits ?s" "ip_fits tcp_segment_default"
    by (simp_all add: ip_fits_def tcp_segment_default_def tcp_header_default_def tcp_header_LENGTH_def tcp_header_valid_def
        buffer_empty_new_def buffer_inv_def buffer_str_def)
  then have segs: "\<forall>s \<in> set [?s, tcp_segment_default]. ip_fits s" by simp
  have h: "syn (header ?s)" "\<not> rst (header ?s)" by (simp_all add: tcp_header_default_def)
  have "ad_listen ?b" "cfg_source (ad_cfg ?b) = inet_address 0 4" by simp_all
  from adapters_deliver [OF a this segs h, of "inet_address 1 2"] show ?thesis
    by (auto dest: list_all2_lengthD)
qed

end
