(* ===== verification/TCP_Network.thy ===== *)
theory TCP_Network
  imports TCP_Connection FD_Adapter "HOL-Library.Sublist"
begin

text \<open>
  Two connections and a network between them that may lose, repeat, delay and reorder segments. Each
  endpoint carries, beside its connection, what its application has written and read so far and whether
  it has closed its stream. The lemmas are the contract \<open>connection_parts\<close> for two endpoints that
  talk to each other, and the invariant of the whole system.
\<close>

subsection \<open>Honest endpoints\<close>

text \<open>A sender of the stream \<open>f\<close>, of length \<open>N\<close>, of which \<open>W\<close> bytes are written and, if \<open>F\<close>, all.\<close>

definition sends :: "(nat \<Rightarrow> byte) \<Rightarrow> nat \<Rightarrow> WrappingInt32 \<Rightarrow> nat \<Rightarrow> bool \<Rightarrow> tcp_sender \<Rightarrow> bool" where
  "sends f N isn W F s \<longleftrightarrow> on_send f N s \<and> snd_isn s = isn \<and> wtn s = W \<and> (F \<longrightarrow> input_ended (snd_stream s))"

text \<open>A receiver of the stream \<open>g\<close>, of length \<open>M\<close>, of which \<open>K\<close> bytes have been read.\<close>

definition receives :: "(nat \<Rightarrow> byte) \<Rightarrow> nat \<Rightarrow> u64 \<Rightarrow> WrappingInt32 \<Rightarrow> nat \<Rightarrow> tcp_receiver \<Rightarrow> bool" where
  "receives g M cap isn K r \<longleftrightarrow>
     on_connection g M cap isn r \<and> 0 < unat cap \<and> unat (n_bytes_read (rcv_stream_out r)) = K"

definition stream_seg :: "(nat \<Rightarrow> byte) \<Rightarrow> nat \<Rightarrow> WrappingInt32 \<Rightarrow> tcp_segment \<Rightarrow> bool" where
  "stream_seg f N isn seg \<longleftrightarrow> (\<exists>k. seg_of f N isn k seg)"

definition hears :: "(nat \<Rightarrow> byte) \<Rightarrow> nat \<Rightarrow> u64 \<Rightarrow> WrappingInt32 \<Rightarrow> tcp_receiver \<Rightarrow> tcp_segment \<Rightarrow> bool" where
  "hears g M cap isn r seg \<longleftrightarrow> M + unat cap + 3 < 2 ^ 64 \<and> M + 3 < 2 ^ 31 \<and> stream_seg g M isn seg"

lemma seg_of_stamp [simp]: "seg_of f N isn k (stamp b r seg) = seg_of f N isn k seg"
  by (simp add: seg_of_def stamp_def Let_def split: option.split)

lemma stream_seg_same: "same_segment t s \<Longrightarrow> stream_seg f N isn s \<Longrightarrow> stream_seg f N isn t"
proof -
  assume "same_segment t s"
  then have "seqno (header t) = seqno (header s)" "syn (header t) = syn (header s)" "fin (header t) = fin (header s)"
    "buffer_str (payload t) = buffer_str (payload s)"
    by (auto simp: same_segment_def tcp_header_eq_def wi_eq_def intro: WrappingInt32.expand)
  then show "stream_seg f N isn s \<Longrightarrow> stream_seg f N isn t" by (simp add: stream_seg_def seg_of_def)
qed

lemma sends_inv: "sends f N isn W F s \<Longrightarrow> snd_inv s"
  by (simp add: sends_def on_send_def)

lemma sends_fill:
  assumes "sends f N isn W F s"
  shows "\<exists>s'. fill_window s = Some s' \<and> sends f N isn W F s'"
proof (rule fill_window_ok [OF sends_inv [OF assms]])
  fix s' assume "fill_window s = Some s'" "fill_rel s s'"
  then show ?thesis
    using on_send_fill_window [of f N s] assms by (auto simp: sends_def fill_rel_def input_ended_def)
qed

lemma sends_ack:
  assumes "sends f N isn W F s"
  shows "\<exists>s'. ack_received a w s = Some s' \<and> sends f N isn W F s'"
proof -
  have os: "\<exists>s'. ack_received a w s = Some s' \<and> on_send f N s'"
    using on_send_ack_received [of f N s a w] assms by (auto simp: sends_def)
  show ?thesis
  proof (cases rule: ack_received_cases [OF sends_inv [OF assms], of a w, case_names ignored accepted])
    case ignored
    then show ?thesis using os assms by (auto simp: sends_def)
  next
    case (accepted s1)
    have "snd_isn s1 = snd_isn s" "snd_stream s1 = snd_stream s" by (subst accepted(4), simp)+
    with os accepted(6) show ?thesis
      by (rule_tac fill_window_ok [OF accepted(3)]) (use assms in \<open>auto simp: sends_def fill_rel_def input_ended_def\<close>)
  qed
qed

lemma receives_segment:
  assumes "receives g M cap isn K r" and "hears g M cap isn r seg"
  shows "\<exists>r'. rcv_segment_received seg r = Some r' \<and> receives g M cap isn K r'"
proof -
  have oc: "on_connection g M cap isn r" using assms by (simp add: receives_def)
  obtain k where seg: "seg_of g M isn k seg" and M: "M + unat cap + 3 < 2 ^ 64" and d: "M + 3 < 2 ^ 31"
    using assms(2) by (auto simp: hears_def stream_seg_def)
  have os: "on_stream g M cap (rcv_reassembler r)" using oc by (simp add: on_connection_def)
  have "unat (bytes_written (rcv_stream_out r)) \<le> M"
    using on_stream_written [OF os] on_stream_bounds(1) [OF os] by (simp add: rcv_stream_out_def)
  then have "dist_nat k (unat (bytes_written (rcv_stream_out r)) + 1) < 2147483648"
    using seg d by (auto simp: dist_nat_def seg_of_def Let_def)
  from rcv_segment_on_connection [OF oc seg M this] assms(1) show ?thesis by (auto simp: receives_def)
qed

lemma receives_read:
  assumes "receives g M cap isn K r"
  shows "\<exists>x r' K'. read_inbound len r = Some (x, r') \<and> receives g M cap isn K' r' \<and> map g [0..<K] @ x = map g [0..<K']"
proof -
  have os: "on_stream g M cap (rcv_reassembler r)" "0 < unat cap"
    using assms by (simp_all add: receives_def on_connection_def)
  obtain x out where x: "bs_read len (rcv_stream_out r) = Some (x, out)"
    "on_stream g M cap ((rcv_reassembler r)\<lparr>ra_output := out\<rparr>)"
    "map g [0..<unat (n_bytes_read (rcv_stream_out r))] @ x = map g [0..<unat (n_bytes_read out)]"
    using on_stream_consume [OF os, of len] by (auto simp: rcv_stream_out_def)
  have d: "done_writing out = done_writing (rcv_stream_out r)"
    using ra_inv_consume [of "rcv_reassembler r" len] os x(1)
    by (auto simp: on_stream_def rcv_stream_out_def)
  then show ?thesis
    using x assms by (auto simp: read_inbound_def receives_def on_connection_def rcv_stream_out_def received_def
       input_ended_def)
qed

interpretation honest: connection_parts "sends f N isn W F" "receives g M cap pisn K" "stream_seg f N isn"
  "\<lambda>s data. False" "\<lambda>s. W = N" "hears g M cap pisn" "\<lambda>r. False" for f N isn W F g M cap pisn K
proof unfold_locales
  fix r :: tcp_receiver
  assume "receives g M cap pisn K r"
  then show "receives g M cap pisn K (r\<lparr>rcv_reassembler := (rcv_reassembler r)\<lparr>ra_output := set_error (ra_output (rcv_reassembler r))\<rparr>\<rparr>)"
    by (simp add: receives_def on_connection_def rcv_stream_out_def)
      (simp add: received_def)
next
  fix s :: tcp_sender and seg
  assume "sends f N isn W F s" and "seg \<in> set (segments_out s)"
  then show "stream_seg f N isn seg" by (auto simp: sends_def on_send_def stream_seg_def)
next
  fix s :: tcp_sender
  assume s: "sends f N isn W F s"
  have "snd_stream (snd_tick ms s) = snd_stream s" for ms by (auto simp: snd_tick_def Let_def split: list.split)
  then show "sends f N isn W F (s\<lparr>segments_out := []\<rparr>)" "\<And>ms. sends f N isn W F (snd_tick ms s)"
    "sends f N isn W F (send_empty_segment s)" "sends f N isn W F (s\<lparr>snd_stream := set_error (snd_stream s)\<rparr>)"
    "W = N \<Longrightarrow> sends f N isn W F (s\<lparr>snd_stream := end_input (snd_stream s)\<rparr>)"
    using s by (simp_all add: sends_def on_send_dequeue on_send_tick on_send_empty_segment on_send_end_input)
      (simp_all add: send_empty_segment_def Let_def set_error_def end_input_def input_ended_def)
qed (simp_all add: sends_fill sends_ack receives_segment stream_seg_def)

subsection \<open>The system\<close>

record endpoint =
  conn :: tcp_connection
  written :: bytes
  finished :: bool
  got :: bytes

text \<open>The steps of one endpoint, with the segments that can arrive and those that leave.\<close>

inductive ep_step :: "tcp_segment set \<Rightarrow> endpoint \<Rightarrow> tcp_segment list \<Rightarrow> endpoint \<Rightarrow> bool" for inn where
  ep_connect: "connect (conn e) = Some c \<Longrightarrow> ep_step inn e [] (e\<lparr>conn := c\<rparr>)"
| ep_write: "conn_write data (conn e) = Some (n, c) \<Longrightarrow> length data < 2 ^ 64 \<Longrightarrow>
    ep_step inn e [] (e\<lparr>conn := c, written := written e @ take (unat n) data\<rparr>)"
| ep_close: "end_input_stream (conn e) = Some c \<Longrightarrow> ep_step inn e [] (e\<lparr>conn := c, finished := True\<rparr>)"
| ep_tick: "ep_step inn e [] (e\<lparr>conn := conn_tick ms (conn e)\<rparr>)"
| ep_receive: "s \<in> inn \<Longrightarrow> same_segment seg s \<Longrightarrow> conn_segment_received seg (conn e) = Some c \<Longrightarrow>
    ep_step inn e [] (e\<lparr>conn := c\<rparr>)"
| ep_read: "read_inbound len (receiver (conn e)) = Some (x, r) \<Longrightarrow>
    ep_step inn e [] (e\<lparr>conn := (conn e)\<lparr>receiver := r\<rparr>, got := got e @ x\<rparr>)"
| ep_send: "ep_step inn e (conn_segments_out (conn e)) (e\<lparr>conn := (conn e)\<lparr>conn_segments_out := []\<rparr>\<rparr>)"

record network =
  left :: endpoint
  right :: endpoint
  from_left :: "tcp_segment set"
  from_right :: "tcp_segment set"

text \<open>A segment that has been sent stays available: it can arrive at any time, any number of times or never.\<close>

inductive net_step :: "network \<Rightarrow> network \<Rightarrow> bool" where
  step_left: "ep_step (from_right n) (left n) out e \<Longrightarrow> net_step n (n\<lparr>left := e, from_left := from_left n \<union> set out\<rparr>)"
| step_right: "ep_step (from_left n) (right n) out e \<Longrightarrow> net_step n (n\<lparr>right := e, from_right := from_right n \<union> set out\<rparr>)"

definition endpoint_new :: "tcp_config \<Rightarrow> u32 \<Rightarrow> endpoint" where
  "endpoint_new config random = \<lparr>conn = conn_new config random, written = [], finished = False, got = []\<rparr>"

definition network_new :: "tcp_config \<Rightarrow> u32 \<Rightarrow> tcp_config \<Rightarrow> u32 \<Rightarrow> network" where
  "network_new config1 random1 config2 random2 = \<lparr>left = endpoint_new config1 random1, right = endpoint_new config2 random2,
     from_left = {}, from_right = {}\<rparr>"

inductive_cases net_stepE: "net_step n n'"

subsection \<open>Invariant\<close>

text \<open>A stream that extends what has been written so far, properly only while it is open.\<close>

definition compatible :: "bytes \<Rightarrow> endpoint \<Rightarrow> bool" where
  "compatible xs e \<longleftrightarrow> prefix (written e) xs \<and> (finished e \<longrightarrow> xs = written e)"

lemma compatible_refl [simp]: "compatible (written e) e"
  by (simp add: compatible_def)

definition ep_inv :: "bytes \<Rightarrow> WrappingInt32 \<Rightarrow> bytes \<Rightarrow> u64 \<Rightarrow> WrappingInt32 \<Rightarrow> endpoint \<Rightarrow> bool" where
  "ep_inv xs isn ys cap pisn e \<longleftrightarrow>
     conn_holds (sends ((!) xs) (length xs) isn (length (written e)) (finished e))
       (receives ((!) ys) (length ys) cap pisn (length (got e))) (stream_seg ((!) xs) (length xs) isn) (conn e) \<and>
     got e = map ((!) ys) [0..<length (got e)]"

lemma ep_invD:
  assumes "ep_inv xs isn ys cap pisn e"
  shows "sends ((!) xs) (length xs) isn (length (written e)) (finished e) (sender (conn e))"
    "receives ((!) ys) (length ys) cap pisn (length (got e)) (receiver (conn e))"
    "got e = map ((!) ys) [0..<length (got e)]"
  using assms by (simp_all add: ep_inv_def conn_holds_def)

lemma bs_write_take:
  assumes "length data < 2 ^ 64"
  shows "bs_write (take (unat (fst (bs_write data s))) data) s = bs_write data s"
    "unat (fst (bs_write data s)) \<le> length data"
proof -
  define n where "n = min (size64 data) (remaining_capacity s)"
  have sz: "unat (size64 data) = length data" using assms by (simp add: size64_def unat_of_nat)
  have n: "unat n \<le> length data" "fst (bs_write data s) = n"
    using sz by (simp_all add: n_def bs_write_def Let_def min_def word_le_nat_alt)
  have "size64 (take (unat n) data) = n" using n(1) by (simp add: size64_def)
  moreover have "min n (remaining_capacity s) = n" by (simp add: n_def)
  moreover have "fold (\<lambda>i b. b[unat ((data_begin s + cur_size s + of_nat i) mod max_capacity s) := take (unat n) data ! i])
      [0..<unat n] (bs_buffer s) =
    fold (\<lambda>i b. b[unat ((data_begin s + cur_size s + of_nat i) mod max_capacity s) := data ! i]) [0..<unat n] (bs_buffer s)"
    by (rule fold_cong) simp_all
  ultimately show "bs_write (take (unat (fst (bs_write data s))) data) s = bs_write data s"
    unfolding n(2) by (simp add: bs_write_def Let_def n_def [symmetric])
  show "unat (fst (bs_write data s)) \<le> length data" using n by simp
qed

lemma sends_write:
  fixes data :: bytes and s :: tcp_sender
  assumes s: "sends ((!) xs) (length xs) isn (length w) F s" and op: "\<not> input_ended (snd_stream s)"
    and len: "length data < 2 ^ 64" and N: "length xs < 2 ^ 63"
  defines "d \<equiv> take (unat (fst (bs_write data (snd_stream s)))) data"
  assumes pre: "prefix (w @ d) xs"
  shows "sends ((!) xs) (length xs) isn (length (w @ d)) F (s\<lparr>snd_stream := snd (bs_write data (snd_stream s))\<rparr>)"
proof -
  note T = bs_write_take [OF len, of "snd_stream s", folded d_def]
  have w: "wtn s = length w" and os: "on_send ((!) xs) (length xs) s" using s by (simp_all add: sends_def)
  obtain zs where xs: "xs = w @ d @ zs" using pre by (auto simp: prefix_def)
  have d: "length d = unat (fst (bs_write d (snd_stream s)))" using T by (simp add: d_def)
  have "on_send ((!) xs) (length xs) (s\<lparr>snd_stream := snd (bs_write d (snd_stream s))\<rparr>)"
    by (rule on_send_write [OF os op N]) (simp_all add: w xs nth_append)
  moreover have "wtn s + length d < 2 ^ 63" using N w by (simp add: xs)
  from snd_inv_write(2,4) [OF sends_inv [OF s] op this]
  have "unat (n_bytes_written (snd (bs_write d (snd_stream s)))) = length w + length d"
    unfolding d [symmetric] w by (simp only:)
  ultimately show ?thesis using s op unfolding T(1) by (auto simp: sends_def)
qed

lemma ep_inv_frame: "ep_inv xs isn ys cap pisn (e\<lparr>conn := c\<rparr>) \<longleftrightarrow>
  conn_holds (sends ((!) xs) (length xs) isn (length (written e)) (finished e))
       (receives ((!) ys) (length ys) cap pisn (length (got e))) (stream_seg ((!) xs) (length xs) isn) c \<and>
     got e = map ((!) ys) [0..<length (got e)]"
  by (simp add: ep_inv_def)

lemma ep_inv_write:
  assumes inv: "ep_inv xs isn ys cap pisn e" and wr: "conn_write data (conn e) = Some (n, c)" and len: "length data < 2 ^ 64"
    and xs: "prefix (written e @ take (unat n) data) xs" "length xs < 2 ^ 63"
  shows "ep_inv xs isn ys cap pisn (e\<lparr>conn := c, written := written e @ take (unat n) data\<rparr>)"
proof (cases "input_ended (snd_stream (sender (conn e))) \<or> \<not> syn_sent (conn e)")
  case True
  then show ?thesis using wr inv by (simp add: conn_write_def ep_inv_def)
next
  case False
  let ?s = "sender (conn e)"
  let ?c1 = "(conn e)\<lparr>sender := ?s\<lparr>snd_stream := snd (bs_write data (snd_stream ?s))\<rparr>\<rparr>"
  let ?W = "length (written e @ take (unat n) data)"
  obtain c2 where c2: "with_sender fill_window ?c1 = Some c2" "c = send_segments False c2" "n = fst (bs_write data (snd_stream ?s))"
    using wr False by (auto simp: conn_write_def Let_def case_prod_unfold)
  have "sends ((!) xs) (length xs) isn ?W (finished e) (sender ?c1)"
    using sends_write [OF ep_invD(1) [OF inv] _ len xs(2)] False xs(1) by (simp add: c2(3))
  then have "conn_holds (sends ((!) xs) (length xs) isn ?W (finished e))
      (receives ((!) ys) (length ys) cap pisn (length (got e))) (stream_seg ((!) xs) (length xs) isn) ?c1"
    using inv by (simp add: ep_inv_def conn_holds_def)
  from honest.holds_fill [OF this] c2(1)
  have "conn_holds (sends ((!) xs) (length xs) isn ?W (finished e))
      (receives ((!) ys) (length ys) cap pisn (length (got e))) (stream_seg ((!) xs) (length xs) isn) c"
    by (auto simp: c2(2) intro: honest.holds_send)
  then show ?thesis using inv by (simp add: ep_inv_def)
qed

lemma ep_inv_close:
  assumes inv: "ep_inv xs isn ys cap pisn e" and cl: "end_input_stream (conn e) = Some c" and xs: "xs = written e"
  shows "ep_inv xs isn ys cap pisn (e\<lparr>conn := c, finished := True\<rparr>)"
proof -
  let ?s = "sender (conn e)"
  let ?c1 = "(conn e)\<lparr>sender := ?s\<lparr>snd_stream := end_input (snd_stream ?s)\<rparr>\<rparr>"
  have "sends ((!) xs) (length xs) isn (length (written e)) True (sender ?c1)"
    using ep_invD(1) [OF inv] by (simp add: sends_def on_send_end_input xs) (simp add: end_input_def input_ended_def)
  then have "conn_holds (sends ((!) xs) (length xs) isn (length (written e)) True)
      (receives ((!) ys) (length ys) cap pisn (length (got e))) (stream_seg ((!) xs) (length xs) isn) ?c1"
    using inv by (simp add: ep_inv_def conn_holds_def)
  from honest.holds_fill [OF this] cl
  have "conn_holds (sends ((!) xs) (length xs) isn (length (written e)) True)
      (receives ((!) ys) (length ys) cap pisn (length (got e))) (stream_seg ((!) xs) (length xs) isn) c"
    by (auto simp: end_input_stream_def Let_def intro: honest.holds_try_closing)
  then show ?thesis using inv by (simp add: ep_inv_def)
qed

lemma ep_inv_read:
  assumes inv: "ep_inv xs isn ys cap pisn e" and rd: "read_inbound len (receiver (conn e)) = Some (x, r)"
  shows "ep_inv xs isn ys cap pisn (e\<lparr>conn := (conn e)\<lparr>receiver := r\<rparr>, got := got e @ x\<rparr>)"
proof -
  obtain K where K: "receives ((!) ys) (length ys) cap pisn K r" "map ((!) ys) [0..<length (got e)] @ x = map ((!) ys) [0..<K]"
    using receives_read [OF ep_invD(2) [OF inv], of len] rd by auto
  then have g: "got e @ x = map ((!) ys) [0..<K]" using ep_invD(3) [OF inv] by simp
  then have "length (got e @ x) = K" by (simp only: length_map length_upt)
  then show ?thesis using inv K(1) g by (simp add: ep_inv_def conn_holds_def)
qed

lemma ep_step_written: "ep_step inn e out e' \<Longrightarrow> prefix (written e) (written e')"
  by (induction rule: ep_step.induct) simp_all

lemma compatible_step:
  assumes "ep_step inn e out e'" and "ep_inv xs0 isn ys cap pisn e" and "compatible xs e'"
  shows "compatible xs e"
  using assms
proof (induction rule: ep_step.induct)
  case (ep_write data e n c)
  have "n = 0" if "finished e"
    using that ep_write(1) ep_invD(1) [OF ep_write(3)] by (auto simp: conn_write_def sends_def)
  then show ?case using ep_write(4) by (auto simp: compatible_def dest: append_prefixD)
qed (auto simp: compatible_def)

text \<open>Both streams are short enough for 32-bit sequence numbers to be unambiguous.\<close>

definition short :: "bytes \<Rightarrow> bool" where
  "short xs \<longleftrightarrow> length xs + 3 < 2 ^ 31"

lemma ep_inv_step:
  assumes "ep_step inn e out e'" and "ep_inv xs isn ys cap pisn e" and "compatible xs e'"
    and inn: "\<forall>s \<in> inn. stream_seg ((!) ys) (length ys) pisn s" and short: "short xs" "short ys" and cap: "unat cap < 2 ^ 63"
  shows "ep_inv xs isn ys cap pisn e' \<and> (\<forall>s \<in> set out. stream_seg ((!) xs) (length xs) isn s)"
  using assms(1-3)
proof (induction rule: ep_step.induct)
  case (ep_connect e c)
  then show ?case using honest.holds_connect [of _ _ _ _ _ _ _ _ _ _ "conn e"] by (fastforce simp: ep_inv_def)
next
  case (ep_write data e n c)
  then show ?case using ep_inv_write [OF ep_write(3,1,2)] short(1) by (simp add: compatible_def short_def)
next
  case (ep_close e c)
  then show ?case using ep_inv_close [OF ep_close(2,1)] by (simp add: compatible_def)
next
  case (ep_tick e ms)
  then show ?case by (simp add: ep_inv_def honest.holds_tick)
next
  case (ep_receive s seg e c)
  have "hears ((!) ys) (length ys) cap pisn (receiver (conn e)) seg"
    using inn ep_receive(1) stream_seg_same [OF ep_receive(2)] short(2) cap by (simp add: hears_def short_def)
  with ep_receive(3,4) honest.holds_segment_received show ?case by (fastforce simp: ep_inv_def)
next
  case (ep_read len e x r)
  then show ?case using ep_inv_read by simp
next
  case (ep_send e)
  then show ?case by (simp add: ep_inv_def conn_holds_def)
qed

definition net_inv :: "bytes \<Rightarrow> WrappingInt32 \<Rightarrow> u64 \<Rightarrow> bytes \<Rightarrow> WrappingInt32 \<Rightarrow> u64 \<Rightarrow> network \<Rightarrow> bool" where
  "net_inv xs isn1 cap1 ys isn2 cap2 n \<longleftrightarrow>
     ep_inv xs isn1 ys cap1 isn2 (left n) \<and> ep_inv ys isn2 xs cap2 isn1 (right n) \<and>
     (\<forall>s \<in> from_left n. stream_seg ((!) xs) (length xs) isn1 s) \<and> (\<forall>s \<in> from_right n. stream_seg ((!) ys) (length ys) isn2 s)"

lemma short_prefix: "prefix xs ys \<Longrightarrow> short ys \<Longrightarrow> short xs"
  using prefix_length_le by (fastforce simp: short_def)

lemma net_inv_reach:
  assumes "net_step\<^sup>*\<^sup>* n0 n"
    and start: "\<And>xs ys. net_inv xs isn1 cap1 ys isn2 cap2 n0" and cap: "unat cap1 < 2 ^ 63" "unat cap2 < 2 ^ 63"
    and "compatible xs (left n)" "compatible ys (right n)" "short xs" "short ys"
  shows "net_inv xs isn1 cap1 ys isn2 cap2 n"
  using assms(1,5-)
proof (induction arbitrary: xs ys rule: rtranclp_induct)
  case base
  then show ?case by (simp add: start)
next
  case (step n n')
  note comp = step.prems(1,2) and short = step.prems(3,4)
  have w: "short (written (left n))" "short (written (right n))"
    using step.hyps(2) comp short ep_step_written short_prefix
    by (auto elim!: net_stepE simp: compatible_def intro: short_prefix dest!: ep_step_written)
  have here: "net_inv (written (left n)) isn1 cap1 (written (right n)) isn2 cap2 n"
    by (rule step.IH) (simp_all add: w)
  show ?case
    using step.hyps(2)
  proof (cases rule: net_step.cases)
    case (step_left out e)
    have c: "compatible xs (left n)" "compatible ys (right n)"
      using compatible_step [OF step_left(2)] here comp by (auto simp: net_inv_def step_left(1))
    note I = step.IH [OF c short]
    have "ep_inv xs isn1 ys cap1 isn2 e \<and> (\<forall>s \<in> set out. stream_seg ((!) xs) (length xs) isn1 s)"
      using I comp(1) by (intro ep_inv_step [OF step_left(2) _ _ _ short cap(1)]) (simp_all add: net_inv_def step_left(1))
    then show ?thesis using I by (auto simp: net_inv_def step_left(1))
  next
    case (step_right out e)
    have c: "compatible xs (left n)" "compatible ys (right n)"
      using compatible_step [OF step_right(2)] here comp by (auto simp: net_inv_def step_right(1))
    note I = step.IH [OF c short]
    have "ep_inv ys isn2 xs cap2 isn1 e \<and> (\<forall>s \<in> set out. stream_seg ((!) ys) (length ys) isn2 s)"
      using I comp(2) by (intro ep_inv_step [OF step_right(2) _ _ _ short(2,1) cap(2)]) (simp_all add: net_inv_def step_right(1))
    then show ?thesis using I by (auto simp: net_inv_def step_right(1))
  qed
qed

lemma ep_inv_new:
  assumes "0 < unat (recv_capacity config)" and "unat (recv_capacity config) < 2 ^ 63"
    and "0 < unat (send_capacity config)" and "unat (send_capacity config) < 2 ^ 63"
  shows "ep_inv xs (snd_isn (sender (conn_new config random))) ys (recv_capacity config) pisn (endpoint_new config random)"
proof -
  have "wtn (snd_new c t i r) = 0" for c t i r by (simp add: snd_new_def bs_new_def)
  moreover have "n_bytes_read (rcv_stream_out (rcv_new c)) = 0" for c
    by (simp add: rcv_stream_out_def rcv_new_def ra_new_def bs_new_def)
  ultimately show ?thesis
    using on_send_new [OF assms(3,4)] on_connection_new [OF assms(2)] assms(1)
    by (simp add: ep_inv_def conn_holds_def endpoint_new_def conn_new_def sends_def receives_def)
qed

text \<open>What the receiving application has seen.\<close>

lemma receives_prefix:
  assumes r: "receives ((!) ys) (length ys) cap pisn (length gs) r" and gs: "gs = map ((!) ys) [0..<length gs]"
  shows "prefix gs ys" "bs_eof (rcv_stream_out r) \<Longrightarrow> gs = ys"
    "input_ended (rcv_stream_out r) \<Longrightarrow> unat (first_unasmb (rcv_reassembler r)) = length ys"
proof -
  let ?ra = "rcv_reassembler r"
  have os: "on_stream ((!) ys) (length ys) cap ?ra" and k: "unat (n_bytes_read (ra_output ?ra)) = length gs"
    using r by (simp_all add: receives_def on_connection_def rcv_stream_out_def)
  have core: "unat (first_unasmb ?ra) = length gs + unat (cur_size (ra_output ?ra))"
    using os k by (simp add: on_stream_def ra_inv_def ra_core_def)
  have le: "length gs \<le> length ys" using core on_stream_bounds(1) [OF os] by simp
  then have t: "gs = take (length gs) ys" using gs by (metis map_nth take_map take_upt add_0)
  then show "prefix gs ys" by (metis take_is_prefix)
  show e: "input_ended (rcv_stream_out r) \<Longrightarrow> unat (first_unasmb ?ra) = length ys"
    using os by (simp add: on_stream_def rcv_stream_out_def)
  assume "bs_eof (rcv_stream_out r)"
  then have "length gs = length ys"
    using e core by (simp add: bs_eof_def buffer_empty_def rcv_stream_out_def)
  then show "gs = ys" using t by simp
qed

lemma ended_finished:
  assumes "\<And>zs. compatible zs e \<Longrightarrow> short zs \<Longrightarrow> receives ((!) zs) (length zs) cap pisn (length gs) r \<and> gs = map ((!) zs) [0..<length gs]"
    and "length (written e) + 4 < 2 ^ 31" and "input_ended (rcv_stream_out r)"
  shows "finished e"
proof (rule ccontr)
  assume "\<not> finished e"
  then have "compatible (written e @ [0]) e" "short (written e @ [0])" "short (written e)"
    using assms(2) by (simp_all add: compatible_def short_def)
  then have "unat (first_unasmb (rcv_reassembler r)) = length (written e @ [0])"
    "unat (first_unasmb (rcv_reassembler r)) = length (written e)"
    using assms(1) [of "written e @ [0]"] assms(1) [of "written e"] receives_prefix(3) assms(3) compatible_refl by metis+
  then show False by simp
qed

lemma honest_receive:
  assumes "ep_inv xs isn ys cap pisn e" and "stream_seg ((!) ys) (length ys) pisn s" and "same_segment seg s"
    and "short ys" and "unat cap < 2 ^ 63"
  shows "conn_segment_received seg (conn e) \<noteq> None"
proof -
  have "hears ((!) ys) (length ys) cap pisn (receiver (conn e)) seg"
    using assms(2-5) stream_seg_same by (simp add: hears_def short_def)
  with honest.holds_segment_received assms(1) show ?thesis by (fastforce simp: ep_inv_def)
qed

end
