(* ===== verification/File_Descriptor.thy ===== *)
theory File_Descriptor
  imports Net_Buffer "HOL-Library.Monad_Syntax"
begin

unbundle bit_operations_syntax

text \<open>
  \<open>FileDescriptor\<close>, \<open>libsponge/util/file_descriptor.hh\<close> and \<open>file_descriptor.cc\<close>, and the check of system
  calls, \<open>SystemCall\<close> of \<open>util.cc\<close>. A system call is a parameter of the model: a function of the state \<open>'k\<close> of
  the kernel that gives the value returned, \<open>errno\<close> and the new state. The wrapper that handles of one
  descriptor share is the record. Throws are \<^const>\<open>None\<close>.
\<close>

record fd_wrapper =
  fd_num :: int
  fd_eof :: bool
  fd_closed :: bool
  read_count :: u32
  write_count :: u32

definition fd_new :: "int \<Rightarrow> fd_wrapper option" where
  "fd_new fd = (if fd < 0 then None
     else Some \<lparr>fd_num = fd, fd_eof = False, fd_closed = False, read_count = 0, write_count = 0\<rparr>)"

text \<open>
  \<open>SystemCall\<close> takes and returns an \<open>int\<close> of 32 bits. The calls \<open>read\<close> and \<open>writev\<close> return an \<open>ssize_t\<close> of 64
  bits, which is converted at the call.
\<close>

definition SystemCall :: "32 word \<Rightarrow> int \<Rightarrow> int \<Rightarrow> int option" where
  "SystemCall return_value errno errno_mask =
     (if sint return_value \<ge> 0 \<or> errno = errno_mask then Some (sint return_value) else None)"

definition register_read :: "fd_wrapper \<Rightarrow> fd_wrapper" where
  "register_read fd = fd\<lparr>read_count := read_count fd + 1\<rparr>"

definition register_write :: "fd_wrapper \<Rightarrow> fd_wrapper" where
  "register_write fd = fd\<lparr>write_count := write_count fd + 1\<rparr>"

type_synonym 'k sys_close = "int \<Rightarrow> 'k \<Rightarrow> 32 word \<times> int \<times> 'k"
type_synonym 'k sys_read = "int \<Rightarrow> u64 \<Rightarrow> 'k \<Rightarrow> 64 word \<times> int \<times> bytes \<times> 'k"
type_synonym 'k sys_writev = "int \<Rightarrow> bytes list \<Rightarrow> 'k \<Rightarrow> 64 word \<times> int \<times> 'k"

type_synonym 'k sys_fcntl = "int \<Rightarrow> int \<Rightarrow> u32 \<Rightarrow> 'k \<Rightarrow> 32 word \<times> int \<times> 'k"

definition fd_close :: "'k sys_close \<Rightarrow> fd_wrapper \<Rightarrow> 'k \<Rightarrow> (fd_wrapper \<times> 'k) option" where
  "fd_close close fd k =
     (let (rv, errno, k) = close (fd_num fd) k
      in do {
        _ \<leftarrow> SystemCall rv errno 0;
        Some (fd\<lparr>fd_eof := True, fd_closed := True\<rparr>, k)
      })"

text \<open>The destructor of the wrapper catches what \<open>close\<close> throws.\<close>

definition fd_destroy :: "'k sys_close \<Rightarrow> fd_wrapper \<Rightarrow> 'k \<Rightarrow> 'k" where
  "fd_destroy close fd k = (if fd_closed fd then k else snd (snd (close (fd_num fd) k)))"

definition fd_read :: "'k sys_read \<Rightarrow> u64 \<Rightarrow> fd_wrapper \<Rightarrow> 'k \<Rightarrow> (bytes \<times> fd_wrapper \<times> 'k) option" where
  "fd_read read limit fd k =
     (let size_to_read = min (1024 * 1024) limit;
          (rv, errno, str, k) = read (fd_num fd) size_to_read k
      in do {
        bytes_read \<leftarrow> SystemCall (ucast rv) errno 0;
        let fd = (if limit > 0 \<and> bytes_read = 0 then fd\<lparr>fd_eof := True\<rparr> else fd);
        if bytes_read > uint size_to_read \<or> bytes_read < 0 then None
        else Some (take (nat bytes_read) str, register_read fd, k)
      })"

definition F_GETFL :: int where "F_GETFL = 3"
definition F_SETFL :: int where "F_SETFL = 4"
definition O_NONBLOCK :: u32 where "O_NONBLOCK = 0x800"

definition set_blocking :: "'k sys_fcntl \<Rightarrow> bool \<Rightarrow> fd_wrapper \<Rightarrow> 'k \<Rightarrow> 'k option" where
  "set_blocking fcntl blocking_state fd k =
     (let (rv, errno, k) = fcntl (fd_num fd) F_GETFL 0 k
      in do {
        flags \<leftarrow> map_option of_int (SystemCall rv errno 0);
        let flags = (if blocking_state then flags XOR (flags AND O_NONBLOCK) else flags OR O_NONBLOCK);
        let (rv, errno, k) = fcntl (fd_num fd) F_SETFL flags k;
        _ \<leftarrow> SystemCall rv errno 0;
        Some k
      })"

text \<open>\<open>set_blocking\<close> sets or clears \<open>O_NONBLOCK\<close> and leaves every other flag of the descriptor as it was.\<close>

lemma set_blocking_flags:
  fixes flags :: "int \<Rightarrow> u32"
  assumes "0 \<le> sint (flags (fd_num fd))"
  shows "set_blocking (\<lambda>fd cmd arg k. if cmd = F_GETFL then (k fd, 0, k) else (0, 0, k(fd := arg))) blocking_state fd flags =
    Some (flags(fd_num fd := if blocking_state then flags (fd_num fd) AND NOT O_NONBLOCK else flags (fd_num fd) OR O_NONBLOCK))"
proof -
  have "x XOR (x AND O_NONBLOCK) = x AND NOT O_NONBLOCK" for x :: u32
    by (rule bit_eqI) (auto simp: bit_simps)
  with assms show ?thesis by (auto simp: set_blocking_def SystemCall_def F_GETFL_def F_SETFL_def)
qed

lemma bvl_remove_prefix_shrinks:
  "bvl_remove_prefix n vs = Some vs' \<Longrightarrow> n \<noteq> 0 \<Longrightarrow> length (concat vs') < length (concat vs)"
proof (induction n vs arbitrary: vs' rule: bvl_remove_prefix.induct)
  case (2 n v vs)
  have n: "0 < n" using 2(3) by (simp add: word_gt_0)
  have le: "unat (size64 v) \<le> length v" by (simp add: size64_def unat_of_nat)
  show ?case
  proof (cases "n < size64 v")
    case True
    then have "0 < unat n" "unat n < length v" using n le by (simp_all add: word_less_nat_alt)
    then show ?thesis using 2(2) n True by auto
  next
    case False
    then have r: "bvl_remove_prefix (n - size64 v) vs = Some vs'" using 2(2) n by simp
    show ?thesis
    proof (cases "n - size64 v = 0")
      case True
      then have "v \<noteq> []" using 2(3) by (auto simp: size64_def)
      moreover have "vs' = vs" using r True by (cases vs) auto
      ultimately show ?thesis by simp
    next
      case nz: False
      with 2(1) [OF n False r] show ?thesis by simp
    qed
  qed
qed (auto simp: word_gt_0 split: if_splits)

lemma write_shrinks:
  assumes "SystemCall rv errno 0 = Some n" and "\<not> (n = 0 \<and> bvl_size buffer \<noteq> 0)"
    and "bvl_remove_prefix (of_int n) buffer = Some buffer'" and "bvl_size buffer' \<noteq> 0"
  shows "length (concat buffer') < length (concat buffer)"
proof -
  have n: "n = sint rv" using assms(1) by (simp add: SystemCall_def split: if_splits)
  have nz: "n \<noteq> 0"
  proof
    assume "n = 0"
    then have "buffer' = buffer" using assms(3) by (cases buffer) auto
    with \<open>n = 0\<close> assms(2,4) show False by simp
  qed
  have "(of_int n :: u64) \<noteq> 0"
  proof
    assume "(of_int n :: u64) = 0"
    then have "2 ^ 64 dvd n" by (simp add: word_of_int_eq_0_iff)
    then have "\<bar>2 ^ 64\<bar> \<le> \<bar>n\<bar>" using nz by (rule dvd_imp_le_int [rotated])
    moreover have "\<bar>n\<bar> < 2 ^ 64" using sint_greater_eq [of rv] sint_less [of rv] by (simp add: n)
    ultimately show False by simp
  qed
  with bvl_remove_prefix_shrinks assms(3) show ?thesis by blast
qed

function fd_write :: "'k sys_writev \<Rightarrow> bool \<Rightarrow> buffer_view_list \<Rightarrow> u64 \<Rightarrow> fd_wrapper \<Rightarrow> 'k \<Rightarrow>
    (u64 \<times> fd_wrapper \<times> 'k) option" where
  "fd_write writev write_all buffer total_bytes_written fd k =
     (case writev (fd_num fd) (bvl_as_iovecs buffer) k of
        (rv, errno, k) \<Rightarrow>
          (case SystemCall (ucast rv) errno 0 of
             None \<Rightarrow> None
           | Some bytes_written \<Rightarrow>
               if bytes_written = 0 \<and> bvl_size buffer \<noteq> 0 then None
               else if bytes_written > sint (bvl_size buffer) then None
               else
                 (case bvl_remove_prefix (of_int bytes_written) buffer of
                    None \<Rightarrow> None
                  | Some buffer' \<Rightarrow>
                      if write_all \<and> bvl_size buffer' \<noteq> 0
                      then fd_write writev write_all buffer' (total_bytes_written + of_int bytes_written) (register_write fd) k
                      else Some (total_bytes_written + of_int bytes_written, register_write fd, k))))"
  by pat_completeness auto
termination fd_write
proof (relation "measure (\<lambda>(_, _, buffer, _). length (concat buffer))")
qed (use write_shrinks in auto)

declare fd_write.simps [simp del]

text \<open>
  What \<open>writev\<close> on the descriptor \<open>fd\<close> is documented to do when it succeeds: it takes a number of bytes from the front of the
  buffers, at least one unless there are none and fewer than \<open>2 ^ 31\<close>, and returns that number. \<open>taken\<close> is everything it has taken.
\<close>

definition writes_through :: "'k sys_writev \<Rightarrow> int \<Rightarrow> ('k \<Rightarrow> bytes) \<Rightarrow> bool" where
  "writes_through writev fd taken \<longleftrightarrow> (\<forall>iov k. case writev fd iov k of (rv, errno, k') \<Rightarrow>
     0 \<le> sint rv \<and> sint rv < 2 ^ 31 \<and> nat (sint rv) \<le> length (concat iov) \<and> (concat iov \<noteq> [] \<longrightarrow> 0 < sint rv) \<and>
     taken k' = taken k @ take (nat (sint rv)) (concat iov))"

lemma unat_of_int_sint:
  assumes "0 \<le> sint (rv :: 32 word)"
  shows "unat (of_int (sint rv) :: u64) = nat (sint rv)"
proof -
  have *: "unat (of_int x :: u64) = nat x" if "0 \<le> x" "x < 2 ^ 64" for x :: int
    using that by (simp add: unsigned_of_int take_bit_int_eq_self)
  have "sint rv < 2 ^ 64" using sint_less [of rv] by simp
  with * [OF assms] show ?thesis by simp
qed

lemma sint_ucast_int:
  assumes "0 \<le> sint (x :: 64 word)" "sint x < 2 ^ 31"
  shows "sint (ucast x :: 32 word) = sint x"
proof -
  have "sint (ucast x :: 32 word) = signed_take_bit 31 (sint x)"
    by (rule bit_eqI) (auto simp: bit_simps min_def)
  with assms show ?thesis by (simp add: signed_take_bit_int_eq_self)
qed

lemma fd_write_ok:
  assumes "writes_through writev (fd_num fd) taken" and "length (concat buffer) < 2 ^ 63" and "unat sofar + length (concat buffer) < 2 ^ 64"
  shows "\<exists>n fd' k'. fd_write writev write_all buffer sofar fd k = Some (sofar + n, fd', k') \<and>
    unat n \<le> length (concat buffer) \<and> taken k' = taken k @ take (unat n) (concat buffer) \<and>
    (write_all \<longrightarrow> unat n = length (concat buffer)) \<and> (concat buffer \<noteq> [] \<longrightarrow> 0 < unat n) \<and>
    fd' = fd\<lparr>write_count := write_count fd'\<rparr>"
  using assms
proof (induction "length (concat buffer)" arbitrary: buffer sofar fd k rule: less_induct)
  case less
  let ?bs = "concat buffer"
  obtain rv' errno k1 where w: "writev (fd_num fd) buffer k = (rv', errno, k1)" by (metis prod_cases3)
  define rv :: u32 where "rv = ucast rv'"
  let ?m = "nat (sint rv)" and ?n = "of_int (sint rv) :: u64"
  have W: "0 \<le> sint rv" "?m \<le> length ?bs" "?bs \<noteq> [] \<longrightarrow> 0 < sint rv" "taken k1 = taken k @ take ?m ?bs"
    using less.prems(1) w sint_ucast_int [of rv']
    by (auto simp: writes_through_def rv_def split: prod.splits dest!: spec [of _ buffer] spec [of _ k])
  have n: "unat ?n = ?m" by (rule unat_of_int_sint [OF W(1)])
  have sc: "SystemCall rv errno 0 = Some (sint rv)" using W(1) by (simp add: SystemCall_def)
  have sz: "unat (bvl_size buffer) = length ?bs" using less.prems(2) by (simp add: bvl_size_eq unat_simps)
  have ssz: "sint (bvl_size buffer) = int (length ?bs)"
    using sz less.prems(2) by (simp add: sint_uint signed_take_bit_int_eq_self uint_nat)
  have "length v \<le> length ?bs" if "v \<in> set buffer" for v using that by (induction buffer) auto
  then have inv: "bvl_inv buffer" using less.prems(2) by (fastforce simp: bvl_inv_def)
  obtain buffer' where b': "bvl_remove_prefix ?n buffer = Some buffer'" "concat buffer' = drop ?m ?bs"
    using bvl.remove_ok [OF inv, of ?n] W(2) n by auto
  have eq: "fd_write writev write_all buffer sofar fd k =
      (if write_all \<and> bvl_size buffer' \<noteq> 0 then fd_write writev write_all buffer' (sofar + ?n) (register_write fd) k1
       else Some (sofar + ?n, register_write fd, k1))"
    using w sc ssz W b'(1) sz by (subst fd_write.simps) (auto simp: word_eq_unat_iff rv_def)
  have sz': "bvl_size buffer' = 0 \<longleftrightarrow> ?m = length ?bs"
    using less.prems(2) W(2) b'(2) by (auto simp: bvl_size_eq word_eq_unat_iff unat_simps)
  show ?case
  proof (cases "write_all \<and> bvl_size buffer' \<noteq> 0")
    case False
    then show ?thesis
      unfolding eq using W n sz' by (intro exI [of _ ?n]) (auto simp: register_write_def)
  next
    case True
    have len: "length (concat buffer') = length ?bs - ?m" by (simp add: b'(2))
    have "length ?bs \<noteq> 0" using W(2) sz' True by linarith
    then have "0 < ?m" using W(3) by (metis length_0_conv zero_less_nat_eq)
    then have lt: "length (concat buffer') < length ?bs" using W(2) len by simp
    have u: "unat (sofar + ?n) = unat sofar + ?m" using less.prems(3) W(2) n by (simp add: unat_add_no_wrap)
    have p: "writes_through writev (fd_num (register_write fd)) taken" "length (concat buffer') < 2 ^ 63" "unat (sofar + ?n) + length (concat buffer') < 2 ^ 64"
      using less.prems u len W(2) by (simp_all add: register_write_def)
    obtain n' fd' k' where r: "fd_write writev write_all buffer' (sofar + ?n) (register_write fd) k1 = Some (sofar + ?n + n', fd', k')"
      "unat n' = length (concat buffer')" "taken k' = taken k1 @ take (unat n') (concat buffer')"
      "fd' = (register_write fd)\<lparr>write_count := write_count fd'\<rparr>"
      using less.hyps [OF lt p, of k1] True by blast
    have un: "unat (?n + n') = length ?bs" using n r(2) len W(2) less.prems(2) by (simp add: unat_add_no_wrap)
    show ?thesis
      unfolding eq using True r(1,3,4) un W(2-4) b'(2) r(2) len
      by (intro exI [of _ "?n + n'"]) (auto simp: add.assoc register_write_def)
  qed
qed

lemma fd_write_once: "fd_write writev False buffer sofar fd k = Some (n, fd', k') \<Longrightarrow> fd' = register_write fd"
  by (subst (asm) fd_write.simps) (auto split: prod.splits option.splits if_splits)

text \<open>What \<open>writev\<close> does not touch, \<open>write\<close> does not touch.\<close>

lemma fd_write_keeps:
  assumes "\<And>iov k. view (snd (snd (writev (fd_num fd) iov k))) = view k"
    and "fd_write writev all buffer sofar fd k = Some (n, fd', k')"
  shows "view k' = view k"
  using assms
proof (induction writev all buffer sofar fd k arbitrary: n fd' k' rule: fd_write.induct)
  case (1 writev all buffer sofar fd k)
  obtain rv errno k1 where w: "writev (fd_num fd) (bvl_as_iovecs buffer) k = (rv, errno, k1)" by (metis prod_cases3)
  have k1: "view k1 = view k" using "1.prems"(1) [of "bvl_as_iovecs buffer" k] w by simp
  have num: "fd_num (register_write fd) = fd_num fd" by (simp add: register_write_def)
  obtain m where m: "SystemCall (ucast rv) errno 0 = Some m" "\<not> (m = 0 \<and> bvl_size buffer \<noteq> 0)" "\<not> m > sint (bvl_size buffer)"
    using "1.prems"(2) w by (subst (asm) fd_write.simps) (auto split: option.splits if_splits)
  obtain buffer' where b: "bvl_remove_prefix (of_int m) buffer = Some buffer'"
    using "1.prems"(2) w m by (subst (asm) fd_write.simps) (auto split: option.splits if_splits)
  show ?case
  proof (cases "all \<and> bvl_size buffer' \<noteq> 0")
    case True
    then have "fd_write writev all buffer' (sofar + of_int m) (register_write fd) k1 = Some (n, fd', k')"
      using "1.prems"(2) w m b by (subst (asm) fd_write.simps) auto
    from "1.IH" [OF w [symmetric] refl m(1) m(2,3) b True _ this] "1.prems"(1) num k1 show ?thesis by simp
  next
    case False
    then show ?thesis using "1.prems"(2) w m b k1 by (subst (asm) fd_write.simps) auto
  qed
qed

text \<open>
  What \<open>read\<close> on the descriptor \<open>fd\<close> is documented to do when it succeeds: it returns the number of bytes it has
  put into the buffer, at most as many as were asked for. \<open>given\<close> is everything it has returned.
\<close>

definition reads_through :: "'k sys_read \<Rightarrow> int \<Rightarrow> ('k \<Rightarrow> bytes) \<Rightarrow> bool" where
  "reads_through read fd given \<longleftrightarrow> (\<forall>n k. case read fd n k of (rv, errno, bs, k') \<Rightarrow>
     0 \<le> sint rv \<and> sint rv \<le> uint n \<and> nat (sint rv) \<le> length bs \<and> given k' = given k @ take (nat (sint rv)) bs)"

lemma fd_read_value:
  assumes r: "read (fd_num fd) (min 1048576 limit) k = (rv, errno, bs, k')" and R: "0 \<le> sint rv" "sint rv \<le> uint (min 1048576 limit)"
  shows "fd_read read limit fd k =
    Some (take (nat (sint rv)) bs, register_read (if limit > 0 \<and> sint rv = 0 then fd\<lparr>fd_eof := True\<rparr> else fd), k')"
    and "nat (sint rv) \<le> unat (min 1048576 limit)"
proof -
  have "uint (min 1048576 limit) \<le> 1048576" by (simp add: min_def word_le_def)
  then have "sint (ucast rv :: 32 word) = sint rv" using R by (intro sint_ucast_int) simp_all
  then show "fd_read read limit fd k =
      Some (take (nat (sint rv)) bs, register_read (if limit > 0 \<and> sint rv = 0 then fd\<lparr>fd_eof := True\<rparr> else fd), k')"
    using r R by (simp add: fd_read_def SystemCall_def)
  show "nat (sint rv) \<le> unat (min 1048576 limit)" using nat_mono [OF R(2)] by (simp only: unat_eq_nat_uint)
qed

lemma fd_read_ok:
  assumes "reads_through read (fd_num fd) given"
  shows "\<exists>data fd' k'. fd_read read limit fd k = Some (data, fd', k') \<and> given k' = given k @ data \<and>
    length data \<le> unat (min 1048576 limit) \<and> (fd_eof fd' \<longleftrightarrow> fd_eof fd \<or> limit > 0 \<and> data = []) \<and>
    fd' = fd\<lparr>fd_eof := fd_eof fd', read_count := read_count fd + 1\<rparr> \<and>
    (\<exists>n. k' = snd (snd (snd (read (fd_num fd) n k))))"
proof -
  let ?n = "min 1048576 limit"
  obtain rv errno bs k' where r: "read (fd_num fd) ?n k = (rv, errno, bs, k')" by (metis prod_cases4)
  have R: "0 \<le> sint rv" "sint rv \<le> uint ?n" "nat (sint rv) \<le> length bs" "given k' = given k @ take (nat (sint rv)) bs"
    using assms r by (auto simp: reads_through_def split: prod.splits dest!: spec [of _ ?n] spec [of _ k])
  note f = fd_read_value [where read = read and fd = fd and limit = limit and k = k, OF r R(1,2)]
  let ?fd = "register_read (if limit > 0 \<and> sint rv = 0 then fd\<lparr>fd_eof := True\<rparr> else fd)"
  have l: "length (take (nat (sint rv)) bs) = nat (sint rv)" using R(3) by simp
  have e: "sint rv = 0 \<longleftrightarrow> take (nat (sint rv)) bs = []" using l R(1) by (metis length_0_conv nat_0_iff order_antisym_conv order_refl)
  have eof: "fd_eof ?fd \<longleftrightarrow> fd_eof fd \<or> limit > 0 \<and> take (nat (sint rv)) bs = []"
    using e by (auto simp: register_read_def)
  have fd: "?fd = fd\<lparr>fd_eof := fd_eof ?fd, read_count := read_count fd + 1\<rparr>" by (simp add: register_read_def)
  have "\<exists>n. k' = snd (snd (snd (read (fd_num fd) n k)))" using r by (intro exI [of _ ?n]) simp
  moreover have "length (take (nat (sint rv)) bs) \<le> unat ?n" using f(2) l by (simp only:)
  ultimately show ?thesis
    using f(1) R(4) eof fd by (intro exI [of _ "take (nat (sint rv)) bs"] exI [of _ ?fd] exI [of _ k'] conjI)
qed

text \<open>A call of \<open>writev\<close> that takes everything ends the loop.\<close>

lemma fd_write_whole:
  assumes w: "writev (fd_num fd) buffer k = (of_nat (length (concat buffer)), errno, k')"
    and len: "0 < length (concat buffer)" "length (concat buffer) < 2 ^ 31"
  shows "fd_write writev all buffer sofar fd k = Some (sofar + of_nat (length (concat buffer)), register_write fd, k')"
proof -
  let ?l = "length (concat buffer)" and ?rv = "of_nat (length (concat buffer)) :: 64 word"
  have s: "sint ?rv = int ?l" using len(2) by (simp add: sint_uint signed_take_bit_int_eq_self unsigned_of_nat take_bit_nat_eq_self)
  then have sc: "SystemCall (ucast ?rv) errno 0 = Some (int ?l)"
    using sint_ucast_int [of ?rv] len(2) by (simp add: SystemCall_def)
  have sz: "unat (bvl_size buffer) = ?l" using len(2) by (simp add: bvl_size_eq unat_simps)
  have ssz: "sint (bvl_size buffer) = int ?l"
    using sz len(2) by (simp add: sint_uint signed_take_bit_int_eq_self uint_nat)
  have "length v \<le> ?l" if "v \<in> set buffer" for v using that by (induction buffer) auto
  then have inv: "bvl_inv buffer" using len(2) by (fastforce simp: bvl_inv_def)
  have n: "unat (of_nat ?l :: u64) = ?l" using len(2) by (simp add: unat_of_nat)
  obtain buffer' where b: "bvl_remove_prefix (of_nat ?l) buffer = Some buffer'" "concat buffer' = drop ?l (concat buffer)"
    using bvl.remove_ok [OF inv, of "of_nat ?l"] n by auto
  have "concat buffer' = []" using b(2) by simp
  then have "bvl_size buffer' = 0" by (simp only: bvl_size_eq) (simp add: size64_def)
  with w sc ssz b(1) len(1) show ?thesis by (subst fd_write.simps) simp
qed

text \<open>
  C29. \<open>FileDescriptor::write\<close> writes. On a \<open>writev\<close> that takes some part of a non-empty buffer at each call, the loop
  ends without a throw and returns the number of bytes handed over; these are the first bytes of the buffer,
  in order; with \<open>write_all\<close> they are all of them, and otherwise at least one of a non-empty buffer. Of the
  descriptor only the count of writes changes.
\<close>

theorem fd_write_delivers:
  assumes "writes_through writev (fd_num fd) taken" and "length (concat buffer) < 2 ^ 63"
  shows "\<exists>n fd' k'. fd_write writev write_all buffer 0 fd k = Some (n, fd', k') \<and>
    unat n \<le> length (concat buffer) \<and> taken k' = taken k @ take (unat n) (concat buffer) \<and>
    (write_all \<longrightarrow> unat n = length (concat buffer)) \<and> (concat buffer \<noteq> [] \<longrightarrow> 0 < unat n) \<and>
    fd' = fd\<lparr>write_count := write_count fd'\<rparr>"
  using fd_write_ok [OF assms, of 0 write_all k] assms(2) by simp

theorem fd_write_delivers_witness:
  "\<exists>n fd'. fd_write (\<lambda>fd iov k. let bs = take 2 (concat iov) in (if length bs = 2 then 2 else if length bs = 1 then 1 else 0, 0, k @ bs))
     True [[1, 2, 3], [4, 5]] 0 \<lparr>fd_num = 3, fd_eof = False, fd_closed = False, read_count = 0, write_count = 0\<rparr> [] =
     Some (n, fd', [1, 2, 3, 4, 5])"
proof -
  let ?writev = "\<lambda>(fd :: int) iov (k :: bytes). let bs = take 2 (concat iov)
    in (if length bs = 2 then 2 else if length bs = 1 then 1 else 0 :: 64 word, 0 :: int, k @ bs)"
  let ?fd = "\<lparr>fd_num = 3, fd_eof = False, fd_closed = False, read_count = 0, write_count = 0\<rparr>"
  have "writes_through ?writev (fd_num ?fd) (\<lambda>k. k)"
    unfolding writes_through_def
  proof (intro allI)
    fix iov and k :: bytes
    show "case ?writev (fd_num ?fd) iov k of (rv, errno, k') \<Rightarrow> 0 \<le> sint rv \<and> sint rv < 2 ^ 31 \<and> nat (sint rv) \<le> length (concat iov) \<and>
      (concat iov \<noteq> [] \<longrightarrow> 0 < sint rv) \<and> k' = k @ take (nat (sint rv)) (concat iov)"
    proof (cases "concat iov")
      case (Cons x xs)
      then show ?thesis by (cases xs) (simp_all add: Let_def del: concat_eq_Nil_conv)
    qed (simp add: Let_def del: concat_eq_Nil_conv)
  qed
  from fd_write_delivers [OF this, of "[[1, 2, 3], [4, 5]]" True "[]"] show ?thesis by auto
qed

end
