(* ===== verification/Net_Socket.thy ===== *)
theory Net_Socket
  imports FD_Adapter File_Descriptor Byte_Stream
begin

text \<open>
  The sockets of \<open>libsponge/util/socket.hh\<close> and \<open>socket.cc\<close>, as far as the library uses them, and the
  adapters of \<open>FD_Adapter\<close> on the descriptors they own. System calls are parameters, as in \<open>File_Descriptor\<close>.
  The operations a socket calls on its adapter, the template parameter \<open>AdaptT\<close>, are the fields of a record;
  \<open>'a\<close> is the state of the adapter with its descriptor, \<open>'k\<close> that of the kernel.
\<close>

subsection \<open>Sockets\<close>

type_synonym 'k sys_shutdown = "int \<Rightarrow> int \<Rightarrow> 'k \<Rightarrow> 32 word \<times> int \<times> 'k"
type_synonym 'k sys_recvfrom = "int \<Rightarrow> u64 \<Rightarrow> 'k \<Rightarrow> 64 word \<times> int \<times> bytes \<times> (bytes \<times> u64) \<times> 'k"
type_synonym 'k sys_sendmsg = "int \<Rightarrow> bytes option \<Rightarrow> bytes list \<Rightarrow> 'k \<Rightarrow> 64 word \<times> int \<times> 'k"

definition SHUT_RD :: int where "SHUT_RD = 0"
definition SHUT_WR :: int where "SHUT_WR = 1"
definition SHUT_RDWR :: int where "SHUT_RDWR = 2"

definition socket_shutdown :: "'k sys_shutdown \<Rightarrow> int \<Rightarrow> fd_wrapper \<Rightarrow> 'k \<Rightarrow> (fd_wrapper \<times> 'k) option" where
  "socket_shutdown shutdown how fd k =
     (let (rv, errno, k) = shutdown (fd_num fd) how k
      in do {
        _ \<leftarrow> SystemCall rv errno 0;
        if how = SHUT_RD then Some (register_read fd, k)
        else if how = SHUT_WR then Some (register_write fd, k)
        else if how = SHUT_RDWR then Some (register_write (register_read fd), k)
        else None
      })"

definition udp_recv :: "'k sys_recvfrom \<Rightarrow> u64 \<Rightarrow> fd_wrapper \<Rightarrow> 'k \<Rightarrow> (received_datagram \<times> fd_wrapper \<times> 'k) option" where
  "udp_recv recvfrom mtu fd k =
     (let (rv, errno, bs, (addr, fromlen), k) = recvfrom (fd_num fd) mtu k
      in do {
        recv_len \<leftarrow> SystemCall (ucast rv) errno 0;
        if recv_len > sint mtu then None
        else do {
          a \<leftarrow> address_raw addr fromlen;
          if recv_len < 0 then None
          else Some (\<lparr>source_address = a, rd_payload = take (nat recv_len) bs\<rparr>, register_read fd, k)
        }
      })"

definition sendmsg_helper :: "'k sys_sendmsg \<Rightarrow> int \<Rightarrow> bytes option \<Rightarrow> buffer_view_list \<Rightarrow> 'k \<Rightarrow> 'k option" where
  "sendmsg_helper sendmsg fd destination pl k =
     (let (rv, errno, k) = sendmsg fd destination (bvl_as_iovecs pl) k
      in do {
        bytes_sent \<leftarrow> SystemCall (ucast rv) errno 0;
        if of_int bytes_sent \<noteq> bvl_size pl then None else Some k
      })"

definition udp_sendto :: "'k sys_sendmsg \<Rightarrow> address \<Rightarrow> buffer_view_list \<Rightarrow> fd_wrapper \<Rightarrow> 'k \<Rightarrow> (fd_wrapper \<times> 'k) option" where
  "udp_sendto sendmsg destination pl fd k = map_option (\<lambda>k. (register_write fd, k))
     (sendmsg_helper sendmsg (fd_num fd) (Some (take (unat (addr_size destination)) (addr_storage destination))) pl k)"

definition udp_send :: "'k sys_sendmsg \<Rightarrow> buffer_view_list \<Rightarrow> fd_wrapper \<Rightarrow> 'k \<Rightarrow> (fd_wrapper \<times> 'k) option" where
  "udp_send sendmsg pl fd k = map_option (\<lambda>k. (register_write fd, k)) (sendmsg_helper sendmsg (fd_num fd) None pl k)"

subsection \<open>Adapters with their descriptors\<close>

record ('a, 'k) adapter =
  ops_fd :: "'a \<Rightarrow> fd_wrapper"
  ops_read :: "'a \<Rightarrow> 'k \<Rightarrow> (tcp_segment option \<times> 'a \<times> 'k) option"
  ops_write :: "tcp_segment \<Rightarrow> 'a \<Rightarrow> 'k \<Rightarrow> ('a \<times> 'k) option"
  ops_tick :: "u64 \<Rightarrow> 'a \<Rightarrow> 'k \<Rightarrow> ('a \<times> 'k) option"
  ops_config :: "fd_adapter_config \<Rightarrow> 'a \<Rightarrow> 'a"
  ops_listen :: "bool \<Rightarrow> 'a \<Rightarrow> 'a"

record fd_adapter_on =
  base :: fd_adapter
  device :: fd_wrapper

text \<open>\<open>TCPOverIPv4OverTunFdAdapter\<close>; a read takes as much as the buffer of \<open>read\<close> holds.\<close>

definition tun_adapter :: "'k sys_read \<Rightarrow> 'k sys_writev \<Rightarrow> getaddrinfo \<Rightarrow> getnameinfo \<Rightarrow> (fd_adapter_on, 'k) adapter" where
  "tun_adapter read writev gai gni = \<lparr>
     ops_fd = device,
     ops_read = (\<lambda>a k. do {
       (bs, fd, k) \<leftarrow> fd_read read (- 1) (device a) k;
       (seg, ad) \<leftarrow> tun_read gai gni bs (base a);
       Some (seg, \<lparr>base = ad, device = fd\<rparr>, k)
     }),
     ops_write = (\<lambda>seg a k. do {
       (_, bl) \<leftarrow> tun_write gni seg (base a);
       (_, fd, k) \<leftarrow> fd_write writev True (bvl_of_buffer_list bl) 0 (device a) k;
       Some (a\<lparr>device := fd\<rparr>, k)
     }),
     ops_tick = (\<lambda>ms a k. Some (a, k)),
     ops_config = (\<lambda>cfg a. a\<lparr>base := (base a)\<lparr>ad_cfg := cfg\<rparr>\<rparr>),
     ops_listen = (\<lambda>l a. a\<lparr>base := set_listening l (base a)\<rparr>)\<rparr>"

text \<open>\<open>TCPOverUDPSocketAdapter\<close>.\<close>

definition udp_adapter :: "'k sys_recvfrom \<Rightarrow> 'k sys_sendmsg \<Rightarrow> getnameinfo \<Rightarrow> (fd_adapter_on, 'k) adapter" where
  "udp_adapter recvfrom sendmsg gni = \<lparr>
     ops_fd = device,
     ops_read = (\<lambda>a k. do {
       (datagram, fd, k) \<leftarrow> udp_recv recvfrom 65536 (device a) k;
       (seg, ad) \<leftarrow> udp_read datagram (base a);
       Some (seg, \<lparr>base = ad, device = fd\<rparr>, k)
     }),
     ops_write = (\<lambda>seg a k. do {
       (_, destination, bl) \<leftarrow> udp_write gni seg (base a);
       (fd, k) \<leftarrow> udp_sendto sendmsg destination (bvl_of_buffer_list bl) (device a) k;
       Some (a\<lparr>device := fd\<rparr>, k)
     }),
     ops_tick = (\<lambda>ms a k. Some (a, k)),
     ops_config = (\<lambda>cfg a. a\<lparr>base := (base a)\<lparr>ad_cfg := cfg\<rparr>\<rparr>),
     ops_listen = (\<lambda>l a. a\<lparr>base := set_listening l (base a)\<rparr>)\<rparr>"

text \<open>\<open>LossyFdAdapter\<close> of any adapter.\<close>

definition lossy_adapter :: "('g \<Rightarrow> u32 \<times> 'g) \<Rightarrow> ('a \<Rightarrow> fd_adapter_config) \<Rightarrow> ('a, 'k) adapter \<Rightarrow> ('a \<times> 'g, 'k) adapter" where
  "lossy_adapter rand config ops = \<lparr>
     ops_fd = (\<lambda>(a, g). ops_fd ops a),
     ops_read = (\<lambda>(a, g) k. do {
       (ret, a, k) \<leftarrow> ops_read ops a k;
       let (dropped, g) = should_drop rand False (config a) g;
       Some (if dropped then None else ret, (a, g), k)
     }),
     ops_write = (\<lambda>seg (a, g) k.
       let (dropped, g) = should_drop rand True (config a) g
       in if dropped then Some ((a, g), k)
          else map_option (\<lambda>(a, k). ((a, g), k)) (ops_write ops seg a k)),
     ops_tick = (\<lambda>ms (a, g) k. map_option (\<lambda>(a, k). ((a, g), k)) (ops_tick ops ms a k)),
     ops_config = (\<lambda>cfg (a, g). (ops_config ops cfg a, g)),
     ops_listen = (\<lambda>l (a, g). (ops_listen ops l a, g))\<rparr>"

subsection \<open>Between a stream and a descriptor\<close>

text \<open>Reading as much as a stream has room for, and writing the next bytes of a stream as far as they are taken.\<close>

lemma read_into_stream:
  assumes r: "reads_through read (fd_num fd) given" and s: "bs_inv s"
  shows "\<exists>data fd' k'. fd_read read (remaining_capacity s) fd k = Some (data, fd', k') \<and> given k' = given k @ data \<and>
    bs_view (snd (bs_write data s)) = bs_view s @ data \<and> bs_inv (snd (bs_write data s)) \<and>
    (fd_eof fd' \<longleftrightarrow> fd_eof fd \<or> 0 < remaining_capacity s \<and> data = []) \<and>
    fd' = fd\<lparr>fd_eof := fd_eof fd', read_count := read_count fd + 1\<rparr> \<and>
    (\<exists>n. k' = snd (snd (snd (read (fd_num fd) n k))))"
proof -
  obtain data fd' k' where d: "fd_read read (remaining_capacity s) fd k = Some (data, fd', k')" "given k' = given k @ data"
    "length data \<le> unat (min 1048576 (remaining_capacity s))" "fd_eof fd' \<longleftrightarrow> fd_eof fd \<or> remaining_capacity s > 0 \<and> data = []"
    "fd' = fd\<lparr>fd_eof := fd_eof fd', read_count := read_count fd + 1\<rparr>" "\<exists>n. k' = snd (snd (snd (read (fd_num fd) n k)))"
    using fd_read_ok [OF r, of "remaining_capacity s" k] by blast
  have len: "length data \<le> 1048576" "length data \<le> bs_cap s - unat (cur_size s)"
    using d(3) bs_invD(6) [OF s] by (auto simp: min_def word_le_nat_alt split: if_splits)
  then have "length data < 2 ^ 64" by simp
  from bs_view_write [OF s this] bs_inv_write [OF s this] len(2) d show ?thesis by auto
qed

lemma write_from_stream:
  assumes w: "writes_through writev (fd_num fd) taken" and s: "bs_inv s" "0 < bs_cap s"
  shows "\<exists>n k' s'. fd_write writev False (bvl_of_string (peek_output (min 65536 (buffer_size s)) s)) 0 fd k = Some (n, register_write fd, k') \<and>
    pop_output n s = Some s' \<and> bs_inv s' \<and> unat n \<le> length (bs_view s) \<and> taken k' = taken k @ take (unat n) (bs_view s) \<and>
    bs_view s' = drop (unat n) (bs_view s) \<and> max_capacity s' = max_capacity s \<and> done_writing s' = done_writing s \<and>
    stream_error s' = stream_error s \<and> (bs_view s \<noteq> [] \<longrightarrow> 0 < unat n)"
proof -
  let ?m = "min 65536 (buffer_size s)"
  define buffer where "buffer = take (unat ?m) (bs_view s)"
  have peek: "peek_output ?m s = buffer" using peek_output_view [OF s(1)] by (simp add: buffer_def)
  have m: "unat ?m \<le> 65536" "unat ?m \<le> unat (cur_size s)" "unat (cur_size s) \<noteq> 0 \<longrightarrow> unat ?m \<noteq> 0"
    by (simp_all add: min_def word_le_nat_alt buffer_size_def)
  then have len: "length buffer \<le> 65536" "length buffer = unat ?m" by (simp_all add: buffer_def)
  have cat: "concat (bvl_of_string buffer) = buffer" by (simp add: bvl_of_string_def)
  from fd_write_ok [OF w, of "bvl_of_string buffer" 0 False k] len(1) obtain n fd' k' where
    wr: "fd_write writev False (bvl_of_string buffer) 0 fd k = Some (n, fd', k')"
      "unat n \<le> length buffer" "taken k' = taken k @ take (unat n) buffer" "buffer \<noteq> [] \<longrightarrow> 0 < unat n"
    by (auto simp: cat)
  have n: "unat n \<le> unat (cur_size s)" using wr(2) len(2) m(2) by simp
  obtain s' where s': "pop_output n s = Some s'" "bs_inv s'" "bs_view s' = drop (unat n) (bs_view s)"
    "done_writing s' = done_writing s" "max_capacity s' = max_capacity s" "stream_error s' = stream_error s"
    using pop_output_view [OF s n] by blast
  have "bs_view s \<noteq> [] \<longrightarrow> buffer \<noteq> []" using len(2) m(3) length_bs_view [of s] by (metis length_0_conv)
  moreover have "take (unat n) (bs_view s) = take (unat n) buffer" using wr(2) len(2) by (simp add: buffer_def)
  ultimately show ?thesis using wr fd_write_once [OF wr(1)] s' n peek by auto
qed

end
