(* ===== verification/Event_Loop.thy ===== *)
theory Event_Loop
  imports File_Descriptor "HOL-Library.Sublist"
begin

unbundle bit_operations_syntax

text \<open>
  \<open>EventLoop\<close>, \<open>libsponge/util/eventloop.hh\<close> and \<open>eventloop.cc\<close>. The state \<open>'w\<close> is everything the callbacks
  work on, the descriptors included; a rule shows its descriptor as a function of that state, since the
  wrapper is shared with the owner of the descriptor. Callbacks may throw, and do not change the loop itself.
  The system call \<open>poll\<close> is a parameter: it gives the value returned, \<open>errno\<close> and the field \<open>revents\<close> of each
  entry. Throws, and an index out of the range of \<open>pollfds\<close>, are \<^const>\<open>None\<close>.
\<close>

definition POLLIN :: u16 where "POLLIN = 1"
definition POLLOUT :: u16 where "POLLOUT = 4"
definition POLLERR :: u16 where "POLLERR = 8"
definition POLLHUP :: u16 where "POLLHUP = 16"
definition POLLNVAL :: u16 where "POLLNVAL = 32"
definition EINTR :: int where "EINTR = 4"

lemmas poll_flags = POLLIN_def POLLOUT_def POLLERR_def POLLHUP_def POLLNVAL_def

datatype direction = In | Out

fun direction_events :: "direction \<Rightarrow> u16" where
  "direction_events In = POLLIN"
| "direction_events Out = POLLOUT"

record 'w rule =
  rule_fd :: "'w \<Rightarrow> fd_wrapper"
  rule_direction :: direction
  callback :: "'w \<Rightarrow> 'w option"
  interest :: "'w \<Rightarrow> bool"
  cancel :: "'w \<Rightarrow> 'w option"

datatype loop_result = Success | Timeout | Exit

definition service_count :: "'w rule \<Rightarrow> 'w \<Rightarrow> u32" where
  "service_count r w = (if rule_direction r = In then read_count (rule_fd r w) else write_count (rule_fd r w))"

definition add_rule ::
  "('w \<Rightarrow> fd_wrapper) \<Rightarrow> direction \<Rightarrow> ('w \<Rightarrow> 'w option) \<Rightarrow> ('w \<Rightarrow> bool) \<Rightarrow> ('w \<Rightarrow> 'w option) \<Rightarrow> 'w rule list \<Rightarrow> 'w rule list" where
  "add_rule fd dir cb intr can rules =
     rules @ [\<lparr>rule_fd = fd, rule_direction = dir, callback = cb, interest = intr, cancel = can\<rparr>]"

text \<open>An entry of \<open>pollfds\<close>: descriptor and \<open>events\<close>.\<close>

type_synonym pollfd = "int \<times> u16"
type_synonym 'w sys_poll = "pollfd list \<Rightarrow> int \<Rightarrow> 'w \<Rightarrow> 32 word \<times> int \<times> u16 list \<times> 'w"

text \<open>The first loop: rules that are over are cancelled, the others get an entry.\<close>

fun setup_polls :: "'w rule list \<Rightarrow> 'w \<Rightarrow> ('w rule list \<times> pollfd list \<times> bool \<times> 'w) option" where
  "setup_polls [] w = Some ([], [], False, w)"
| "setup_polls (r # rs) w =
     (if rule_direction r = In \<and> fd_eof (rule_fd r w) then cancel r w \<bind> setup_polls rs
      else if fd_closed (rule_fd r w) then cancel r w \<bind> setup_polls rs
      else do {
        let wanted = interest r w;
        let entry = (fd_num (rule_fd r w), if wanted then direction_events (rule_direction r) else 0);
        (rules, pollfds, something_to_poll, w) \<leftarrow> setup_polls rs w;
        Some (r # rules, entry # pollfds, wanted \<or> something_to_poll, w)
      })"

text \<open>The second loop, over the rules and \<open>events\<close> and \<open>revents\<close> of the entries.\<close>

fun process_polls :: "'w rule list \<Rightarrow> (u16 \<times> u16) list \<Rightarrow> 'w \<Rightarrow> ('w rule list \<times> 'w) option" where
  "process_polls [] ps w = Some ([], w)"
| "process_polls (r # rs) [] w = None"
| "process_polls (r # rs) ((events, revents) # ps) w =
     (if revents AND (POLLERR OR POLLNVAL) \<noteq> 0 then None
      else
        let poll_ready = revents AND events \<noteq> 0;
            poll_hup = revents AND POLLHUP \<noteq> 0
        in if poll_hup \<and> events \<noteq> 0 \<and> \<not> poll_ready then cancel r w \<bind> process_polls rs ps
           else do {
             w \<leftarrow> (if poll_ready
                  then do {
                    let count_before = service_count r w;
                    w \<leftarrow> callback r w;
                    if count_before = service_count r w \<and> interest r w then None else Some w
                  }
                  else Some w);
             (rules, w) \<leftarrow> process_polls rs ps w;
             Some (r # rules, w)
           })"

definition wait_next_event :: "'w sys_poll \<Rightarrow> int \<Rightarrow> 'w rule list \<Rightarrow> 'w \<Rightarrow> (loop_result \<times> 'w rule list \<times> 'w) option" where
  "wait_next_event poll timeout_ms rules w = do {
     (rules, pollfds, something_to_poll, w) \<leftarrow> setup_polls rules w;
     if \<not> something_to_poll then Some (Exit, rules, w)
     else
       let (rv, errno, revents, w) = poll pollfds timeout_ms w
       in if SystemCall rv errno 0 = Some 0 then Some (Timeout, rules, w)
          else if SystemCall rv errno 0 = None \<and> errno = EINTR then Some (Exit, rules, w)
          else do {
            (rules, w) \<leftarrow> process_polls rules (zip (map snd pollfds) revents) w;
            Some (Success, rules, w)
          }
   }"

subsection \<open>The contract of the rules\<close>

lemma subseq_sorted_wrt: "subseq xs ys \<Longrightarrow> sorted_wrt P ys \<Longrightarrow> sorted_wrt P xs \<and> set xs \<subseteq> set ys"
proof (induction xs ys rule: list_emb.induct)
  case (list_emb_Cons2 x y xs ys)
  then show ?case by (simp add: subset_iff)
qed (simp_all add: subset_iff)

text \<open>
  Neither of two rules, the first served before the second, takes away what the other one relies on: the first
  when it is served or cancelled, the second when it is cancelled.
\<close>

definition undisturbed :: "('w \<Rightarrow> bool) \<Rightarrow> ('w rule \<Rightarrow> 'w \<Rightarrow> bool) \<Rightarrow> 'w rule \<Rightarrow> 'w rule \<Rightarrow> bool" where
  "undisturbed I guard r r' \<longleftrightarrow>
     (\<forall>w w'. I w \<longrightarrow> guard r' w \<longrightarrow> guard r w \<and> callback r w = Some w' \<or> cancel r w = Some w' \<longrightarrow> guard r' w') \<and>
     (\<forall>w w'. I w \<longrightarrow> guard r w \<longrightarrow> cancel r' w = Some w' \<longrightarrow> guard r w')"

lemma undisturbedD:
  "undisturbed I guard r r' \<Longrightarrow> I w \<Longrightarrow> guard r' w \<Longrightarrow> guard r w \<and> callback r w = Some w' \<or> cancel r w = Some w' \<Longrightarrow> guard r' w'"
  "undisturbed I guard r r' \<Longrightarrow> I w \<Longrightarrow> guard r w \<Longrightarrow> cancel r' w = Some w' \<Longrightarrow> guard r w'"
  unfolding undisturbed_def by blast+

lemma undisturbedI:
  assumes "\<And>w w'. I w \<Longrightarrow> guard r' w \<Longrightarrow> guard r w \<Longrightarrow> callback r w = Some w' \<Longrightarrow> guard r' w'"
    and "\<And>w w'. guard r' w \<Longrightarrow> cancel r w = Some w' \<Longrightarrow> guard r' w'"
    and "\<And>w w'. guard r w \<Longrightarrow> cancel r' w = Some w' \<Longrightarrow> guard r w'"
  shows "undisturbed I guard r r'"
  using assms unfolding undisturbed_def by blast

text \<open>A rule that is over: nothing will be readable any more, or its descriptor is closed.\<close>

definition over :: "'w rule \<Rightarrow> 'w \<Rightarrow> bool" where
  "over r w \<longleftrightarrow> rule_direction r = In \<and> fd_eof (rule_fd r w) \<or> fd_closed (rule_fd r w)"

text \<open>What \<open>poll\<close> reports: an event that was asked for, or a hangup of a descriptor that was asked about.\<close>

definition reported :: "u16 \<times> u16 \<Rightarrow> bool" where
  "reported p \<longleftrightarrow> snd p AND fst p \<noteq> 0 \<or> snd p AND POLLHUP \<noteq> 0 \<and> fst p \<noteq> 0"

text \<open>A hangup without an event that was asked for, upon which the rule is cancelled.\<close>

definition hung :: "u16 \<times> u16 \<Rightarrow> bool" where
  "hung p \<longleftrightarrow> snd p AND POLLHUP \<noteq> 0 \<and> fst p \<noteq> 0 \<and> snd p AND fst p = 0"

lemma direction_events_inject [simp]: "direction_events d = direction_events d' \<longleftrightarrow> d = d'"
  by (cases d; cases d') (simp_all add: poll_flags)

lemma direction_events_not_0 [simp]: "direction_events d \<noteq> 0"
  by (cases d) (simp_all add: poll_flags)

text \<open>
  A client of the loop: its rules, what holds while the entries are set up (\<open>J\<close>) and while they are served (\<open>I\<close>),
  what a rule relies on from the moment it showed interest until it is served (\<open>guard\<close>), the relation
  between states that its rules implement (\<open>rel\<close>), the progress a served rule makes (\<open>better\<close>), what holds from
  the moment on when a rule is cancelled (\<open>gone\<close>), and when \<open>poll\<close> may report a hangup alone for an entry (\<open>hangs\<close>).
\<close>

definition asked :: "('w \<Rightarrow> bool) \<Rightarrow> 'w rule \<Rightarrow> pollfd \<Rightarrow> bool" where
  "asked J r p \<longleftrightarrow> (\<exists>w. J w \<and> p = (fd_num (rule_fd r w), direction_events (rule_direction r)))"

locale event_client =
  fixes rules :: "'w rule list" and poll :: "'w sys_poll" and J I :: "'w \<Rightarrow> bool"
    and guard :: "'w rule \<Rightarrow> 'w \<Rightarrow> bool" and rel better :: "'w \<Rightarrow> 'w \<Rightarrow> bool"
    and gone :: "'w rule \<Rightarrow> 'w \<Rightarrow> bool" and hangs :: "pollfd \<Rightarrow> 'w \<Rightarrow> bool"
  assumes rel_refl: "rel w w"
    and rel_trans: "rel w w1 \<Longrightarrow> rel w1 w2 \<Longrightarrow> rel w w2"
    and better_rel: "better w w1 \<Longrightarrow> rel w1 w2 \<Longrightarrow> better w w2"
    and rel_better: "rel w w1 \<Longrightarrow> better w1 w2 \<Longrightarrow> better w w2"
    and gone_rel: "r \<in> set rules \<Longrightarrow> gone r w \<Longrightarrow> rel w w' \<Longrightarrow> gone r w'"
    and hangs_rel: "hangs p w \<Longrightarrow> rel w w' \<Longrightarrow> hangs p w'"
    and J_I: "J w \<Longrightarrow> I w"
    and arms: "r \<in> set rules \<Longrightarrow> J w \<Longrightarrow> \<not> over r w \<Longrightarrow> interest r w \<Longrightarrow> guard r w"
    and cancels_early: "r \<in> set rules \<Longrightarrow> J w \<Longrightarrow> over r w \<Longrightarrow> \<exists>w'. cancel r w = Some w' \<and> J w' \<and> rel w w' \<and> gone r w'"
    and serves: "r \<in> set rules \<Longrightarrow> I w \<Longrightarrow> guard r w \<Longrightarrow> \<exists>w'. callback r w = Some w' \<and> I w' \<and> rel w w' \<and> better w w' \<and>
      (interest r w' \<longrightarrow> service_count r w' \<noteq> service_count r w)"
    and cancels: "r \<in> set rules \<Longrightarrow> I w \<Longrightarrow> J w0 \<Longrightarrow>
      hangs (fd_num (rule_fd r w0), direction_events (rule_direction r)) w \<Longrightarrow> \<exists>w'. cancel r w = Some w' \<and> I w' \<and> rel w w' \<and> gone r w'"
    and in_order: "sorted_wrt (undisturbed I guard) rules"
    and polls: "J w \<Longrightarrow> poll ps t w = (rv, errno, revents, w') \<Longrightarrow> length revents = length ps \<and>
      (\<forall>x \<in> set revents. x AND (POLLERR OR POLLNVAL) = 0) \<and>
      (\<forall>p \<in> set (zip ps revents). hung (snd (fst p), snd p) \<longrightarrow> hangs (fst p) w') \<and>
      I w' \<and> rel w w' \<and> (\<forall>r \<in> set rules. guard r w \<longrightarrow> guard r w')"
begin

lemma setup_ok:
  assumes "set rs \<subseteq> set rules" and "sorted_wrt (undisturbed I guard) rs" and "J w"
  shows "\<exists>rs' ps b w'. setup_polls rs w = Some (rs', ps, b, w') \<and> subseq rs' rs \<and> J w' \<and> rel w w' \<and>
    list_all2 (\<lambda>r p. snd p \<noteq> 0 \<longrightarrow> asked J r p \<and> guard r w') rs' ps \<and>
    (b \<longrightarrow> (\<exists>p \<in> set ps. snd p \<noteq> 0)) \<and> (\<forall>r \<in> set rs - set rs'. gone r w') \<and>
    (\<forall>r. (\<forall>r' \<in> set rs. undisturbed I guard r r') \<longrightarrow> guard r w \<longrightarrow> guard r w')"
  using assms
proof (induction rs arbitrary: w)
  case Nil
  then show ?case by (intro exI [of _ "[]"] exI [of _ False] exI [of _ w]) (simp add: rel_refl)
next
  case (Cons r rs)
  have sub: "set rs \<subseteq> set rules" "sorted_wrt (undisturbed I guard) rs" "r \<in> set rules"
    "\<forall>r' \<in> set rs. undisturbed I guard r r'"
    using Cons.prems by auto
  note IH = Cons.IH [OF sub(1,2)]
  show ?case
  proof (cases "over r w")
    case True
    obtain w1 where w1: "cancel r w = Some w1" "J w1" "rel w w1" "gone r w1"
      using cancels_early [OF sub(3) Cons.prems(3) True] by auto
    have g: "guard r0 w1" if "undisturbed I guard r0 r" "guard r0 w" for r0
      using undisturbedD(2) [OF that(1) J_I [OF Cons.prems(3)] that(2) w1(1)] .
    have st: "setup_polls (r # rs) w = setup_polls rs w1" using True w1(1) by (auto simp: over_def)
    obtain rs' ps b w' where n: "setup_polls rs w1 = Some (rs', ps, b, w')" "subseq rs' rs" "J w'" "rel w1 w'"
      "list_all2 (\<lambda>r p. snd p \<noteq> 0 \<longrightarrow> asked J r p \<and> guard r w') rs' ps"
      "b \<longrightarrow> (\<exists>p \<in> set ps. snd p \<noteq> 0)" "\<forall>r \<in> set rs - set rs'. gone r w'"
      "\<forall>r. (\<forall>r' \<in> set rs. undisturbed I guard r r') \<longrightarrow> guard r w1 \<longrightarrow> guard r w'"
      using IH [OF w1(2)] by (elim exE conjE) (rule that)
    have "gone r w'" using gone_rel [OF sub(3) w1(4) n(4)] .
    then have "\<forall>r0 \<in> set (r # rs) - set rs'. gone r0 w'" using n(7) by auto
    moreover have "\<forall>r0. (\<forall>r' \<in> set (r # rs). undisturbed I guard r0 r') \<longrightarrow> guard r0 w \<longrightarrow> guard r0 w'" using n(8) g by simp
    moreover have "subseq rs' (r # rs)" using n(2) by (rule list_emb_Cons)
    ultimately show ?thesis using n(1,3,5,6) rel_trans [OF w1(3) n(4)] unfolding st by blast
  next
    case False
    obtain rs' ps b w' where s: "setup_polls rs w = Some (rs', ps, b, w')" "subseq rs' rs" "J w'" "rel w w'"
      "list_all2 (\<lambda>r p. snd p \<noteq> 0 \<longrightarrow> asked J r p \<and> guard r w') rs' ps"
      "b \<longrightarrow> (\<exists>p \<in> set ps. snd p \<noteq> 0)" "\<forall>r \<in> set rs - set rs'. gone r w'"
      "\<forall>r. (\<forall>r' \<in> set rs. undisturbed I guard r r') \<longrightarrow> guard r w \<longrightarrow> guard r w'"
      using IH [OF Cons.prems(3)] by (elim exE conjE) (rule that)
    have "interest r w \<Longrightarrow> guard r w'" using arms [OF sub(3) Cons.prems(3) False] s(8) sub(4) by blast
    then have "list_all2 (\<lambda>r p. snd p \<noteq> 0 \<longrightarrow> asked J r p \<and> guard r w') (r # rs')
        ((fd_num (rule_fd r w), if interest r w then direction_events (rule_direction r) else 0) # ps)"
      using s(5) Cons.prems(3) by (auto simp: asked_def)
    moreover have "setup_polls (r # rs) w = Some (r # rs', (fd_num (rule_fd r w), if interest r w then direction_events (rule_direction r) else 0) # ps,
        interest r w \<or> b, w')"
      using False s(1) by (auto simp: Let_def over_def)
    ultimately show ?thesis using s(2-4,6-8) sub(4) by (intro exI conjI) (assumption | auto)+
  qed
qed

lemma process_ok:
  assumes "set rs \<subseteq> set rules" and "sorted_wrt (undisturbed I guard) rs" and "I w"
    and "list_all2 (\<lambda>r p. fst p \<noteq> 0 \<longrightarrow> (hung p \<longrightarrow> (\<exists>q. asked J r q \<and> hangs q w)) \<and> guard r w) rs ps"
    and "\<forall>p \<in> set ps. snd p AND (POLLERR OR POLLNVAL) = 0"
  shows "\<exists>rs' w'. process_polls rs ps w = Some (rs', w') \<and> subseq rs' rs \<and> I w' \<and> rel w w' \<and> (\<forall>r \<in> set rs - set rs'. gone r w') \<and>
    ((\<exists>p \<in> set ps. reported p) \<longrightarrow> better w w' \<or> length rs' < length rs)"
  using assms
proof (induction rs arbitrary: ps w)
  case Nil
  then show ?case by (simp add: rel_refl)
next
  case (Cons r rs)
  obtain ev rev ps' where ps: "ps = (ev, rev) # ps'" using Cons.prems(4) by (cases ps) auto
  have r: "r \<in> set rules" "set rs \<subseteq> set rules" "sorted_wrt (undisturbed I guard) rs"
    "\<forall>r' \<in> set rs. undisturbed I guard r r'" "rev AND (POLLERR OR POLLNVAL) = 0"
    using Cons.prems(1,2,5) ps by auto
  have next_ok: "\<exists>rs' w'. process_polls rs ps' w1 = Some (rs', w') \<and> subseq rs' rs \<and> I w' \<and> rel w1 w' \<and>
      (\<forall>r \<in> set rs - set rs'. gone r w') \<and> ((\<exists>p \<in> set ps'. reported p) \<longrightarrow> better w1 w' \<or> length rs' < length rs)"
    if "I w1" and "rel w w1" and "w1 = w \<or> guard r w \<and> callback r w = Some w1 \<or> cancel r w = Some w1" for w1
  proof (rule Cons.IH [OF r(2,3) that(1)])
    have "list_all2 (\<lambda>r p. fst p \<noteq> 0 \<longrightarrow> (hung p \<longrightarrow> (\<exists>q. asked J r q \<and> hangs q w)) \<and> guard r w) rs ps'" using Cons.prems(4) ps by simp
    then show "list_all2 (\<lambda>r p. fst p \<noteq> 0 \<longrightarrow> (hung p \<longrightarrow> (\<exists>q. asked J r q \<and> hangs q w1)) \<and> guard r w1) rs ps'"
      by (rule list.rel_mono_strong) (use that(2,3) hangs_rel undisturbedD(1) [where I = I and guard = guard, OF _ Cons.prems(3)] r(4) in blast)
  qed (use Cons.prems(5) ps in auto)
  consider (hup) "rev AND POLLHUP \<noteq> 0 \<and> ev \<noteq> 0 \<and> rev AND ev = 0"
    | (ready) "rev AND ev \<noteq> 0" | (idle) "rev AND ev = 0" "\<not> (rev AND POLLHUP \<noteq> 0 \<and> ev \<noteq> 0)" by blast
  then show ?case
  proof cases
    case hup
    then obtain w0 where w0: "J w0" "hangs (fd_num (rule_fd r w0), direction_events (rule_direction r)) w"
      using Cons.prems(4) ps by (auto simp: asked_def hung_def)
    obtain w1 where w1: "cancel r w = Some w1" "I w1" "rel w w1" "gone r w1" using cancels [OF r(1) Cons.prems(3) w0] by auto
    obtain rs' w' where n: "process_polls rs ps' w1 = Some (rs', w')" "subseq rs' rs" "I w'" "rel w1 w'" "\<forall>r \<in> set rs - set rs'. gone r w'"
      using next_ok [OF w1(2,3)] w1(1) by blast
    have "process_polls (r # rs) ps w = Some (rs', w')" using hup r(5) ps w1(1) n(1) by (simp add: Let_def)
    moreover have "length rs' < length (r # rs)" using list_emb_length [OF n(2)] by simp
    ultimately show ?thesis using n(2,3,5) rel_trans [OF w1(3) n(4)] gone_rel [OF r(1) w1(4) n(4)]
      by (intro exI [of _ rs'] exI [of _ w']) auto
  next
    case ready
    then have "ev \<noteq> 0" by auto
    then have g: "guard r w" using Cons.prems(4) ps by simp
    then obtain w1 where w1: "callback r w = Some w1" "I w1" "rel w w1" "better w w1"
      "interest r w1 \<longrightarrow> service_count r w1 \<noteq> service_count r w"
      using serves [OF r(1) Cons.prems(3)] by blast
    obtain rs' w' where n: "process_polls rs ps' w1 = Some (rs', w')" "subseq rs' rs" "I w'" "rel w1 w'" "\<forall>r \<in> set rs - set rs'. gone r w'"
      using next_ok [OF w1(2,3)] w1(1) g by blast
    have "process_polls (r # rs) ps w = Some (r # rs', w')" using ready r(5) ps w1(1,5) n(1) by (auto simp: Let_def)
    moreover have "subseq (r # rs') (r # rs)" using n(2) by simp
    ultimately show ?thesis using n(3,5) rel_trans [OF w1(3) n(4)] better_rel [OF w1(4) n(4)]
      by (intro exI [of _ "r # rs'"] exI [of _ w']) auto
  next
    case idle
    obtain rs' w' where n: "process_polls rs ps' w = Some (rs', w')" "subseq rs' rs" "I w'" "rel w w'" "\<forall>r \<in> set rs - set rs'. gone r w'"
      "(\<exists>p \<in> set ps'. reported p) \<longrightarrow> better w w' \<or> length rs' < length rs"
      using next_ok [OF Cons.prems(3) rel_refl] by blast
    have "process_polls (r # rs) ps w = Some (r # rs', w')" using idle r(5) ps n(1) by (auto simp: Let_def)
    moreover have "\<not> reported (ev, rev)" using idle by (simp add: reported_def)
    moreover have "subseq (r # rs') (r # rs)" using n(2) by simp
    ultimately show ?thesis using n(3-6) ps by (intro exI [of _ "r # rs'"] exI [of _ w']) auto
  qed
qed

text \<open>
  A pass does not throw, keeps the invariant and relates the states. If \<open>poll\<close> waits until it has something to
  report, the pass serves or removes a rule, unless there is nothing to wait for.
\<close>

theorem wait_ok:
  assumes "subseq rs rules" and "J w"
  shows "\<exists>res rs' w'. wait_next_event poll t rs w = Some (res, rs', w') \<and> subseq rs' rs \<and> I w' \<and> rel w w' \<and>
    (\<forall>r \<in> set rs - set rs'. gone r w') \<and>
    ((\<forall>ps w rv errno revents w'. poll ps t w = (rv, errno, revents, w') \<longrightarrow> (\<exists>p \<in> set ps. snd p \<in> range direction_events) \<longrightarrow>
        0 < sint rv \<and> (\<exists>p \<in> set (zip (map snd ps) revents). reported p)) \<longrightarrow>
     res = Exit \<or> better w w' \<or> length rs' < length rs)"
    (is "\<exists>res rs' w'. ?P res rs' w'")
proof -
  have sorted: "sorted_wrt (undisturbed I guard) xs \<and> set xs \<subseteq> set rules" if "subseq xs rules" for xs
    using subseq_sorted_wrt [OF that in_order] .
  obtain rs1 ps b w1 where s: "setup_polls rs w = Some (rs1, ps, b, w1)" "subseq rs1 rs" "J w1" "rel w w1"
    "list_all2 (\<lambda>r p. snd p \<noteq> 0 \<longrightarrow> asked J r p \<and> guard r w1) rs1 ps"
    "b \<longrightarrow> (\<exists>p \<in> set ps. snd p \<noteq> 0)" "\<forall>r \<in> set rs - set rs1. gone r w1"
    using setup_ok [of rs w] sorted [OF assms(1)] assms(2) by blast
  have asks: "\<exists>p \<in> set ps. snd p \<in> range direction_events" if b
  proof -
    obtain i where i: "i < length ps" "snd (ps ! i) \<noteq> 0" using s(6) \<open>b\<close> by (metis in_set_conv_nth)
    then have "snd (ps ! i) \<in> range direction_events" using list_all2_nthD2 [OF s(5) i(1)] by (auto simp: asked_def)
    then show ?thesis using i(1) nth_mem by blast
  qed
  have sub1: "subseq rs1 rules" using s(2) assms(1) by (rule subseq_order.order_trans)
  obtain rv errno revents w2 where p: "poll ps t w1 = (rv, errno, revents, w2)" by (metis prod_cases4)
  note P = polls [OF s(3) p]
  have in_rules: "set rs \<subseteq> set rules" using sorted [OF assms(1)] by blast
  have g2: "\<forall>r \<in> set rs - set rs1. gone r w2" using s(7) P in_rules gone_rel by blast
  have "list_all2 (\<lambda>r p. fst p \<noteq> 0 \<longrightarrow> (hung p \<longrightarrow> (\<exists>q. asked J r q \<and> hangs q w2)) \<and> guard r w2) rs1 (zip (map snd ps) revents)"
    unfolding list_all2_conv_all_nth
  proof (intro conjI allI impI)
    show l: "length rs1 = length (zip (map snd ps) revents)" using list_all2_lengthD [OF s(5)] P by simp
    fix i assume i: "i < length rs1" "fst (zip (map snd ps) revents ! i) \<noteq> 0"
    have g: "asked J (rs1 ! i) (ps ! i) \<and> guard (rs1 ! i) w1" using list_all2_nthD [OF s(5) i(1)] i l by simp
    moreover have "rs1 ! i \<in> set rules" using sorted [OF sub1] i(1) nth_mem by blast
    ultimately show "guard (rs1 ! i) w2" using P by blast
    have "(ps ! i, revents ! i) \<in> set (zip ps revents)" using i(1) l by (auto simp: in_set_zip)
    then show "\<exists>q. asked J (rs1 ! i) q \<and> hangs q w2" if "hung (zip (map snd ps) revents ! i)"
      using that g P i l by (intro exI [of _ "ps ! i"]) auto
  qed
  moreover have "\<forall>q \<in> set (zip (map snd ps) revents). snd q AND (POLLERR OR POLLNVAL) = 0"
    using P by (auto dest: set_zip_rightD)
  moreover have "I w2" using P by blast
  ultimately have "\<exists>rs' w'. process_polls rs1 (zip (map snd ps) revents) w2 = Some (rs', w') \<and> subseq rs' rs1 \<and> I w' \<and> rel w2 w' \<and>
      (\<forall>r \<in> set rs1 - set rs'. gone r w') \<and> ((\<exists>p \<in> set (zip (map snd ps) revents). reported p) \<longrightarrow> better w2 w' \<or> length rs' < length rs1)"
    using sorted [OF sub1] by (intro process_ok) blast+
  then obtain rs2 w3 where q: "process_polls rs1 (zip (map snd ps) revents) w2 = Some (rs2, w3)"
    "subseq rs2 rs1" "I w3" "rel w2 w3" "\<forall>r \<in> set rs1 - set rs2. gone r w3"
    "(\<exists>p \<in> set (zip (map snd ps) revents). reported p) \<longrightarrow> better w2 w3 \<or> length rs2 < length rs1"
    by (elim exE conjE) (rule that)
  have sub2: "subseq rs2 rs" using q(2) s(2) by (rule subseq_order.order_trans)
  have rel: "rel w w2" "rel w w3" using rel_trans s(4) P q(4) by blast+
  have "\<forall>r \<in> set rs - set rs2. gone r w3" using g2 q(4,5) in_rules gone_rel by blast
  moreover have "better w w3 \<or> length rs2 < length rs" if "better w2 w3 \<or> length rs2 < length rs1"
    using that rel_better [OF rel(1)] list_emb_length [OF s(2)] by auto
  ultimately have success: "?P Success rs2 w3" if "wait_next_event poll t rs w = Some (Success, rs2, w3)" "b"
    using that q(3,6) rel(2) sub2 p asks by blast
  consider "\<not> b" "wait_next_event poll t rs w = Some (Exit, rs1, w1)"
    | "b" "wait_next_event poll t rs w = Some (Exit, rs1, w2)"
    | "b" "sint rv = 0" "wait_next_event poll t rs w = Some (Timeout, rs1, w2)"
    | "b" "wait_next_event poll t rs w = Some (Success, rs2, w3)"
  proof -
    have "SystemCall rv errno 0 = Some 0 \<Longrightarrow> sint rv = 0" by (simp add: SystemCall_def split: if_splits)
    moreover have "wait_next_event poll t rs w = (if \<not> b then Some (Exit, rs1, w1) else if SystemCall rv errno 0 = Some 0 then Some (Timeout, rs1, w2)
        else if SystemCall rv errno 0 = None \<and> errno = EINTR then Some (Exit, rs1, w2) else Some (Success, rs2, w3))"
      using s(1) p q(1) by (cases "SystemCall rv errno 0") (simp_all add: wait_next_event_def)
    ultimately show thesis using that by metis
  qed
  then show ?thesis
  proof cases
    case 3
    then have "?P Timeout rs1 w2" using s(2) asks P rel(1) g2 p by fastforce
    then show ?thesis by blast
  qed (use s(2,3,4,7) J_I P rel g2 success in blast)+
qed

end

text \<open>
  If no rule is interested when its entry is set up, and the cancellation of a later rule does not interest an earlier
  one, then none is interested in the end.
\<close>

lemma setup_uninterested:
  fixes rs :: "'w rule list"
  assumes "setup_polls rs w = Some (rs', ps, False, w')"
    and "sorted_wrt (\<lambda>r r'. \<forall>w w'. cancel r' w = Some w' \<longrightarrow> interest r w' \<longrightarrow> interest r w) rs"
  shows "\<forall>r \<in> set rs'. \<not> interest r w'"
proof -
  have "(\<forall>r \<in> set rs'. \<not> interest r w') \<and>
      (\<forall>r :: 'w rule. (\<forall>r' \<in> set rs. \<forall>w w'. cancel r' w = Some w' \<longrightarrow> interest r w' \<longrightarrow> interest r w) \<longrightarrow> interest r w' \<longrightarrow> interest r w)"
    using assms
  proof (induction rs arbitrary: w rs' ps)
    case (Cons r rs)
    show ?case
    proof (cases "over r w")
      case True
      then obtain w1 where "cancel r w = Some w1" "setup_polls rs w1 = Some (rs', ps, False, w')"
        using Cons.prems(1) by (auto simp: over_def bind_eq_Some_conv split: if_splits)
      with Cons.IH [OF this(2)] Cons.prems(2) show ?thesis by (auto 4 3)
    next
      case False
      then obtain rs1 ps1 where "setup_polls rs w = Some (rs1, ps1, False, w')" "\<not> interest r w" "rs' = r # rs1"
        using Cons.prems(1) by (auto simp: over_def bind_eq_Some_conv Let_def split: if_splits)
      moreover have "\<forall>r' \<in> set rs. \<forall>w w'. cancel r' w = Some w' \<longrightarrow> interest r w' \<longrightarrow> interest r w"
        "sorted_wrt (\<lambda>r r'. \<forall>w w'. cancel r' w = Some w' \<longrightarrow> interest r w' \<longrightarrow> interest r w) rs"
        using Cons.prems(2) by auto
      moreover note Cons.IH [OF calculation(1,5)]
      moreover have "\<not> interest r w'" using calculation(2,4,6) by blast
      ultimately show ?thesis by simp
    qed
  qed simp
  then show ?thesis by blast
qed

text \<open>A loop that exits without an interrupted \<open>poll\<close> has found no rule that is interested.\<close>

lemma wait_exit:
  assumes "\<And>ps t w. 0 \<le> sint (fst (poll ps t w))" and "wait_next_event poll t rules w = Some (Exit, rules', w')"
  shows "\<exists>ps. setup_polls rules w = Some (rules', ps, False, w')"
proof -
  obtain rs ps b v where s: "setup_polls rules w = Some (rs, ps, b, v)"
    using assms(2) by (auto simp: wait_next_event_def bind_eq_Some_conv)
  obtain rv errno revents v' where p: "poll ps t v = (rv, errno, revents, v')" by (metis prod_cases4)
  have "SystemCall rv errno 0 \<noteq> None" using assms(1) [of ps t v] p by (simp add: SystemCall_def)
  then have "\<not> b" using assms(2) s p by (auto simp: wait_next_event_def bind_eq_Some_conv split: if_splits)
  then show ?thesis using assms(2) s by (simp add: wait_next_event_def)
qed

subsection \<open>A failing \<open>poll\<close>\<close>

lemma setup_polls_length: "setup_polls rules w = Some (rules', ps, b, w') \<Longrightarrow> length ps = length rules'"
  by (induction rules arbitrary: w rules' ps b w') (auto simp: bind_eq_Some_conv Let_def split: if_splits)

lemma process_polls_idle:
  assumes "length rules = length es"
  shows "process_polls rules (zip es (replicate (length es) 0)) w = Some (rules, w)"
  using assms by (induction rules es rule: list_induct2) simp_all

text \<open>
  C40. A failing \<open>poll\<close> goes unnoticed. If \<open>poll\<close> fails with an error other than \<open>EINTR\<close>, which leaves the fields \<open>revents\<close>
  zero, \<open>wait_next_event\<close> neither throws nor reports it: it returns \<open>Success\<close> and no rule has been served.
\<close>

theorem poll_error_swallowed:
  assumes su: "setup_polls rules w = Some (rules', ps, True, w1)"
    and poll: "poll ps timeout_ms w1 = (rv, errno, replicate (length ps) 0, w2)" "sint rv < 0" "errno \<noteq> 0" "errno \<noteq> EINTR"
  shows "wait_next_event poll timeout_ms rules w = Some (Success, rules', w2)"
proof -
  have "process_polls rules' (zip (map snd ps) (replicate (length ps) 0)) w2 = Some (rules', w2)"
    using process_polls_idle [of rules' "map snd ps" w2] setup_polls_length [OF su] by simp
  then show ?thesis using assms by (simp add: wait_next_event_def SystemCall_def)
qed

theorem poll_error_swallowed_witness:
  "wait_next_event (\<lambda>ps t w. (- 1, 22, replicate (length ps) 0, w)) 10
     (add_rule (\<lambda>w. \<lparr>fd_num = 0, fd_eof = False, fd_closed = False, read_count = 0, write_count = 0\<rparr>) In (\<lambda>w. None) (\<lambda>w. True) Some []) () =
   Some (Success, add_rule (\<lambda>w. \<lparr>fd_num = 0, fd_eof = False, fd_closed = False, read_count = 0, write_count = 0\<rparr>) In (\<lambda>w. None) (\<lambda>w. True) Some [], ())"
  by (rule poll_error_swallowed [where ps = "[(0, POLLIN)]" and ?w1.0 = "()" and rv = "- 1" and errno = 22]) (simp_all add: add_rule_def EINTR_def Let_def)

end
