(* ===== verification/Sponge_Socket.thy ===== *)
theory Sponge_Socket
  imports TCP_Lifecycle TCP_Network Net_Socket Event_Loop
begin

text \<open>
  \<open>TCPSpongeSocket\<close>, \<open>libsponge/tcp_helpers/tcp_sponge_socket.hh\<close> and \<open>tcp_sponge_socket.cc\<close>: the thread that
  moves bytes between the socket of its owner (\<open>_thread_data\<close>), a TCP connection and an adapter. The state \<open>'k\<close>
  is what lies outside of that thread: the kernel, the clock and the owner with its flag \<open>_abort\<close>. The calls
  \<open>_tcp->\<close> on an empty \<open>optional\<close>, like throws, are \<^const>\<open>None\<close>; a loop that runs forever is \<^const>\<open>None\<close> one level
  further out. Output to \<open>cerr\<close> is left out.
\<close>

record 'k kernel_calls =
  sys_read :: "'k sys_read"
  sys_writev :: "'k sys_writev"
  sys_shutdown :: "'k sys_shutdown"
  sys_poll :: "pollfd list \<Rightarrow> int \<Rightarrow> 'k \<Rightarrow> 32 word \<times> int \<times> u16 list \<times> 'k"
  timestamp_ms :: "'k \<Rightarrow> u64 \<times> 'k"
  abort_flag :: "'k \<Rightarrow> bool"

record ('a, 'k) sponge_socket =
  socket_fd :: fd_wrapper
  thread_data :: fd_wrapper
  datagram_adapter :: 'a
  tcp :: "tcp_connection option"
  inbound_shutdown :: bool
  outbound_shutdown :: bool
  fully_acked :: bool
  kernel :: 'k

text \<open>
  Construction: a pair of connected sockets, one for the owner and one, which does not block, for the thread.
\<close>

type_synonym 'k sys_socketpair = "int \<Rightarrow> 'k \<Rightarrow> 32 word \<times> int \<times> int \<times> int \<times> 'k"

definition socket_pair_helper :: "'k sys_socketpair \<Rightarrow> int \<Rightarrow> 'k \<Rightarrow> ((fd_wrapper \<times> fd_wrapper) \<times> 'k) option" where
  "socket_pair_helper socketpair type k =
     (let (rv, errno, fd0, fd1, k) = socketpair type k
      in do {
        _ \<leftarrow> SystemCall rv errno 0;
        first \<leftarrow> fd_new fd0;
        second \<leftarrow> fd_new fd1;
        Some ((first, second), k)
      })"

definition socket_new :: "'k sys_fcntl \<Rightarrow> fd_wrapper \<times> fd_wrapper \<Rightarrow> 'a \<Rightarrow> 'k \<Rightarrow> ('a, 'k) sponge_socket option" where
  "socket_new fcntl data_socket_pair datagram_interface k = do {
     k \<leftarrow> set_blocking fcntl False (snd data_socket_pair) k;
     Some \<lparr>socket_fd = fst data_socket_pair, thread_data = snd data_socket_pair, datagram_adapter = datagram_interface,
       tcp = None, inbound_shutdown = False, outbound_shutdown = False, fully_acked = False, kernel = k\<rparr>
   }"

definition SOCK_STREAM :: int where "SOCK_STREAM = 1"

definition sponge_socket_new :: "'k sys_socketpair \<Rightarrow> 'k sys_fcntl \<Rightarrow> 'a \<Rightarrow> 'k \<Rightarrow> ('a, 'k) sponge_socket option" where
  "sponge_socket_new socketpair fcntl datagram_interface k = do {
     (data_socket_pair, k) \<leftarrow> socket_pair_helper socketpair SOCK_STREAM k;
     socket_new fcntl data_socket_pair datagram_interface k
   }"

subsection \<open>The four rules\<close>

definition tcp_interest :: "(tcp_connection \<Rightarrow> bool) \<Rightarrow> ('a, 'k) sponge_socket \<Rightarrow> bool" where
  "tcp_interest P w = (case tcp w of None \<Rightarrow> False | Some c \<Rightarrow> P c)"

text \<open>Rule 1: from the adapter into the connection.\<close>

definition receive_callback :: "('a, 'k) adapter \<Rightarrow> ('a, 'k) sponge_socket \<Rightarrow> ('a, 'k) sponge_socket option" where
  "receive_callback ops w = do {
     (seg, a, k) \<leftarrow> ops_read ops (datagram_adapter w) (kernel w);
     c \<leftarrow> tcp w;
     c \<leftarrow> (case seg of None \<Rightarrow> Some c | Some seg \<Rightarrow> conn_segment_received seg c);
     Some (w\<lparr>datagram_adapter := a, kernel := k, tcp := Some c,
       fully_acked := fully_acked w \<or> fd_eof (thread_data w) \<and> conn_bytes_in_flight c = 0\<rparr>)
   }"

text \<open>Rule 2: from the owner into the connection.\<close>

definition finish_outbound :: "('a, 'k) sponge_socket \<Rightarrow> ('a, 'k) sponge_socket option" where
  "finish_outbound w = do {
     c \<leftarrow> tcp w;
     c \<leftarrow> end_input_stream c;
     Some (w\<lparr>tcp := Some c, outbound_shutdown := True\<rparr>)
   }"

definition outbound_callback :: "'k kernel_calls \<Rightarrow> ('a, 'k) sponge_socket \<Rightarrow> ('a, 'k) sponge_socket option" where
  "outbound_callback K w = do {
     c \<leftarrow> tcp w;
     (data, fd, k) \<leftarrow> fd_read (sys_read K) (remaining_outbound_capacity c) (thread_data w) (kernel w);
     (amount_written, c) \<leftarrow> conn_write data c;
     if amount_written \<noteq> size64 data then None
     else
       let w = w\<lparr>thread_data := fd, kernel := k, tcp := Some c\<rparr>
       in if fd_eof fd then finish_outbound w else Some w
   }"

definition outbound_interest :: "('a, 'k) sponge_socket \<Rightarrow> bool" where
  "outbound_interest w = tcp_interest (\<lambda>c. active c \<and> \<not> outbound_shutdown w \<and> remaining_outbound_capacity c > 0) w"

text \<open>Rule 3: from the connection to the owner.\<close>

definition set_inbound :: "byte_stream \<Rightarrow> tcp_connection \<Rightarrow> tcp_connection" where
  "set_inbound out c = c\<lparr>receiver := (receiver c)\<lparr>rcv_reassembler := (rcv_reassembler (receiver c))\<lparr>ra_output := out\<rparr>\<rparr>\<rparr>"

definition inbound_callback :: "'k kernel_calls \<Rightarrow> ('a, 'k) sponge_socket \<Rightarrow> ('a, 'k) sponge_socket option" where
  "inbound_callback K w = do {
     c \<leftarrow> tcp w;
     let inbound = rcv_stream_out (receiver c);
     let amount_to_write = min 65536 (buffer_size inbound);
     let buffer = peek_output amount_to_write inbound;
     (bytes_written, fd, k) \<leftarrow> fd_write (sys_writev K) False (bvl_of_string buffer) 0 (thread_data w) (kernel w);
     inbound \<leftarrow> pop_output bytes_written inbound;
     let w = w\<lparr>thread_data := fd, kernel := k, tcp := Some (set_inbound inbound c)\<rparr>;
     if bs_eof inbound \<or> bs_error inbound
     then do {
       (fd, k) \<leftarrow> socket_shutdown (sys_shutdown K) SHUT_WR fd k;
       Some (w\<lparr>thread_data := fd, kernel := k, inbound_shutdown := True\<rparr>)
     }
     else Some w
   }"

definition inbound_interest :: "('a, 'k) sponge_socket \<Rightarrow> bool" where
  "inbound_interest w = tcp_interest (\<lambda>c. let inbound = rcv_stream_out (receiver c) in
     \<not> buffer_empty inbound \<or> (bs_eof inbound \<or> bs_error inbound) \<and> \<not> inbound_shutdown w) w"

text \<open>Rule 4: from the connection to the adapter.\<close>

fun write_segments :: "('a, 'k) adapter \<Rightarrow> tcp_segment list \<Rightarrow> 'a \<Rightarrow> 'k \<Rightarrow> ('a \<times> 'k) option" where
  "write_segments ops [] a k = Some (a, k)"
| "write_segments ops (seg # segs) a k = do {
     (a, k) \<leftarrow> ops_write ops seg a k;
     write_segments ops segs a k
   }"

definition send_callback :: "('a, 'k) adapter \<Rightarrow> ('a, 'k) sponge_socket \<Rightarrow> ('a, 'k) sponge_socket option" where
  "send_callback ops w = do {
     c \<leftarrow> tcp w;
     (a, k) \<leftarrow> write_segments ops (conn_segments_out c) (datagram_adapter w) (kernel w);
     Some (w\<lparr>datagram_adapter := a, kernel := k, tcp := Some (c\<lparr>conn_segments_out := []\<rparr>)\<rparr>)
   }"

definition initialize_TCP :: "'k kernel_calls \<Rightarrow> ('a, 'k) adapter \<Rightarrow> tcp_config \<Rightarrow> u32 \<Rightarrow>
    ('a, 'k) sponge_socket rule list \<times> ('a, 'k) sponge_socket \<Rightarrow> ('a, 'k) sponge_socket rule list \<times> ('a, 'k) sponge_socket" where
  "initialize_TCP K ops config random = (\<lambda>(rules, w).
     let adapter_fd = (\<lambda>w. ops_fd ops (datagram_adapter w));
         rules = add_rule adapter_fd In (receive_callback ops) (tcp_interest active) Some rules;
         rules = add_rule thread_data In (outbound_callback K) outbound_interest finish_outbound rules;
         rules = add_rule thread_data Out (inbound_callback K) inbound_interest Some rules;
         rules = add_rule adapter_fd Out (send_callback ops) (tcp_interest (\<lambda>c. conn_segments_out c \<noteq> [])) Some rules
     in (rules, w\<lparr>tcp := Some (conn_new config random)\<rparr>))"

text \<open>The rules as the loop holds them.\<close>

definition receive_rule :: "('a, 'k) adapter \<Rightarrow> ('a, 'k) sponge_socket rule" where
  "receive_rule ops = \<lparr>rule_fd = (\<lambda>w. ops_fd ops (datagram_adapter w)), rule_direction = In,
     callback = receive_callback ops, interest = tcp_interest active, cancel = Some\<rparr>"

definition outbound_rule :: "'k kernel_calls \<Rightarrow> ('a, 'k) sponge_socket rule" where
  "outbound_rule K = \<lparr>rule_fd = thread_data, rule_direction = In,
     callback = outbound_callback K, interest = outbound_interest, cancel = finish_outbound\<rparr>"

definition inbound_rule :: "'k kernel_calls \<Rightarrow> ('a, 'k) sponge_socket rule" where
  "inbound_rule K = \<lparr>rule_fd = thread_data, rule_direction = Out,
     callback = inbound_callback K, interest = inbound_interest, cancel = Some\<rparr>"

definition send_rule :: "('a, 'k) adapter \<Rightarrow> ('a, 'k) sponge_socket rule" where
  "send_rule ops = \<lparr>rule_fd = (\<lambda>w. ops_fd ops (datagram_adapter w)), rule_direction = Out,
     callback = send_callback ops, interest = tcp_interest (\<lambda>c. conn_segments_out c \<noteq> []), cancel = Some\<rparr>"

definition socket_rules :: "'k kernel_calls \<Rightarrow> ('a, 'k) adapter \<Rightarrow> ('a, 'k) sponge_socket rule list" where
  "socket_rules K ops = [receive_rule ops, outbound_rule K, inbound_rule K, send_rule ops]"

lemmas rule_defs = receive_rule_def outbound_rule_def inbound_rule_def send_rule_def

lemma initialize_TCP_eq:
  "initialize_TCP K ops config random (rules, w) = (rules @ socket_rules K ops, w\<lparr>tcp := Some (conn_new config random)\<rparr>)"
  by (simp add: initialize_TCP_def add_rule_def socket_rules_def rule_defs Let_def)

subsection \<open>The loop\<close>

definition TCP_TICK_MS :: int where "TCP_TICK_MS = 10"

definition socket_poll :: "'k kernel_calls \<Rightarrow> ('a, 'k) sponge_socket sys_poll" where
  "socket_poll K ps t w = (let (rv, errno, revents, k) = sys_poll K ps t (kernel w) in (rv, errno, revents, w\<lparr>kernel := k\<rparr>))"

definition loop_pass :: "'k kernel_calls \<Rightarrow> ('a, 'k) sponge_socket rule list \<Rightarrow> ('a, 'k) sponge_socket \<Rightarrow>
    (loop_result \<times> ('a, 'k) sponge_socket rule list \<times> ('a, 'k) sponge_socket) option" where
  "loop_pass K rules w = wait_next_event (socket_poll K) TCP_TICK_MS rules w"

definition tick_pass :: "'k kernel_calls \<Rightarrow> ('a, 'k) adapter \<Rightarrow> u64 \<Rightarrow> ('a, 'k) sponge_socket \<Rightarrow> (u64 \<times> ('a, 'k) sponge_socket) option" where
  "tick_pass K ops base_time w = do {
     c \<leftarrow> tcp w;
     if \<not> active c then Some (base_time, w)
     else do {
       let (next_time, k) = timestamp_ms K (kernel w);
       let c = conn_tick (next_time - base_time) c;
       (a, k) \<leftarrow> ops_tick ops (next_time - base_time) (datagram_adapter w) k;
       Some (next_time, w\<lparr>tcp := Some c, datagram_adapter := a, kernel := k\<rparr>)
     }
   }"

partial_function (option) tcp_loop_from ::
  "'k kernel_calls \<Rightarrow> ('a, 'k) adapter \<Rightarrow> (('a, 'k) sponge_socket \<Rightarrow> bool) \<Rightarrow> u64 \<Rightarrow>
     ('a, 'k) sponge_socket rule list \<Rightarrow> ('a, 'k) sponge_socket \<Rightarrow>
     (('a, 'k) sponge_socket rule list \<times> ('a, 'k) sponge_socket) option option" where
  "tcp_loop_from K ops condition base_time rules w =
     (if \<not> condition w then Some (Some (rules, w))
      else (case loop_pass K rules w of
              None \<Rightarrow> Some None
            | Some (ret, rules, w) \<Rightarrow>
                if ret = Exit \<or> abort_flag K (kernel w) then Some (Some (rules, w))
                else (case tick_pass K ops base_time w of
                        None \<Rightarrow> Some None
                      | Some (base_time, w) \<Rightarrow> tcp_loop_from K ops condition base_time rules w)))"

definition tcp_loop ::
  "'k kernel_calls \<Rightarrow> ('a, 'k) adapter \<Rightarrow> (('a, 'k) sponge_socket \<Rightarrow> bool) \<Rightarrow>
     ('a, 'k) sponge_socket rule list \<Rightarrow> ('a, 'k) sponge_socket \<Rightarrow>
     (('a, 'k) sponge_socket rule list \<times> ('a, 'k) sponge_socket) option option" where
  "tcp_loop K ops condition rules w =
     (let (base_time, k) = timestamp_ms K (kernel w)
      in tcp_loop_from K ops condition base_time rules (w\<lparr>kernel := k\<rparr>))"

subsection \<open>The owner's operations\<close>

definition in_state :: "tcp_state_name \<Rightarrow> ('a, 'k) sponge_socket \<Rightarrow> bool" where
  "in_state st w = tcp_interest (\<lambda>c. tcp_state_eq (conn_state c) (tcp_state_of_name st)) w"

text \<open>
  \<open>connect\<close> and \<open>listen_and_accept\<close> up to the start of the thread, which runs \<open>tcp_main\<close>. The last argument of
  the configuration is the random number of the sender's constructor.
\<close>

definition socket_connect ::
  "'k kernel_calls \<Rightarrow> ('a, 'k) adapter \<Rightarrow> tcp_config \<Rightarrow> u32 \<Rightarrow> fd_adapter_config \<Rightarrow>
     ('a, 'k) sponge_socket rule list \<Rightarrow> ('a, 'k) sponge_socket \<Rightarrow>
     (('a, 'k) sponge_socket rule list \<times> ('a, 'k) sponge_socket) option option" where
  "socket_connect K ops c_tcp random c_ad rules w =
     (if tcp w \<noteq> None then Some None
      else
        let (rules, w) = initialize_TCP K ops c_tcp random (rules, w);
            w = w\<lparr>datagram_adapter := ops_config ops c_ad (datagram_adapter w)\<rparr>
        in case tcp w \<bind> connect of
             None \<Rightarrow> Some None
           | Some c \<Rightarrow>
               let w = w\<lparr>tcp := Some c\<rparr>
               in if \<not> in_state SYN_SENT w then Some None else tcp_loop K ops (in_state SYN_SENT) rules w)"

definition listen_and_accept ::
  "'k kernel_calls \<Rightarrow> ('a, 'k) adapter \<Rightarrow> tcp_config \<Rightarrow> u32 \<Rightarrow> fd_adapter_config \<Rightarrow>
     ('a, 'k) sponge_socket rule list \<Rightarrow> ('a, 'k) sponge_socket \<Rightarrow>
     (('a, 'k) sponge_socket rule list \<times> ('a, 'k) sponge_socket) option option" where
  "listen_and_accept K ops c_tcp random c_ad rules w =
     (if tcp w \<noteq> None then Some None
      else
        let (rules, w) = initialize_TCP K ops c_tcp random (rules, w);
            w = w\<lparr>datagram_adapter := ops_listen ops True (ops_config ops c_ad (datagram_adapter w))\<rparr>
        in tcp_loop K ops (\<lambda>w. in_state LISTEN w \<or> in_state SYN_RCVD w \<or> in_state SYN_SENT w) rules w)"

text \<open>After the loop \<open>tcp_main\<close> shuts the owner's socket down and destroys the connection with what its queue holds.\<close>

definition tcp_finish :: "'k kernel_calls \<Rightarrow> ('a, 'k) sponge_socket \<Rightarrow> ('a, 'k) sponge_socket option" where
  "tcp_finish K w = do {
     (fd, k) \<leftarrow> socket_shutdown (sys_shutdown K) SHUT_RDWR (socket_fd w) (kernel w);
     _ \<leftarrow> tcp w;
     Some (w\<lparr>socket_fd := fd, kernel := k, tcp := None\<rparr>)
   }"

definition tcp_main ::
  "'k kernel_calls \<Rightarrow> ('a, 'k) adapter \<Rightarrow> ('a, 'k) sponge_socket rule list \<Rightarrow> ('a, 'k) sponge_socket \<Rightarrow>
     ('a, 'k) sponge_socket option option" where
  "tcp_main K ops rules w =
     (if tcp w = None then Some None
      else map_option (\<lambda>res. res \<bind> (\<lambda>(rules, w). tcp_finish K w)) (tcp_loop K ops (\<lambda>w. True) rules w))"

text \<open>
  \<open>CS144TCPSocket\<close> and \<open>FullStackSocket\<close> connect with a configuration of their own; the port is drawn at random.
\<close>

definition stack_config :: "getaddrinfo \<Rightarrow> string \<Rightarrow> u16 \<Rightarrow> address \<Rightarrow> (tcp_config \<times> fd_adapter_config) option" where
  "stack_config gai local_ip port address = do {
     multiplexer_config \<leftarrow> fd_adapter_config_default gai;
     source \<leftarrow> address_of_host gai local_ip (decimal (unat port));
     Some (tcp_config_default\<lparr>rt_timeout := 100\<rparr>,
       multiplexer_config\<lparr>cfg_source := source, cfg_destination := address\<rparr>)
   }"

definition cs144_connect ::
  "'k kernel_calls \<Rightarrow> ('a, 'k) adapter \<Rightarrow> getaddrinfo \<Rightarrow> u16 \<Rightarrow> u32 \<Rightarrow> address \<Rightarrow>
     ('a, 'k) sponge_socket rule list \<Rightarrow> ('a, 'k) sponge_socket \<Rightarrow>
     (('a, 'k) sponge_socket rule list \<times> ('a, 'k) sponge_socket) option option" where
  "cs144_connect K ops gai port random address rules w =
     (case stack_config gai ''169.254.144.9'' port address of
        None \<Rightarrow> Some None
      | Some (tcp_config, multiplexer_config) \<Rightarrow> socket_connect K ops tcp_config random multiplexer_config rules w)"

definition LOCAL_TAP_IP_ADDRESS :: string where "LOCAL_TAP_IP_ADDRESS = ''169.254.10.9''"
definition LOCAL_TAP_NEXT_HOP_ADDRESS :: string where "LOCAL_TAP_NEXT_HOP_ADDRESS = ''169.254.10.1''"

definition full_stack_connect ::
  "'k kernel_calls \<Rightarrow> ('a, 'k) adapter \<Rightarrow> getaddrinfo \<Rightarrow> u16 \<Rightarrow> u32 \<Rightarrow> address \<Rightarrow>
     ('a, 'k) sponge_socket rule list \<Rightarrow> ('a, 'k) sponge_socket \<Rightarrow>
     (('a, 'k) sponge_socket rule list \<times> ('a, 'k) sponge_socket) option option" where
  "full_stack_connect K ops gai port random address rules w =
     (case stack_config gai LOCAL_TAP_IP_ADDRESS port address of
        None \<Rightarrow> Some None
      | Some (tcp_config, multiplexer_config) \<Rightarrow> socket_connect K ops tcp_config random multiplexer_config rules w)"

definition random_private_ethernet_address :: "u8 list \<Rightarrow> EthernetAddress" where
  "random_private_ethernet_address random =
     (let addr = random; addr = addr[0 := addr ! 0 OR 0x02] in addr[0 := addr ! 0 AND 0xfe])"

subsection \<open>The connection of a socket\<close>

text \<open>A segment the adapters can send: a header without options and a payload of at most \<open>MAX_PAYLOAD_SIZE\<close> bytes.\<close>

definition sendable_segment :: "tcp_segment \<Rightarrow> bool" where
  "sendable_segment seg \<longleftrightarrow> doff (header seg) = 5 \<and> buffer_inv (payload seg) \<and> length (buffer_str (payload seg)) \<le> 1000"

text \<open>A sender that has sent its SYN, to which \<open>W\<close> bytes are written and which is closed iff \<open>E\<close>.\<close>

definition relays :: "nat \<Rightarrow> bool \<Rightarrow> tcp_sender \<Rightarrow> bool" where
  "relays W E s \<longleftrightarrow> snd_inv s \<and> wtn s = W \<and> 0 < nxt s \<and> input_ended (snd_stream s) = E \<and>
     (\<forall>seg \<in> set (segments_out s). sendable_segment seg) \<and> (\<forall>x \<in> set (outstanding s). sendable_segment (os_segment x))"

lemma sendable_header: "sendable_segment \<lparr>header = tcp_header_default\<lparr>seqno := i\<rparr>, payload = buffer_empty_new\<rparr>"
  by (simp add: sendable_segment_def tcp_header_default_def tcp_header_LENGTH_def buffer_empty_new_def buffer_inv_def buffer_str_def)

lemma sendable_next: "sendable_segment (next_segment s)"
  using length_next_data_le [of s]
  by (simp add: sendable_segment_def next_segment_def tcp_header_default_def tcp_header_LENGTH_def buffer_new_def buffer_inv_def buffer_str_def)

lemma sendable_stamp: "sendable_segment seg \<Longrightarrow> sendable_segment (stamp b r seg)"
  by (simp add: sendable_segment_def stamp_def Let_def split: option.split)

definition carrying :: "nat \<Rightarrow> bool \<Rightarrow> tcp_sender \<Rightarrow> bool" where
  "carrying W E s \<longleftrightarrow> snd_inv s \<and> wtn s = W \<and> input_ended (snd_stream s) = E \<and>
     (\<forall>seg \<in> set (segments_out s). sendable_segment seg) \<and> (\<forall>x \<in> set (outstanding s). sendable_segment (os_segment x))"

lemma relays_carrying: "relays W E s \<longleftrightarrow> carrying W E s \<and> 0 < nxt s"
  by (auto simp: relays_def carrying_def)

text \<open>Filling the window sends at least the SYN.\<close>

lemma carrying_fill:
  assumes "carrying W E s"
  shows "\<exists>s'. fill_window s = Some s' \<and> relays W E s'"
proof -
  have "\<exists>s'. fill_window s = Some s' \<and> snd_inv s' \<and> carrying W E s' \<and> settled s'"
  proof (rule fill_window_rule)
    show "snd_inv s" "carrying W E s" using assms by (simp_all add: carrying_def)
  next
    fix t str
    assume t: "snd_inv t" "carrying W E t" and g: "nxt t \<le> akd t + wnd t" "\<not> fin_sent t" "next_len t \<noteq> 0"
      "bs_read (of_nat (next_max t)) (snd_stream t) = Some (next_data t, str)"
    note A = advance_numbers [OF t(1) g]
    have "outstanding (advance t str) = outstanding t @ [\<lparr>os_seqno = next_seqno t, os_segment = next_segment t\<rparr>]"
      "segments_out (advance t str) = segments_out t @ [next_segment t]" "snd_stream (advance t str) = str"
      by (simp_all add: advance_def)
    then show "carrying W E (advance t str)"
      using t(2) A snd_inv_advance [OF t(1) g] sendable_next by (auto simp: carrying_def input_ended_def)
  qed
  moreover have "0 < nxt s'" if "settled s'" for s' using that by (auto simp: settled_def)
  ultimately show ?thesis by (auto simp: relays_carrying)
qed

lemma relays_fill: "relays W E s \<Longrightarrow> \<exists>s'. fill_window s = Some s' \<and> relays W E s'"
  by (simp add: relays_carrying [of W E s] carrying_fill)

lemma relays_ack:
  assumes "relays W E s"
  shows "\<exists>s'. ack_received a w s = Some s' \<and> relays W E s'"
proof -
  have inv: "snd_inv s" using assms by (simp add: relays_def)
  show ?thesis
  proof (cases rule: ack_received_cases [OF inv, of a w, case_names ignored accepted])
    case ignored
    then show ?thesis using snd_inv_ack [OF inv, of a w] assms by (auto simp: relays_def)
  next
    case (accepted s1)
    have "snd_stream s1 = snd_stream s" "segments_out s1 = segments_out s" "next_seqno s1 = next_seqno s"
      by (subst accepted(4), simp)+
    then have "relays W E s1" using assms accepted(3,5) by (auto simp: relays_def)
    from relays_fill [OF this] accepted(6) show ?thesis by simp
  qed
qed

lemma relays_tick: "relays W E s \<Longrightarrow> relays W E (snd_tick ms s)"
  using snd_inv_tick [of s ms] by (cases "outstanding s") (auto simp: relays_def snd_tick_def Let_def)

interpretation relay: connection_parts "relays W E" rcv_ok sendable_segment "\<lambda>s data. False" "\<lambda>s. E" fits_receive "\<lambda>r. True"
  for W E
proof unfold_locales
  fix s :: tcp_sender
  assume s: "relays W E s"
  show "relays W E (send_empty_segment s)" "relays W E (s\<lparr>segments_out := []\<rparr>)"
    "relays W E (s\<lparr>snd_stream := set_error (snd_stream s)\<rparr>)"
    using s snd_inv_empty [of s] snd_inv_set_error [of s] sendable_header
    by (auto simp: relays_def send_empty_segment_def Let_def input_ended_def)
  show "relays W E (s\<lparr>snd_stream := end_input (snd_stream s)\<rparr>)" if E
    using s that snd_inv_end_input [of s] by (simp add: relays_def end_input_def input_ended_def)
  fix seg assume "seg \<in> set (segments_out s)"
  with s show "sendable_segment seg" by (simp add: relays_def)
qed (simp_all add: relays_fill relays_ack relays_tick sendable_stamp rcv_ok_set_error rcv_ok_segment rcv_ok_read)

abbreviation conn_relays :: "nat \<Rightarrow> bool \<Rightarrow> tcp_connection \<Rightarrow> bool" where
  "conn_relays W E \<equiv> conn_holds (relays W E) rcv_ok sendable_segment"

lemma relay_close:
  assumes "conn_relays W E c"
  shows "\<exists>c'. end_input_stream c = Some c' \<and> conn_relays W True c' \<and> receiver c' = receiver c"
proof -
  let ?s = "(sender c)\<lparr>snd_stream := end_input (snd_stream (sender c))\<rparr>"
  have "relays W True ?s"
    using assms snd_inv_end_input [of "sender c"] by (simp add: conn_holds_def relays_def end_input_def input_ended_def)
  then have "conn_relays W True (c\<lparr>sender := ?s\<rparr>)" using assms by (simp add: conn_holds_def)
  from relay.holds_fill [OF this] obtain c1 where c1: "with_sender fill_window (c\<lparr>sender := ?s\<rparr>) = Some c1" "conn_relays W True c1"
    by blast
  have "receiver (try_closing_connection c1) = receiver c"
    using c1(1) by (auto simp: with_sender_def try_closing_connection_def Let_def send_segments_def)
  with c1 relay.holds_try_closing [OF c1(2)] show ?thesis by (simp add: end_input_stream_def Let_def)
qed

lemma relay_write:
  assumes c: "conn_relays W False c" and len: "W + length data < 2 ^ 63"
    and cap: "length data \<le> unat (remaining_outbound_capacity c)"
  shows "\<exists>c'. conn_write data c = Some (size64 data, c') \<and> conn_relays (W + length data) False c'"
proof -
  let ?s = "sender c" and ?w = "bs_write data (snd_stream (sender c))"
  have s: "relays W False ?s" using c by (simp add: conn_holds_def)
  then have inv: "snd_inv ?s" and op: "\<not> input_ended (snd_stream ?s)" and w: "wtn ?s = W" and n: "0 < nxt ?s"
    by (simp_all add: relays_def)
  have "unat (remaining_outbound_capacity c) = bs_cap (snd_stream ?s) - buffered ?s"
    using bs_invD [OF snd_invD(1) [OF inv]]
    by (simp add: remaining_outbound_capacity_def remaining_capacity_def bs_cap_def unat_sub)
  then have m: "min (length data) (bs_cap (snd_stream ?s) - buffered ?s) = length data" using cap by simp
  note WR = snd_inv_write [OF inv op, of data, unfolded m]
  have l: "wtn ?s + length data < 2 ^ 63" using len w by simp
  have "unat (fst ?w) = unat (size64 data)" using WR(4) [OF l] len by (simp add: unat_simps)
  then have f: "fst ?w = size64 data" by (simp add: word_eq_unat_iff)
  have "relays (W + length data) False (?s\<lparr>snd_stream := snd ?w\<rparr>)"
    using s WR(1,2) [OF l] w op by (simp add: relays_def input_ended_def)
  then have "conn_relays (W + length data) False (c\<lparr>sender := ?s\<lparr>snd_stream := snd ?w\<rparr>\<rparr>)"
    using c by (simp add: conn_holds_def)
  from relay.holds_fill [OF this] relay.holds_send show ?thesis
    using op n f by (auto simp: conn_write_def Let_def case_prod_unfold syn_sent_def next_seqno_absolute_def word_gt_0)
qed

end
