(* ===== verification/Socket_Relay.thy ===== *)
theory Socket_Relay
  imports Sponge_Socket
begin

text \<open>
  What the thread of a \<open>TCPSpongeSocket\<close> does: on a kernel whose calls succeed it never throws, and every
  pass of its loop is a run of the endpoint of \<open>TCP_Network\<close> that writes what the owner has written, reads what
  is passed on to the owner, receives what the adapter reads and sends what is handed to the adapter.
\<close>

subsection \<open>Endpoint runs\<close>

inductive ep_run :: "tcp_segment set \<Rightarrow> endpoint \<Rightarrow> tcp_segment list \<Rightarrow> endpoint \<Rightarrow> bool" for inn where
  ep_run_nil: "ep_run inn e [] e"
| ep_run_snoc: "ep_run inn e out e' \<Longrightarrow> ep_step inn e' out' e'' \<Longrightarrow> ep_run inn e (out @ out') e''"

lemma ep_run_step: "ep_step inn e out e' \<Longrightarrow> ep_run inn e out e'"
  using ep_run_snoc [OF ep_run_nil] by fastforce

lemma ep_run_trans:
  assumes "ep_run inn e out e'" and "ep_run inn e' out' e''"
  shows "ep_run inn e (out @ out') e''"
  using assms(2,1)
proof (induction rule: ep_run.induct)
  case (ep_run_snoc e1 out1 e2 out2 e3)
  from ep_run.ep_run_snoc [OF ep_run_snoc.IH [OF ep_run_snoc.prems] ep_run_snoc.hyps(2)] show ?case by simp
qed simp

subsection \<open>The contracts of the kernel and of the adapter\<close>

text \<open>
  What the environment of the thread keeps track of: the bytes read from the owner and those written to the
  owner, through the descriptor \<open>_thread_data\<close>, the datagrams sent, and those that may still arrive.
\<close>

record ('k, 'd) history =
  from_owner :: "'k \<Rightarrow> bytes"
  to_owner :: "'k \<Rightarrow> bytes"
  datagrams :: "'k \<Rightarrow> 'd list"
  arriving :: "'k \<Rightarrow> 'd set"

definition unseen :: "('k, 'd) history \<Rightarrow> 'k \<Rightarrow> 'k \<Rightarrow> bool" where
  "unseen H k k' \<longleftrightarrow> from_owner H k' = from_owner H k \<and> to_owner H k' = to_owner H k \<and> datagrams H k' = datagrams H k \<and>
     arriving H k' \<subseteq> arriving H k"

definition off_line :: "('k, 'd) history \<Rightarrow> 'k \<Rightarrow> 'k \<Rightarrow> bool" where
  "off_line H k k' \<longleftrightarrow> datagrams H k' = datagrams H k \<and> arriving H k' = arriving H k"

text \<open>The documented behaviour of the calls on the descriptor \<open>fd\<close>, of \<open>poll\<close> and of the clock, when no call fails.\<close>

definition kernel_ok :: "'k kernel_calls \<Rightarrow> int \<Rightarrow> ('k, 'd) history \<Rightarrow> bool" where
  "kernel_ok K fd H \<longleftrightarrow>
     reads_through (sys_read K) fd (from_owner H) \<and>
     (\<forall>n k. let k' = snd (snd (snd (sys_read K fd n k))) in to_owner H k' = to_owner H k \<and> off_line H k k') \<and>
     writes_through (sys_writev K) fd (to_owner H) \<and>
     (\<forall>iov k. let k' = snd (snd (sys_writev K fd iov k)) in from_owner H k' = from_owner H k \<and> off_line H k k') \<and>
     (\<forall>how k. case sys_shutdown K fd how k of (rv, errno, k') \<Rightarrow> 0 \<le> sint rv \<and> unseen H k k') \<and>
     (\<forall>ps t k. case sys_poll K ps t k of (rv, errno, revents, k') \<Rightarrow>
        length revents = length ps \<and> (\<forall>x \<in> set revents. x AND (POLLERR OR POLLNVAL) = 0) \<and> unseen H k k') \<and>
     (\<forall>k. unseen H k (snd (timestamp_ms K k)))"

text \<open>
  What a socket expects of its adapter, in the states \<open>A\<close>: reading takes one datagram from the descriptor and
  yields nothing or a segment carried by a datagram that may arrive; writing sends one datagram that carries the
  segment; all segments a datagram carries are the same up to ports and checksum.
\<close>

definition adapter_ok :: "('a, 'k) adapter \<Rightarrow> ('a \<Rightarrow> bool) \<Rightarrow> ('k, 'd) history \<Rightarrow> ('d \<Rightarrow> tcp_segment \<Rightarrow> bool) \<Rightarrow> bool" where
  "adapter_ok ops A H carries \<longleftrightarrow>
     (\<forall>d s t. carries d s \<longrightarrow> carries d t \<longrightarrow> same_segment s t) \<and>
     (\<forall>a k. A a \<longrightarrow> (\<exists>x a' k'. ops_read ops a k = Some (x, a', k') \<and> A a' \<and> unseen H k k' \<and>
        read_count (ops_fd ops a') \<noteq> read_count (ops_fd ops a) \<and>
        (\<forall>seg. x = Some seg \<longrightarrow> length (buffer_str (payload seg)) < 2 ^ 63 \<and> (\<exists>d \<in> arriving H k. carries d seg)))) \<and>
     (\<forall>seg a k. A a \<longrightarrow> sendable_segment seg \<longrightarrow> (\<exists>a' k' d. ops_write ops seg a k = Some (a', k') \<and> A a' \<and>
        from_owner H k' = from_owner H k \<and> to_owner H k' = to_owner H k \<and>
        datagrams H k' = datagrams H k @ [d] \<and> arriving H k' = arriving H k \<and> carries d seg)) \<and>
     (\<forall>ms a k. A a \<longrightarrow> (\<exists>a' k'. ops_tick ops ms a k = Some (a', k') \<and> A a' \<and> unseen H k k'))"

lemma adapter_okD:
  assumes "adapter_ok ops A H carries"
  shows "carries d s \<Longrightarrow> carries d t \<Longrightarrow> same_segment s t"
    and "A a \<Longrightarrow> \<exists>x a' k'. ops_read ops a k = Some (x, a', k') \<and> A a' \<and> unseen H k k' \<and>
        read_count (ops_fd ops a') \<noteq> read_count (ops_fd ops a) \<and>
        (\<forall>seg. x = Some seg \<longrightarrow> length (buffer_str (payload seg)) < 2 ^ 63 \<and> (\<exists>d \<in> arriving H k. carries d seg))"
    and "A a \<Longrightarrow> sendable_segment seg \<Longrightarrow> \<exists>a' k' d. ops_write ops seg a k = Some (a', k') \<and> A a' \<and>
        from_owner H k' = from_owner H k \<and> to_owner H k' = to_owner H k \<and>
        datagrams H k' = datagrams H k @ [d] \<and> arriving H k' = arriving H k \<and> carries d seg"
    and "A a \<Longrightarrow> \<exists>a' k'. ops_tick ops ms a k = Some (a', k') \<and> A a' \<and> unseen H k k'"
  using assms unfolding adapter_ok_def by blast+

subsection \<open>The socket as an endpoint\<close>

definition ep_of :: "('k, 'd) history \<Rightarrow> ('a, 'k) sponge_socket \<Rightarrow> endpoint" where
  "ep_of H w = \<lparr>conn = the (tcp w), written = from_owner H (kernel w), finished = outbound_shutdown w,
     got = to_owner H (kernel w)\<rparr>"

text \<open>A run of the endpoint that receives nothing but what the datagrams \<open>D\<close> carry.\<close>

definition socket_run :: "('k, 'd) history \<Rightarrow> ('d \<Rightarrow> tcp_segment \<Rightarrow> bool) \<Rightarrow> 'd set \<Rightarrow>
    ('a, 'k) sponge_socket \<Rightarrow> ('a, 'k) sponge_socket \<Rightarrow> bool" where
  "socket_run H carries D w w' \<longleftrightarrow> (\<exists>out ds. ep_run {s. \<exists>d \<in> D. carries d s} (ep_of H w) out (ep_of H w') \<and>
     datagrams H (kernel w') = datagrams H (kernel w) @ ds \<and> list_all2 carries ds out)"

lemma socket_run_trans:
  assumes "socket_run H carries D w w1" and "socket_run H carries D w1 w2"
  shows "socket_run H carries D w w2"
proof -
  obtain out ds where 1: "ep_run {s. \<exists>d \<in> D. carries d s} (ep_of H w) out (ep_of H w1)" "datagrams H (kernel w1) = datagrams H (kernel w) @ ds"
    "list_all2 carries ds out"
    using assms(1) by (auto simp: socket_run_def)
  obtain out' ds' where 2: "ep_run {s. \<exists>d \<in> D. carries d s} (ep_of H w1) out' (ep_of H w2)" "datagrams H (kernel w2) = datagrams H (kernel w1) @ ds'"
    "list_all2 carries ds' out'"
    using assms(2) by (auto simp: socket_run_def)
  have "list_all2 carries (ds @ ds') (out @ out')" using 1(3) 2(3) by (rule list_all2_appendI)
  with ep_run_trans [OF 1(1) 2(1)] 1(2) 2(2) show ?thesis unfolding socket_run_def by (metis append.assoc)
qed

lemma socket_run_same: "ep_of H w' = ep_of H w \<Longrightarrow> datagrams H (kernel w') = datagrams H (kernel w) \<Longrightarrow> socket_run H carries D w w'"
  unfolding socket_run_def by (intro exI [of _ "[]"]) (simp add: ep_run_nil)

lemma socket_run_step:
  "ep_step {s. \<exists>d \<in> D. carries d s} (ep_of H w) [] (ep_of H w') \<Longrightarrow> datagrams H (kernel w') = datagrams H (kernel w) \<Longrightarrow> socket_run H carries D w w'"
  unfolding socket_run_def by (intro exI [of _ "[]"]) (simp add: ep_run_step)

text \<open>What holds between the calls of the rules, once the connection has sent its SYN.\<close>

definition socket_inv :: "int \<Rightarrow> ('a \<Rightarrow> bool) \<Rightarrow> ('k, 'd) history \<Rightarrow> 'd set \<Rightarrow> ('a, 'k) sponge_socket \<Rightarrow> bool" where
  "socket_inv fd A H D w \<longleftrightarrow> fd_num (thread_data w) = fd \<and> A (datagram_adapter w) \<and> arriving H (kernel w) \<subseteq> D \<and>
     (\<exists>c W. tcp w = Some c \<and> conn_relays W (outbound_shutdown w) c)"

text \<open>The counters of the connection are far from their limits: what one pass can add still fits.\<close>

definition receive_room :: "tcp_connection \<Rightarrow> bool" where
  "receive_room c \<longleftrightarrow> window_end (rcv_reassembler (receiver c)) < 2 ^ 63"

definition write_room :: "tcp_connection \<Rightarrow> bool" where
  "write_room c \<longleftrightarrow> wtn (sender c) + 2 ^ 20 < 2 ^ 63"

lemma conn_relaysD: "conn_relays W E c \<Longrightarrow> wtn (sender c) = W \<and> rcv_ok (receiver c)"
  by (simp add: conn_holds_def relays_def)

subsection \<open>The four rules\<close>

lemma receive_ok:
  assumes I: "socket_inv fd A H D w" and ad: "adapter_ok ops A H carries" and room: "tcp_interest receive_room w"
  shows "\<exists>w'. receive_callback ops w = Some w' \<and> socket_inv fd A H D w' \<and> socket_run H carries D w w' \<and>
    read_count (ops_fd ops (datagram_adapter w')) \<noteq> read_count (ops_fd ops (datagram_adapter w)) \<and>
    outbound_shutdown w' = outbound_shutdown w \<and> tcp_interest (\<lambda>c'. wtn (sender c') = wtn (sender (the (tcp w)))) w'"
proof -
  obtain c W where c: "tcp w = Some c" "conn_relays W (outbound_shutdown w) c" using I by (auto simp: socket_inv_def)
  obtain x a k where r: "ops_read ops (datagram_adapter w) (kernel w) = Some (x, a, k)" "A a" "unseen H (kernel w) k"
    "read_count (ops_fd ops a) \<noteq> read_count (ops_fd ops (datagram_adapter w))"
    "\<forall>seg. x = Some seg \<longrightarrow> length (buffer_str (payload seg)) < 2 ^ 63 \<and> (\<exists>d \<in> arriving H (kernel w). carries d seg)"
    using adapter_okD(2) [OF ad, of "datagram_adapter w" "kernel w"] I by (auto simp: socket_inv_def)
  obtain c' where c': "(case x of None \<Rightarrow> Some c | Some seg \<Rightarrow> conn_segment_received seg c) = Some c'"
    "conn_relays W (outbound_shutdown w) c'"
  proof (cases x)
    case (Some seg)
    then have "fits_receive (receiver c) seg"
      using room c(1) r(5) by (simp add: tcp_interest_def receive_room_def fits_receive_def)
    from relay.holds_segment_received [OF c(2) this] Some that show ?thesis by auto
  qed (use c(2) that in auto)
  let ?w = "w\<lparr>datagram_adapter := a, kernel := k, tcp := Some c',
    fully_acked := fully_acked w \<or> fd_eof (thread_data w) \<and> conn_bytes_in_flight c' = 0\<rparr>"
  have cb: "receive_callback ops w = Some ?w" using r(1) c(1) c'(1) by (simp add: receive_callback_def)
  have inv: "socket_inv fd A H D ?w" using I r(2,3) c'(2) by (auto simp: socket_inv_def unseen_def)
  have ep: "ep_of H ?w = (ep_of H w)\<lparr>conn := c'\<rparr>" "conn (ep_of H w) = c"
    using r(3) c(1) by (simp_all add: ep_of_def unseen_def)
  have d: "datagrams H (kernel ?w) = datagrams H (kernel w)" using r(3) by (simp add: unseen_def)
  have "socket_run H carries D w ?w"
  proof (cases x)
    case None
    then show ?thesis using c'(1) ep d by (intro socket_run_same) simp_all
  next
    case (Some seg)
    then have s: "seg \<in> {s. \<exists>d \<in> D. carries d s}" "same_segment seg seg"
      using r(5) I by (auto simp: socket_inv_def same_segment_def tcp_header_eq_def wi_eq_def)
    have "conn_segment_received seg (conn (ep_of H w)) = Some c'" using Some c'(1) ep(2) by simp
    from ep_receive [OF s this] d show ?thesis by (intro socket_run_step) (simp_all only: ep(1))
  qed
  then show ?thesis
    using cb inv r(4) conn_relaysD [OF c(2)] conn_relaysD [OF c'(2)] c(1) by (auto simp: tcp_interest_def)
qed

lemma finish_ok:
  assumes I: "socket_inv fd A H D w"
  shows "\<exists>w'. finish_outbound w = Some w' \<and> socket_inv fd A H D w' \<and> socket_run H carries D w w' \<and>
    thread_data w' = thread_data w \<and> receiver (the (tcp w')) = receiver (the (tcp w)) \<and> wtn (sender (the (tcp w'))) = wtn (sender (the (tcp w))) \<and>
    outbound_shutdown w'"
proof -
  obtain c W where c: "tcp w = Some c" "conn_relays W (outbound_shutdown w) c" using I by (auto simp: socket_inv_def)
  obtain c' where c': "end_input_stream c = Some c'" "conn_relays W True c'" "receiver c' = receiver c"
    using relay_close [OF c(2)] by auto
  let ?w = "w\<lparr>tcp := Some c', outbound_shutdown := True\<rparr>"
  have "finish_outbound w = Some ?w" using c(1) c'(1) by (simp add: finish_outbound_def)
  moreover have "socket_inv fd A H D ?w" using I c'(2) by (auto simp: socket_inv_def)
  moreover have "ep_step {s. \<exists>d \<in> D. carries d s} (ep_of H w) [] ((ep_of H w)\<lparr>conn := c', finished := True\<rparr>)"
    by (rule ep_close) (simp add: ep_of_def c(1) c'(1))
  then have "socket_run H carries D w ?w" by (intro socket_run_step) (simp_all add: ep_of_def)
  ultimately show ?thesis using c c'(2,3) conn_relaysD by fastforce
qed

lemma outbound_ok:
  assumes I: "socket_inv fd A H D w" and K: "kernel_ok K fd H" and op: "\<not> outbound_shutdown w" and room: "tcp_interest write_room w"
  shows "\<exists>w'. outbound_callback K w = Some w' \<and> socket_inv fd A H D w' \<and> socket_run H carries D w w' \<and>
    read_count (thread_data w') = read_count (thread_data w) + 1"
proof -
  obtain c W where c: "tcp w = Some c" "conn_relays W False c" using I op by (auto simp: socket_inv_def)
  have num: "fd_num (thread_data w) = fd" using I by (simp add: socket_inv_def)
  let ?cap = "remaining_outbound_capacity c"
  have "reads_through (sys_read K) (fd_num (thread_data w)) (from_owner H)" using K num by (simp add: kernel_ok_def)
  from fd_read_ok [OF this, of ?cap "kernel w"] obtain data fd' k where
    r: "fd_read (sys_read K) ?cap (thread_data w) (kernel w) = Some (data, fd', k)"
      "from_owner H k = from_owner H (kernel w) @ data" "length data \<le> unat (min 1048576 ?cap)"
      "fd' = (thread_data w)\<lparr>fd_eof := fd_eof fd', read_count := read_count (thread_data w) + 1\<rparr>"
      "\<exists>n. k = snd (snd (snd (sys_read K (fd_num (thread_data w)) n (kernel w))))" by blast
  have same: "to_owner H k = to_owner H (kernel w)" "datagrams H k = datagrams H (kernel w)" "arriving H k = arriving H (kernel w)"
    using r(5) K num by (auto simp: kernel_ok_def Let_def off_line_def)
  have len: "length data \<le> 1048576" "length data \<le> unat ?cap" using r(3) by (auto simp: min_def word_le_nat_alt split: if_splits)
  have "W + length data < 2 ^ 63"
    using room c conn_relaysD [OF c(2)] len(1) by (simp add: tcp_interest_def write_room_def)
  from relay_write [OF c(2) this len(2)] obtain c' where
    c': "conn_write data c = Some (size64 data, c')" "conn_relays (W + length data) False c'" by blast
  let ?w = "w\<lparr>thread_data := fd', kernel := k, tcp := Some c'\<rparr>"
  have num': "fd_num fd' = fd" "read_count fd' = read_count (thread_data w) + 1" by (subst r(4), simp add: num)+
  have inv: "socket_inv fd A H D ?w" using I op c'(2) num' same(3) by (auto simp: socket_inv_def)
  have sz: "take (unat (size64 data)) data = data" using len(1) by (simp add: unat_simps)
  have "ep_step {s. \<exists>d \<in> D. carries d s} (ep_of H w) [] ((ep_of H w)\<lparr>conn := c', written := written (ep_of H w) @ take (unat (size64 data)) data\<rparr>)"
    using c(1) c'(1) len(1) by (intro ep_write) (simp_all add: ep_of_def)
  then have run: "socket_run H carries D w ?w"
    using r(2) same(1,2) by (intro socket_run_step) (simp_all add: ep_of_def sz)
  have cb: "outbound_callback K w = (if fd_eof fd' then finish_outbound ?w else Some ?w)"
    using c(1) r(1) c'(1) by (simp add: outbound_callback_def Let_def)
  show ?thesis
  proof (cases "fd_eof fd'")
    case True
    obtain w' where "finish_outbound ?w = Some w'" "socket_inv fd A H D w'" "socket_run H carries D ?w w'" "thread_data w' = thread_data ?w"
      using finish_ok [OF inv, of carries] by blast
    with True cb socket_run_trans [OF run] num'(2) show ?thesis by simp
  next
    case False
    with cb inv run num'(2) show ?thesis by simp
  qed
qed

lemma shutdown_ok:
  assumes "kernel_ok K (fd_num fd) H"
  shows "\<exists>k'. socket_shutdown (sys_shutdown K) SHUT_WR fd k = Some (register_write fd, k') \<and> unseen H k k'"
proof -
  obtain rv errno k' where s: "sys_shutdown K (fd_num fd) SHUT_WR k = (rv, errno, k')" by (metis prod_cases3)
  then have "0 \<le> sint rv" "unseen H k k'"
    using assms by (auto simp: kernel_ok_def split: prod.splits)
  with s show ?thesis by (simp add: socket_shutdown_def SystemCall_def SHUT_RD_def SHUT_WR_def)
qed

text \<open>Popping what was peeked and written is reading that much from the stream.\<close>

lemma inbound_pop:
  assumes "rcv_ok r" and "unat n \<le> unat (buffer_size (rcv_stream_out r))"
  shows "\<exists>out. pop_output n (rcv_stream_out r) = Some out \<and>
    read_inbound n r = Some (take (unat n) (bs_view (rcv_stream_out r)), r\<lparr>rcv_reassembler := (rcv_reassembler r)\<lparr>ra_output := out\<rparr>\<rparr>) \<and>
    rcv_ok (r\<lparr>rcv_reassembler := (rcv_reassembler r)\<lparr>ra_output := out\<rparr>\<rparr>)"
proof -
  have bs: "bs_inv (rcv_stream_out r)" using assms(1) by (simp add: rcv_ok_def ra_inv_def ra_core_def rcv_stream_out_def)
  have l: "length (take (unat n) (bs_view (rcv_stream_out r))) = unat n" using assms(2) by (simp add: buffer_size_def)
  then have sz: "size64 (take (unat n) (bs_view (rcv_stream_out r))) = n" by (simp only: size64_def of_nat_unat ucast_id)
  obtain x r' where x: "read_inbound n r = Some (x, r')" "rcv_ok r'" using rcv_ok_read [OF assms(1)] by blast
  then obtain out where "bs_read n (rcv_stream_out r) = Some (x, out)" "r' = r\<lparr>rcv_reassembler := (rcv_reassembler r)\<lparr>ra_output := out\<rparr>\<rparr>"
    by (auto simp: read_inbound_def)
  then have "pop_output n (rcv_stream_out r) = Some out" "x = take (unat n) (bs_view (rcv_stream_out r))"
    using sz by (auto simp: bs_read_def Let_def peek_output_view [OF bs] split: option.splits)
  with x \<open>r' = _\<close> show ?thesis by blast
qed

text \<open>The bytes that leave the inbound stream are the bytes the kernel has taken.\<close>

lemma inbound_transfer:
  fixes c :: tcp_connection
  defines "inb \<equiv> rcv_stream_out (receiver c)"
  assumes ok: "rcv_ok (receiver c)" and K: "kernel_ok K (fd_num fd) H"
  shows "\<exists>n k' out x. fd_write (sys_writev K) False (bvl_of_string (peek_output (min 65536 (buffer_size inb)) inb)) 0 fd k =
      Some (n, register_write fd, k') \<and> pop_output n inb = Some out \<and>
    read_inbound n (receiver c) = Some (x, receiver (set_inbound out c)) \<and> rcv_ok (receiver (set_inbound out c)) \<and>
    to_owner H k' = to_owner H k @ x \<and> from_owner H k' = from_owner H k \<and> off_line H k k'"
proof -
  have bs: "bs_inv inb" "0 < bs_cap inb"
    using ok by (auto simp: rcv_ok_def ra_inv_def ra_core_def rcv_stream_out_def inb_def bs_cap_def)
  have "writes_through (sys_writev K) (fd_num fd) (to_owner H)" using K by (simp add: kernel_ok_def)
  from write_from_stream [OF this bs, of k] obtain n k' out where
    wr: "fd_write (sys_writev K) False (bvl_of_string (peek_output (min 65536 (buffer_size inb)) inb)) 0 fd k = Some (n, register_write fd, k')"
      "pop_output n inb = Some out" "unat n \<le> length (bs_view inb)" "to_owner H k' = to_owner H k @ take (unat n) (bs_view inb)" by blast
  have view: "from_owner H k2 = from_owner H k1 \<and> datagrams H k2 = datagrams H k1 \<and> arriving H k2 = arriving H k1"
    if "k2 = snd (snd (sys_writev K (fd_num fd) iov k1))" for iov k1 k2
    using K that by (simp add: kernel_ok_def Let_def off_line_def)
  have same: "from_owner H k' = from_owner H k" "off_line H k k'"
    using fd_write_keeps [where view = "from_owner H", OF _ wr(1)] fd_write_keeps [where view = "datagrams H", OF _ wr(1)]
      fd_write_keeps [where view = "arriving H", OF _ wr(1)] view by (simp_all add: off_line_def)
  have "unat n \<le> unat (buffer_size (rcv_stream_out (receiver c)))" using wr(3) by (simp add: inb_def buffer_size_def)
  from inbound_pop [OF ok this] wr same show ?thesis by (auto simp: set_inbound_def inb_def)
qed

lemma inbound_ok:
  assumes I: "socket_inv fd A H D w" and K: "kernel_ok K fd H"
  shows "\<exists>w'. inbound_callback K w = Some w' \<and> socket_inv fd A H D w' \<and> socket_run H carries D w w' \<and>
    write_count (thread_data w') \<noteq> write_count (thread_data w)"
proof -
  obtain c W where c: "tcp w = Some c" "conn_relays W (outbound_shutdown w) c" using I by (auto simp: socket_inv_def)
  have num: "fd_num (thread_data w) = fd" using I by (simp add: socket_inv_def)
  let ?fd' = "register_write (thread_data w)" and ?in = "rcv_stream_out (receiver c)"
  have "rcv_ok (receiver c)" using c(2) by (simp add: conn_holds_def)
  from inbound_transfer [OF this, of K "thread_data w" H "kernel w"] K num obtain n k out x where
    t: "fd_write (sys_writev K) False (bvl_of_string (peek_output (min 65536 (buffer_size ?in)) ?in)) 0 (thread_data w) (kernel w) =
        Some (n, ?fd', k)" "pop_output n ?in = Some out"
      "read_inbound n (receiver c) = Some (x, receiver (set_inbound out c))" "rcv_ok (receiver (set_inbound out c))"
      "to_owner H k = to_owner H (kernel w) @ x" "from_owner H k = from_owner H (kernel w)" "off_line H (kernel w) k" by auto
  let ?w = "w\<lparr>thread_data := ?fd', kernel := k, tcp := Some (set_inbound out c)\<rparr>"
  have "conn_relays W (outbound_shutdown w) (set_inbound out c)"
    using c(2) t(4) by (simp add: conn_holds_def set_inbound_def)
  then have inv: "socket_inv fd A H D ?w" using I t(7) by (auto simp: socket_inv_def register_write_def off_line_def)
  have "ep_step {s. \<exists>d \<in> D. carries d s} (ep_of H w) [] ((ep_of H w)\<lparr>conn := (conn (ep_of H w))\<lparr>receiver := receiver (set_inbound out c)\<rparr>,
      got := got (ep_of H w) @ x\<rparr>)"
    using t(3) c(1) by (intro ep_read [of n]) (simp add: ep_of_def)
  then have run: "socket_run H carries D w ?w"
    using c(1) t(5-7) by (intro socket_run_step) (simp_all add: ep_of_def off_line_def, simp add: set_inbound_def)
  have fd2: "kernel_ok K (fd_num ?fd') H" using K num by (simp add: register_write_def)
  obtain k' where sh: "socket_shutdown (sys_shutdown K) SHUT_WR ?fd' k = Some (register_write ?fd', k')" "unseen H k k'"
    using shutdown_ok [OF fd2] by blast
  let ?w2 = "?w\<lparr>thread_data := register_write ?fd', kernel := k', inbound_shutdown := True\<rparr>"
  have cb: "inbound_callback K w = Some (if bs_eof out \<or> bs_error out then ?w2 else ?w)"
    using c(1) t(1,2) sh(1) by (simp add: inbound_callback_def)
  have "socket_inv fd A H D ?w2" using inv sh(2) by (auto simp: socket_inv_def register_write_def unseen_def)
  moreover have "socket_run H carries D w ?w2"
    by (rule socket_run_trans [OF run]) (use sh(2) in \<open>auto simp: unseen_def ep_of_def intro!: socket_run_same\<close>)
  moreover have "write_count ?fd' \<noteq> write_count (thread_data w)" "write_count (register_write ?fd') \<noteq> write_count (thread_data w)"
    by (simp_all add: register_write_def add.assoc)
  ultimately show ?thesis using cb inv run by (cases "bs_eof out \<or> bs_error out") auto
qed

lemma write_segments_ok:
  assumes ad: "adapter_ok ops A H carries" and "A a" and "\<forall>seg \<in> set segs. sendable_segment seg"
  shows "\<exists>a' k' ds. write_segments ops segs a k = Some (a', k') \<and> A a' \<and> from_owner H k' = from_owner H k \<and>
    to_owner H k' = to_owner H k \<and> datagrams H k' = datagrams H k @ ds \<and> arriving H k' = arriving H k \<and> list_all2 carries ds segs"
  using assms(2,3)
proof (induction segs arbitrary: a k)
  case (Cons seg segs)
  obtain a1 k1 d where 1: "ops_write ops seg a k = Some (a1, k1)" "A a1" "from_owner H k1 = from_owner H k"
    "to_owner H k1 = to_owner H k" "datagrams H k1 = datagrams H k @ [d]" "arriving H k1 = arriving H k" "carries d seg"
    using adapter_okD(3) [OF ad Cons.prems(1), of seg k] Cons.prems(2) by auto
  obtain a2 k2 ds where "write_segments ops segs a1 k1 = Some (a2, k2)" "A a2" "from_owner H k2 = from_owner H k1"
    "to_owner H k2 = to_owner H k1" "datagrams H k2 = datagrams H k1 @ ds" "arriving H k2 = arriving H k1" "list_all2 carries ds segs"
    using Cons.IH [OF 1(2), of k1] Cons.prems(2) by auto
  with 1 show ?case by (intro exI [of _ a2] exI [of _ k2] exI [of _ "d # ds"]) simp
qed simp

lemma send_ok:
  assumes I: "socket_inv fd A H D w" and ad: "adapter_ok ops A H carries"
  shows "\<exists>w'. send_callback ops w = Some w' \<and> socket_inv fd A H D w' \<and> socket_run H carries D w w' \<and>
    \<not> interest (send_rule ops) w'"
proof -
  obtain c W where c: "tcp w = Some c" "conn_relays W (outbound_shutdown w) c" using I by (auto simp: socket_inv_def)
  have "\<forall>seg \<in> set (conn_segments_out c). sendable_segment seg" using c(2) by (simp add: conn_holds_def)
  from write_segments_ok [OF ad _ this, of "datagram_adapter w" "kernel w"] obtain a k ds where
    s: "write_segments ops (conn_segments_out c) (datagram_adapter w) (kernel w) = Some (a, k)" "A a"
      "from_owner H k = from_owner H (kernel w)" "to_owner H k = to_owner H (kernel w)"
      "datagrams H k = datagrams H (kernel w) @ ds" "list_all2 carries ds (conn_segments_out c)" "arriving H k = arriving H (kernel w)"
    using I by (auto simp: socket_inv_def)
  let ?c = "c\<lparr>conn_segments_out := []\<rparr>"
  let ?w = "w\<lparr>datagram_adapter := a, kernel := k, tcp := Some ?c\<rparr>"
  have "send_callback ops w = Some ?w" using c(1) s(1) by (simp add: send_callback_def)
  moreover have "conn_relays W (outbound_shutdown w) ?c" using c(2) by (simp add: conn_holds_def)
  then have "socket_inv fd A H D ?w" using I s(2,7) by (auto simp: socket_inv_def)
  moreover have "ep_step {s. \<exists>d \<in> D. carries d s} (ep_of H w) (conn_segments_out c) (ep_of H ?w)"
    using ep_send [of "{s. \<exists>d \<in> D. carries d s}" "ep_of H w"] c(1) s(3,4) by (simp add: ep_of_def)
  then have "socket_run H carries D w ?w"
    unfolding socket_run_def using s(5,6) by (intro exI [of _ "conn_segments_out c"] exI [of _ ds]) (simp add: ep_run_step)
  moreover have "\<not> interest (send_rule ops) ?w" by (simp add: send_rule_def tcp_interest_def)
  ultimately show ?thesis by blast
qed

lemma tick_ok:
  assumes I: "socket_inv fd A H D w" and K: "kernel_ok K fd H" and ad: "adapter_ok ops A H carries"
  shows "\<exists>t w'. tick_pass K ops base_time w = Some (t, w') \<and> socket_inv fd A H D w' \<and> socket_run H carries D w w'"
proof -
  obtain c W where c: "tcp w = Some c" "conn_relays W (outbound_shutdown w) c" using I by (auto simp: socket_inv_def)
  obtain t k where t: "timestamp_ms K (kernel w) = (t, k)" by fastforce
  then have k: "unseen H (kernel w) k" using K unfolding kernel_ok_def by (metis snd_conv)
  let ?ms = "t - base_time"
  obtain a k' where a: "ops_tick ops ?ms (datagram_adapter w) k = Some (a, k')" "A a" "unseen H k k'"
    using adapter_okD(4) [OF ad, of "datagram_adapter w" ?ms k] I by (auto simp: socket_inv_def)
  let ?w = "w\<lparr>tcp := Some (conn_tick ?ms c), datagram_adapter := a, kernel := k'\<rparr>"
  have "tick_pass K ops base_time w = Some (if active c then (t, ?w) else (base_time, w))"
    using c(1) t a(1) by (simp add: tick_pass_def)
  moreover have "socket_inv fd A H D ?w"
    using I a(2,3) k relay.holds_tick [OF c(2)] by (auto simp: socket_inv_def unseen_def)
  moreover have "ep_step {s. \<exists>d \<in> D. carries d s} (ep_of H w) [] ((ep_of H w)\<lparr>conn := conn_tick ?ms (conn (ep_of H w))\<rparr>)"
    by (rule ep_tick)
  then have "socket_run H carries D w ?w"
    using c(1) k a(3) by (intro socket_run_step) (simp_all add: ep_of_def unseen_def)
  moreover have "socket_run H carries D w w" by (rule socket_run_same) simp_all
  ultimately show ?thesis using I by (cases "active c") auto
qed

subsection \<open>A pass of the loop\<close>

lemma finish_outbound_not_Some: "finish_outbound \<noteq> (Some :: ('a, 'k) sponge_socket \<Rightarrow> ('a, 'k) sponge_socket option)"
proof
  assume *: "finish_outbound = (Some :: ('a, 'k) sponge_socket \<Rightarrow> ('a, 'k) sponge_socket option)"
  define w :: "('a, 'k) sponge_socket" where "w = undefined\<lparr>tcp := None\<rparr>"
  have "finish_outbound w = None" by (simp add: finish_outbound_def w_def)
  with * show False by simp
qed

text \<open>Rules 1 and 2 rely on the counters; rule 2 also on the outbound stream being open.\<close>

definition socket_guard :: "('a, 'k) sponge_socket rule \<Rightarrow> ('a, 'k) sponge_socket \<Rightarrow> bool" where
  "socket_guard r w \<longleftrightarrow>
     (cancel r = finish_outbound \<longrightarrow> \<not> outbound_shutdown w \<and> tcp_interest write_room w) \<and>
     (cancel r = Some \<and> rule_direction r = In \<longrightarrow> tcp_interest receive_room w)"

lemma socket_guard_rules [simp]:
  "socket_guard (receive_rule ops) w \<longleftrightarrow> tcp_interest receive_room w"
  "socket_guard (outbound_rule K) w \<longleftrightarrow> \<not> outbound_shutdown w \<and> tcp_interest write_room w"
  "socket_guard (inbound_rule K) w" "socket_guard (send_rule ops) w"
  by (simp_all add: socket_guard_def rule_defs finish_outbound_not_Some finish_outbound_not_Some [symmetric])

definition serving :: "'k kernel_calls \<Rightarrow> ('a, 'k) adapter \<Rightarrow> int \<Rightarrow> ('a \<Rightarrow> bool) \<Rightarrow> ('k, 'd) history \<Rightarrow>
    ('d \<Rightarrow> tcp_segment \<Rightarrow> bool) \<Rightarrow> 'd set \<Rightarrow> ('a, 'k) sponge_socket \<Rightarrow> bool" where
  "serving K ops fd A H carries D w \<longleftrightarrow> kernel_ok K fd H \<and> adapter_ok ops A H carries \<and> socket_inv fd A H D w"

definition with_room :: "('a, 'k) sponge_socket \<Rightarrow> bool" where
  "with_room w \<longleftrightarrow> tcp_interest receive_room w \<and> tcp_interest write_room w"

lemma rule_fields [simp]:
  "callback (receive_rule ops) = receive_callback ops" "cancel (receive_rule ops) = Some"
  "callback (outbound_rule K) = outbound_callback K" "cancel (outbound_rule K) = finish_outbound"
  "callback (inbound_rule K) = inbound_callback K" "cancel (inbound_rule K) = Some"
  "callback (send_rule ops) = send_callback ops" "cancel (send_rule ops) = Some"
  "service_count (receive_rule ops) w = read_count (ops_fd ops (datagram_adapter w))"
  "service_count (outbound_rule K) w = read_count (thread_data w)"
  "service_count (inbound_rule K) w = write_count (thread_data w)"
  by (simp_all add: rule_defs service_count_def)

lemma finish_keeps:
  assumes "serving K ops fd A H carries D w" and "finish_outbound w = Some w'"
  shows "serving K ops fd A H carries D w' \<and> socket_run H carries D w w' \<and>
    (tcp_interest receive_room w \<longrightarrow> tcp_interest receive_room w') \<and> (tcp_interest write_room w \<longrightarrow> tcp_interest write_room w')"
proof -
  have I: "socket_inv fd A H D w" using assms(1) by (simp add: serving_def)
  have w': "socket_inv fd A H D w'" "socket_run H carries D w w'" "receiver (the (tcp w')) = receiver (the (tcp w))"
    "wtn (sender (the (tcp w'))) = wtn (sender (the (tcp w)))"
    using finish_ok [OF I, of carries] assms(2) by auto
  from w'(1) I show ?thesis
    using assms(1) w' by (auto simp: serving_def socket_inv_def tcp_interest_def receive_room_def write_room_def)
qed

lemma serving_serves:
  assumes "r \<in> set (socket_rules K ops)" and S: "serving K ops fd A H carries D w" and g: "socket_guard r w"
  shows "\<exists>w'. callback r w = Some w' \<and> serving K ops fd A H carries D w' \<and> socket_run H carries D w w' \<and>
    (interest r w' \<longrightarrow> service_count r w' \<noteq> service_count r w)"
proof -
  have C: "kernel_ok K fd H" "adapter_ok ops A H carries" "socket_inv fd A H D w" using S by (simp_all add: serving_def)
  consider "r = receive_rule ops" | "r = outbound_rule K" | "r = inbound_rule K" | "r = send_rule ops"
    using assms(1) by (auto simp: socket_rules_def)
  then show ?thesis
  proof cases
    case 1
    then show ?thesis using receive_ok [OF C(3,2)] g C by (auto simp: serving_def)
  next
    case 2
    then show ?thesis using outbound_ok [OF C(3,1), of carries] g C by (auto simp: serving_def)
  next
    case 3
    then show ?thesis using inbound_ok [OF C(3,1), of carries] C by (auto simp: serving_def)
  next
    case 4
    then show ?thesis using send_ok [OF C(3,2)] C by (auto simp: serving_def)
  qed
qed

lemma rules_undisturbed:
  "sorted_wrt (undisturbed (serving K ops fd A H carries D) socket_guard) (socket_rules K ops)"
proof -
  let ?U = "undisturbed (serving K ops fd A H carries D) socket_guard"
  have rcv: "socket_guard (outbound_rule K) w'"
    if S: "serving K ops fd A H carries D w" and g: "socket_guard (outbound_rule K) w" "socket_guard (receive_rule ops) w"
      and w': "receive_callback ops w = Some w'" for w w'
  proof -
    have "outbound_shutdown w' = outbound_shutdown w \<and> tcp_interest (\<lambda>c'. wtn (sender c') = wtn (sender (the (tcp w)))) w'"
      using receive_ok [of fd A H D w ops carries] S g(2) w' by (auto simp: serving_def)
    with g(1) show ?thesis by (auto simp: tcp_interest_def write_room_def split: option.splits)
  qed
  have fin: "socket_guard (receive_rule ops) w'"
    if "serving K ops fd A H carries D w" "socket_guard (receive_rule ops) w" "finish_outbound w = Some w'" for w w'
    using finish_keeps [OF that(1,3)] that(2) by simp
  have "?U (receive_rule ops) (outbound_rule K)" using rcv fin by (simp only: undisturbed_def rule_fields) blast
  moreover have "?U r (inbound_rule K)" "?U r (send_rule ops)" for r by (simp_all add: undisturbed_def)
  ultimately show ?thesis by (simp add: socket_rules_def)
qed

lemma serving_poll:
  assumes S: "serving K ops fd A H carries D w" and p: "socket_poll K ps t w = (rv, errno, revents, w')"
  shows "length revents = length ps \<and> (\<forall>x \<in> set revents. x AND (POLLERR OR POLLNVAL) = 0) \<and>
    serving K ops fd A H carries D w' \<and> socket_run H carries D w w' \<and>
    (\<forall>r \<in> set (socket_rules K ops). socket_guard r w \<longrightarrow> socket_guard r w')"
proof -
  obtain k where k: "sys_poll K ps t (kernel w) = (rv, errno, revents, k)" "w' = w\<lparr>kernel := k\<rparr>"
    using p by (auto simp: socket_poll_def split: prod.splits)
  have P: "length revents = length ps \<and> (\<forall>x \<in> set revents. x AND (POLLERR OR POLLNVAL) = 0) \<and> unseen H (kernel w) k"
    using S k(1) by (auto simp: serving_def kernel_ok_def split: prod.splits dest!: spec [of _ ps] spec [of _ t] spec [of _ "kernel w"])
  then have "serving K ops fd A H carries D w'" using S k(2) by (auto simp: serving_def socket_inv_def unseen_def)
  moreover have "socket_run H carries D w w'"
    using P k(2) by (intro socket_run_same) (simp_all add: ep_of_def unseen_def)
  moreover have "socket_guard r w \<longrightarrow> socket_guard r w'" for r
    using k(2) by (simp add: socket_guard_def tcp_interest_def)
  ultimately show ?thesis using P by blast
qed

interpretation sock: event_client "socket_rules K ops" "socket_poll K"
  "\<lambda>w. serving K ops fd A H carries D w \<and> with_room w" "serving K ops fd A H carries D" socket_guard "socket_run H carries D"
  "\<lambda>w w'. True" "\<lambda>r w. True" "\<lambda>p w. True"
  for K :: "'k kernel_calls" and ops :: "('a, 'k) adapter" and fd A and H :: "('k, 'd) history" and carries D
proof unfold_locales
  fix r and w :: "('a, 'k) sponge_socket"
  assume r: "r \<in> set (socket_rules K ops)"
  show "\<exists>w'. callback r w = Some w' \<and> serving K ops fd A H carries D w' \<and> socket_run H carries D w w' \<and> True \<and>
      (interest r w' \<longrightarrow> service_count r w' \<noteq> service_count r w)"
    if "serving K ops fd A H carries D w" "socket_guard r w"
    using serving_serves [OF r that] by simp
  show "socket_guard r w" if "serving K ops fd A H carries D w \<and> with_room w" "interest r w"
    using r that by (auto simp: socket_rules_def with_room_def)
      (simp add: outbound_rule_def outbound_interest_def tcp_interest_def split: option.splits)
  have fin: "\<exists>w'. finish_outbound w = Some w' \<and> socket_inv fd A H D w'" if "serving K ops fd A H carries D w"
    using finish_ok [of fd A H D w] that by (auto simp: serving_def)
  show "\<exists>w'. cancel r w = Some w' \<and> serving K ops fd A H carries D w' \<and> socket_run H carries D w w' \<and> True"
    if "serving K ops fd A H carries D w"
    using r that fin finish_keeps [OF that] socket_run_same [of H w w carries D] by (auto simp: socket_rules_def)
  show "\<exists>w'. cancel r w = Some w' \<and> (serving K ops fd A H carries D w' \<and> with_room w') \<and> socket_run H carries D w w' \<and> True"
    if "serving K ops fd A H carries D w \<and> with_room w"
    using r that fin finish_keeps [OF conjunct1 [OF that]] socket_run_same [of H w w carries D]
    by (auto simp: socket_rules_def with_room_def)
next
  show "sorted_wrt (undisturbed (serving K ops fd A H carries D) socket_guard) (socket_rules K ops)"
    by (rule rules_undisturbed)
next
  fix w w' :: "('a, 'k) sponge_socket" and ps t rv errno revents
  assume "serving K ops fd A H carries D w \<and> with_room w" "socket_poll K ps t w = (rv, errno, revents, w')"
  then show "length revents = length ps \<and> (\<forall>x \<in> set revents. x AND (POLLERR OR POLLNVAL) = 0) \<and>
      (\<forall>p \<in> set (zip ps revents). hung (snd (fst p), snd p) \<longrightarrow> True) \<and>
      serving K ops fd A H carries D w' \<and> socket_run H carries D w w' \<and>
      (\<forall>r \<in> set (socket_rules K ops). socket_guard r w \<longrightarrow> socket_guard r w')"
    using serving_poll [of K ops fd A H carries D w ps t] by simp
qed (auto intro: socket_run_trans socket_run_same)

end
