(* ===== verification/Socket_Adapter.thy ===== *)
theory Socket_Adapter
  imports Socket_Relay
begin

text \<open>
  The adapter \<open>TCPOverIPv4OverTunFdAdapter\<close> of \<open>libsponge/tcp_helpers/tuntap_adapter.hh\<close>, on its device, meets what a
  socket expects of an adapter: whatever datagrams arrive it never throws, and what it writes carries the segment.
\<close>

lemma tcp_segment_parse_total:
  assumes "buffer_inv b"
  shows "\<exists>res seg'. tcp_segment_parse b c seg = Some (res, seg') \<and>
    (res = NoError \<longrightarrow> length (buffer_str (payload seg')) \<le> length (buffer_str b))"
proof -
  obtain r h p where p: "tcp_header_parse (np_new b) = Some (r, h, p)"
    "np_track (buffer_str b) (if unat (doff h) < 5 then 20 else 4 * unat (doff h)) p"
    using tcp_header_parse_track [OF np_track_new [OF assms]] by blast
  then show ?thesis by (auto simp: tcp_segment_parse_def Let_def np_track_def np_contents_def split: if_splits)
qed

subsection \<open>What a datagram carries\<close>

definition tun_segment :: "bytes \<Rightarrow> tcp_segment option" where
  "tun_segment bs = (case ipv4_datagram_parse (buffer_new bs) ipv4_datagram_default of
     Some (NoError, d) \<Rightarrow> (case bl_to_buffer (dg_payload d) of
       Some buf \<Rightarrow> (case tcp_segment_parse buf (pseudo_cksum (dg_header d)) tcp_segment_default of
         Some (NoError, seg) \<Rightarrow> Some seg | _ \<Rightarrow> None)
     | None \<Rightarrow> None)
   | _ \<Rightarrow> None)"

definition tun_carries :: "bytes \<Rightarrow> tcp_segment \<Rightarrow> bool" where
  "tun_carries bs seg \<longleftrightarrow> (\<exists>t. tun_segment bs = Some t \<and> same_segment t seg)"

lemma same_segment_refl: "same_segment s s"
  by (simp add: same_segment_def tcp_header_eq_def wi_eq_def)

lemma same_segment_sym: "same_segment s t \<Longrightarrow> same_segment t s"
  by (auto simp: same_segment_def tcp_header_eq_def wi_eq_def)

lemma same_segment_trans: "same_segment s t \<Longrightarrow> same_segment t u \<Longrightarrow> same_segment s u"
  by (auto simp: same_segment_def tcp_header_eq_def wi_eq_def)

lemma tun_carries_same: "tun_carries bs s \<Longrightarrow> tun_carries bs t \<Longrightarrow> same_segment s t"
  by (auto simp: tun_carries_def intro: same_segment_trans same_segment_sym)

lemma unwrap_total:
  assumes net: "numeric_resolver gai gni" and buf: "dg_payload d = [buf]" "buffer_inv buf"
    and ad: "\<not> ad_listen ad" "cfg_source (ad_cfg ad) = inet_address src sp" "cfg_destination (ad_cfg ad) = inet_address dst dp"
  shows "\<exists>x. unwrap_tcp_in_ip gai gni d ad = Some (x, ad) \<and>
    (\<forall>seg. x = Some seg \<longrightarrow> tcp_segment_parse buf (pseudo_cksum (dg_header d)) tcp_segment_default = Some (NoError, seg))"
proof -
  obtain res seg where p: "tcp_segment_parse buf (pseudo_cksum (dg_header d)) tcp_segment_default = Some (res, seg)"
    using tcp_segment_parse_total [OF buf(2)] by blast
  show ?thesis
    using ad buf(1) p address_port_inet [OF net]
    by (simp add: unwrap_tcp_in_ip_def adopt_peer_def bl_to_buffer_def)
qed

lemma tun_read_total:
  assumes net: "numeric_resolver gai gni" and len: "length bs < 2 ^ 63"
    and ad: "\<not> ad_listen ad" "cfg_source (ad_cfg ad) = inet_address src sp" "cfg_destination (ad_cfg ad) = inet_address dst dp"
  shows "\<exists>x. tun_read gai gni bs ad = Some (x, ad) \<and>
    (\<forall>seg. x = Some seg \<longrightarrow> tun_segment bs = Some seg \<and> length (buffer_str (payload seg)) \<le> length bs)"
proof -
  have b: "buffer_inv (buffer_new bs)" "buffer_str (buffer_new bs) = bs" using len by (simp_all add: buffer_inv_new)
  obtain res d where d: "ipv4_datagram_parse (buffer_new bs) ipv4_datagram_default = Some (res, d)"
    "res = NoError \<longrightarrow> (\<exists>buf. dg_payload d = [buf] \<and> buffer_inv buf \<and> length (buffer_str buf) \<le> length bs)"
    using ipv4_datagram_parse_total [OF b(1), of ipv4_datagram_default] b(2) by auto
  show ?thesis
  proof (cases "res = NoError")
    case False
    with d(1) show ?thesis by (simp add: tun_read_def)
  next
    case True
    then obtain buf where buf: "dg_payload d = [buf]" "buffer_inv buf" "length (buffer_str buf) \<le> length bs" using d(2) by blast
    obtain x where x: "unwrap_tcp_in_ip gai gni d ad = Some (x, ad)"
      "\<forall>seg. x = Some seg \<longrightarrow> tcp_segment_parse buf (pseudo_cksum (dg_header d)) tcp_segment_default = Some (NoError, seg)"
      using unwrap_total [OF net buf(1,2) ad] by blast
    have "tun_segment bs = Some seg \<and> length (buffer_str (payload seg)) \<le> length bs" if "x = Some seg" for seg
    proof -
      have p: "tcp_segment_parse buf (pseudo_cksum (dg_header d)) tcp_segment_default = Some (NoError, seg)" using x(2) that by simp
      with tcp_segment_parse_total [OF buf(2), of "pseudo_cksum (dg_header d)" tcp_segment_default] buf(3)
      have "length (buffer_str (payload seg)) \<le> length bs" by auto
      moreover have "tun_segment bs = Some seg" using d(1) True buf(1) p by (simp add: tun_segment_def bl_to_buffer_def)
      ultimately show ?thesis by simp
    qed
    with d(1) True x(1) show ?thesis by (simp add: tun_read_def)
  qed
qed

lemma sendable_fits: "sendable_segment seg \<Longrightarrow> ip_fits seg"
  by (simp add: sendable_segment_def ip_fits_def tcp_header_valid_def)

text \<open>What the adapter writes: a datagram of at most 1060 bytes that carries the segment.\<close>

lemma tun_write_carries:
  assumes net: "ip_config gai gni src sp dst dp ad" and s: "sendable_segment seg"
  shows "\<exists>seg' bl. tun_write gni seg ad = Some (seg', bl) \<and> tun_carries (bl_concatenate bl) seg \<and>
    0 < length (bl_concatenate bl) \<and> length (bl_concatenate bl) < 2 ^ 16"
proof -
  have n: "numeric_resolver gai gni" "cfg_source (ad_cfg ad) = inet_address src sp" "cfg_destination (ad_cfg ad) = inet_address dst dp"
    using net by (simp_all add: ip_config_def)
  define b where "b = bound_to src sp dst dp ad"
  have b: "reads_from src sp dst dp seg b" by (simp add: reads_from_def b_def bound_to_def)
  obtain bl seg' where w: "tun_write gni seg ad = Some (with_ports sp dp seg, bl)"
    "tun_read gai gni (bl_concatenate bl) b = Some (Some seg', bound_to src sp dst dp b)" "same_segment seg' seg"
    using tun_delivers [OF n(1) sendable_fits [OF s] n(2,3) b] by blast
  obtain d where d: "wrap_tcp_in_ip gni seg ad = Some (with_ports sp dp seg, d)" "ipv4_datagram_valid d"
    by (rule wrap_ok [OF n(1) sendable_fits [OF s] n(2,3)])
  obtain bl' h where "ipv4_datagram_serialize d = Some bl'" "length (bl_concatenate bl') = unat (ip_len (dg_header d))"
    by (rule ipv4_datagram_parse_own [OF d(2)])
  then have "length (bl_concatenate bl) = unat (ip_len (dg_header d))" using w(1) d(1) by (simp add: tun_write_def)
  then have len: "0 < length (bl_concatenate bl)" "length (bl_concatenate bl) < 2 ^ 16"
    using d(2) unat_u16_less [of "ip_len (dg_header d)"] by (auto simp: ipv4_datagram_valid_def ipv4_header_valid_def)
  obtain x where "tun_read gai gni (bl_concatenate bl) b = Some (x, b)" "\<forall>seg. x = Some seg \<longrightarrow> tun_segment (bl_concatenate bl) = Some seg"
    using tun_read_total [OF n(1), of "bl_concatenate bl" b dst dp src sp] len(2) by (auto simp: b_def)
  with w len show ?thesis by (auto simp: tun_carries_def)
qed

subsection \<open>The adapter on its device\<close>

text \<open>
  The documented behaviour of a TUN device, the descriptor \<open>dev\<close>, when no call fails: a read takes one datagram
  that has arrived, a write sends its bytes as one datagram.
\<close>

definition tun_device_ok :: "'k sys_read \<Rightarrow> 'k sys_writev \<Rightarrow> int \<Rightarrow> ('k, bytes) history \<Rightarrow> bool" where
  "tun_device_ok read writev dev H \<longleftrightarrow>
     (\<forall>n k. case read dev n k of (rv, errno, bs, k') \<Rightarrow>
        0 \<le> sint rv \<and> sint rv \<le> uint n \<and> unseen H k k' \<and>
        (0 < sint rv \<longrightarrow> take (nat (sint rv)) bs \<in> arriving H k)) \<and>
     (\<forall>iov k. 0 < length (concat iov) \<longrightarrow> length (concat iov) < 2 ^ 31 \<longrightarrow> (case writev dev iov k of (rv, errno, k') \<Rightarrow>
        rv = of_nat (length (concat iov)) \<and> from_owner H k' = from_owner H k \<and> to_owner H k' = to_owner H k \<and>
        datagrams H k' = datagrams H k @ [concat iov] \<and> arriving H k' = arriving H k))"

text \<open>The adapter of an open connection: it does not listen, and its two addresses are IPv4 addresses.\<close>

definition tun_state :: "getaddrinfo \<Rightarrow> getnameinfo \<Rightarrow> int \<Rightarrow> fd_adapter_on \<Rightarrow> bool" where
  "tun_state gai gni dev a \<longleftrightarrow> fd_num (device a) = dev \<and> \<not> ad_listen (base a) \<and>
     (\<exists>src sp dst dp. ip_config gai gni src sp dst dp (base a))"

lemma tun_device_okD:
  assumes "tun_device_ok read writev dev H"
  shows "read dev n k = (rv, errno, bs, k') \<Longrightarrow> 0 \<le> sint rv \<and> sint rv \<le> uint n \<and> unseen H k k' \<and>
      (0 < sint rv \<longrightarrow> take (nat (sint rv)) bs \<in> arriving H k)"
    and "writev dev iov k = (rv, errno, k') \<Longrightarrow> 0 < length (concat iov) \<Longrightarrow> length (concat iov) < 2 ^ 31 \<Longrightarrow>
      rv = of_nat (length (concat iov)) \<and> from_owner H k' = from_owner H k \<and> to_owner H k' = to_owner H k \<and>
      datagrams H k' = datagrams H k @ [concat iov] \<and> arriving H k' = arriving H k"
  using assms [unfolded tun_device_ok_def, THEN conjunct1, rule_format, of n k]
    assms [unfolded tun_device_ok_def, THEN conjunct2, rule_format, of iov k] by simp_all

lemma tun_read_ok:
  assumes dev: "tun_device_ok read writev dev H" and a: "tun_state gai gni dev a"
  shows "\<exists>x a' k'. ops_read (tun_adapter read writev gai gni) a k = Some (x, a', k') \<and> tun_state gai gni dev a' \<and> unseen H k k' \<and>
    read_count (device a') \<noteq> read_count (device a) \<and>
    (\<forall>seg. x = Some seg \<longrightarrow> length (buffer_str (payload seg)) < 2 ^ 63 \<and> (\<exists>d \<in> arriving H k. tun_carries d seg))"
proof -
  have lim: "min 1048576 (- 1) = (1048576 :: u64)" by (simp add: min_def)
  obtain rv errno bs k' where r: "read (fd_num (device a)) 1048576 k = (rv, errno, bs, k')" by (metis prod_cases4)
  let ?bs = "take (nat (sint rv)) bs"
  have R: "0 \<le> sint rv" "sint rv \<le> 1048576" "unseen H k k'" "0 < sint rv \<longrightarrow> ?bs \<in> arriving H k"
    using tun_device_okD(1) [OF dev, of 1048576 k] a r by (simp_all add: tun_state_def)
  obtain fd' where f: "fd_read read (- 1) (device a) k = Some (?bs, fd', k')" "fd_num fd' = fd_num (device a)"
    "read_count fd' = read_count (device a) + 1"
    using fd_read_value(1) [of read "device a" "- 1" k, unfolded lim, OF r] R(1,2) by (simp add: register_read_def)
  have len: "length ?bs \<le> 1048576" using R(2) by (simp add: nat_le_iff)
  obtain src sp dst dp where c: "ip_config gai gni src sp dst dp (base a)" using a by (auto simp: tun_state_def)
  obtain x where x: "tun_read gai gni ?bs (base a) = Some (x, base a)"
    "\<forall>seg. x = Some seg \<longrightarrow> tun_segment ?bs = Some seg \<and> length (buffer_str (payload seg)) \<le> length ?bs"
    using tun_read_total [of gai gni ?bs "base a" src sp dst dp] len a c by (auto simp: tun_state_def ip_config_def)
  have "?bs \<in> arriving H k \<and> tun_carries ?bs seg" if "x = Some seg" for seg
  proof -
    have "tun_segment [] = None"
      by (simp add: tun_segment_def ipv4_datagram_parse_def ipv4_header_parse_def Let_def np_new_def buffer_new_def buffer_sz_def
          buffer_str_def size64_def IPv4_LENGTH_def bl_of_buffer_def bl_size_def ipv4_datagram_default_def ipv4_header_default_def payload_length_def)
    then have "?bs \<noteq> []" using x(2) that by auto
    then have "0 < sint rv" by (cases "sint rv = 0") (use R(1) in auto)
    then show ?thesis using R(4) x(2) that by (auto simp: tun_carries_def same_segment_refl)
  qed
  then show ?thesis
    using f x len a R(3) by (auto simp: tun_adapter_def tun_state_def)
qed

lemma tun_write_ok:
  assumes dev: "tun_device_ok read writev dev H" and a: "tun_state gai gni dev a" and s: "sendable_segment seg"
  shows "\<exists>a' k' d. ops_write (tun_adapter read writev gai gni) seg a k = Some (a', k') \<and> tun_state gai gni dev a' \<and>
    from_owner H k' = from_owner H k \<and> to_owner H k' = to_owner H k \<and>
    datagrams H k' = datagrams H k @ [d] \<and> arriving H k' = arriving H k \<and> tun_carries d seg"
proof -
  obtain src sp dst dp where c: "ip_config gai gni src sp dst dp (base a)" using a by (auto simp: tun_state_def)
  obtain seg' bl where w: "tun_write gni seg (base a) = Some (seg', bl)" "tun_carries (bl_concatenate bl) seg"
    "0 < length (bl_concatenate bl)" "length (bl_concatenate bl) < 2 ^ 16"
    using tun_write_carries [OF c s] by blast
  let ?iov = "bvl_of_buffer_list bl"
  have cat: "concat ?iov = bl_concatenate bl" by (simp add: bvl_of_buffer_list_eq bl_concatenate_eq)
  obtain rv errno k' where v: "writev (fd_num (device a)) ?iov k = (rv, errno, k')" by (metis prod_cases3)
  have V: "rv = of_nat (length (concat ?iov))" "from_owner H k' = from_owner H k" "to_owner H k' = to_owner H k"
    "datagrams H k' = datagrams H k @ [concat ?iov]" "arriving H k' = arriving H k"
    using tun_device_okD(2) [OF dev, of ?iov k] a v w(3,4) cat by (simp_all add: tun_state_def del: length_greater_0_conv)
  have "fd_write writev True ?iov 0 (device a) k = Some (0 + of_nat (length (concat ?iov)), register_write (device a), k')"
    using v V(1) w(3,4) cat by (intro fd_write_whole) simp_all
  then have "ops_write (tun_adapter read writev gai gni) seg a k = Some (a\<lparr>device := register_write (device a)\<rparr>, k')"
    using w(1) by (simp add: tun_adapter_def)
  moreover have "tun_state gai gni dev (a\<lparr>device := register_write (device a)\<rparr>)"
    using a by (simp add: tun_state_def register_write_def)
  ultimately show ?thesis using V w(2) cat by (intro exI conjI) (assumption | simp)+
qed

lemma tun_adapter_ok:
  assumes "tun_device_ok read writev dev H"
  shows "adapter_ok (tun_adapter read writev gai gni) (tun_state gai gni dev) H tun_carries"
proof -
  have "ops_fd (tun_adapter read writev gai gni) = device"
    "ops_tick (tun_adapter read writev gai gni) = (\<lambda>ms a k. Some (a, k))" by (simp_all add: tun_adapter_def)
  moreover have "unseen H k k" for k by (simp add: unseen_def)
  ultimately show ?thesis
    unfolding adapter_ok_def using tun_carries_same tun_read_ok [OF assms] tun_write_ok [OF assms] by simp
qed

end
