(* ===== verification/Socket_Network.thy ===== *)
theory Socket_Network
  imports Socket_Adapter TCP_Lifecycle
begin

unbundle bit_operations_syntax

text \<open>
  Two hosts, each with a \<open>TCPSpongeSocket\<close>, its owner and its kernel, and a network between them that may lose,
  repeat, delay and reorder datagrams. Every step of a host is a run of one endpoint of \<open>TCP_Network\<close>.
\<close>

subsection \<open>One host\<close>

record ('a, 'k, 'd) host =
  calls :: "'k kernel_calls"
  adapter_ops :: "('a, 'k) adapter"
  owner_fd :: int
  adapter_good :: "'a \<Rightarrow> bool"
  hist :: "('k, 'd) history"

type_synonym ('a, 'k) running = "('a, 'k) sponge_socket rule list \<times> ('a, 'k) sponge_socket"

definition host_ok :: "('d \<Rightarrow> tcp_segment \<Rightarrow> bool) \<Rightarrow> ('a, 'k, 'd) host \<Rightarrow> bool" where
  "host_ok carries h \<longleftrightarrow> kernel_ok (calls h) (owner_fd h) (hist h) \<and> adapter_ok (adapter_ops h) (adapter_good h) (hist h) carries"

lemma host_ok_same: "host_ok carries h \<Longrightarrow> carries d s \<Longrightarrow> carries d t \<Longrightarrow> same_segment s t"
  using adapter_okD(1) [of "adapter_ops h" "adapter_good h" "hist h" carries d s t] by (simp add: host_ok_def)

text \<open>The socket is open: the connection has sent its SYN, the loop holds the rules that are not cancelled.\<close>

definition running_ok :: "('a, 'k, 'd) host \<Rightarrow> ('a, 'k) running \<Rightarrow> bool" where
  "running_ok h s \<longleftrightarrow> subseq (fst s) (socket_rules (calls h) (adapter_ops h)) \<and>
     socket_inv (owner_fd h) (adapter_good h) (hist h) UNIV (snd s)"

text \<open>
  The thread goes through its loop, and in between the kernel, the owner and the network act. What can arrive
  during a pass are datagrams of \<open>D\<close>.
\<close>

inductive host_step :: "('a, 'k, 'd) host \<Rightarrow> 'd set \<Rightarrow> ('a, 'k) running \<Rightarrow> ('a, 'k) running \<Rightarrow> bool" for h D where
  host_pass: "with_room w \<Longrightarrow> arriving (hist h) (kernel w) \<subseteq> D \<Longrightarrow> loop_pass (calls h) rules w = Some (res, rules', w') \<Longrightarrow>
    host_step h D (rules, w) (rules', w')"
| host_tick: "arriving (hist h) (kernel w) \<subseteq> D \<Longrightarrow> tick_pass (calls h) (adapter_ops h) base_time w = Some (t, w') \<Longrightarrow>
    host_step h D (rules, w) (rules, w')"
| host_world: "from_owner (hist h) k = from_owner (hist h) (kernel w) \<Longrightarrow> to_owner (hist h) k = to_owner (hist h) (kernel w) \<Longrightarrow>
    datagrams (hist h) k = datagrams (hist h) (kernel w) \<Longrightarrow> host_step h D (rules, w) (rules, w\<lparr>kernel := k\<rparr>)"

lemma socket_inv_narrow: "socket_inv fd A H UNIV w \<Longrightarrow> arriving H (kernel w) \<subseteq> D \<Longrightarrow> socket_inv fd A H D w"
  by (simp add: socket_inv_def)

lemma socket_inv_widen: "socket_inv fd A H D w \<Longrightarrow> socket_inv fd A H UNIV w"
  by (simp add: socket_inv_def)

text \<open>An open socket on a kernel whose calls succeed gets through a pass of its loop, and refines the endpoint.\<close>

lemma loop_pass_ok:
  assumes "host_ok carries h" and "running_ok h (rules, w)" and "arriving (hist h) (kernel w) \<subseteq> D" and "with_room w"
  shows "\<exists>res rules' w'. loop_pass (calls h) rules w = Some (res, rules', w') \<and> subseq rules' rules \<and>
    running_ok h (rules', w') \<and> socket_run (hist h) carries D w w'"
proof -
  let ?S = "serving (calls h) (adapter_ops h) (owner_fd h) (adapter_good h) (hist h) carries D"
  have rs: "subseq rules (socket_rules (calls h) (adapter_ops h))" using assms(2) by (simp add: running_ok_def)
  have "?S w" using assms(1-3) by (simp add: serving_def host_ok_def running_ok_def socket_inv_narrow)
  with sock.wait_ok [OF rs, of "owner_fd h" "adapter_good h" "hist h" carries D w TCP_TICK_MS] assms(4)
  obtain res rules' w' where r: "loop_pass (calls h) rules w = Some (res, rules', w')" "subseq rules' rules" "?S w'"
    "socket_run (hist h) carries D w w'"
    by (auto simp: loop_pass_def)
  have "subseq rules' (socket_rules (calls h) (adapter_ops h))" using r(2) rs by (rule subseq_order.order_trans)
  moreover have "socket_inv (owner_fd h) (adapter_good h) (hist h) UNIV w'"
    using r(3) socket_inv_widen unfolding serving_def by blast
  ultimately show ?thesis using r by (auto simp: running_ok_def)
qed

lemma host_step_run:
  assumes "host_step h D s s'" and ok: "host_ok carries h" and "running_ok h s"
  shows "running_ok h s' \<and> socket_run (hist h) carries D (snd s) (snd s')"
  using assms(1,3)
proof (induction rule: host_step.induct)
  case (host_pass w rules res rules' w')
  then show ?case using loop_pass_ok [OF ok host_pass(4,2,1)] by auto
next
  case (host_tick w base_time t w' rules)
  have "socket_inv (owner_fd h) (adapter_good h) (hist h) D w"
    using host_tick(1,3) by (simp add: running_ok_def socket_inv_narrow)
  from tick_ok [OF this, of "calls h" "adapter_ops h" carries base_time] ok host_tick(2)
  have "socket_inv (owner_fd h) (adapter_good h) (hist h) D w' \<and> socket_run (hist h) carries D w w'"
    by (auto simp: host_ok_def)
  then show ?case using host_tick(3) by (auto simp: running_ok_def intro: socket_inv_widen)
next
  case (host_world k w rules)
  have "socket_run (hist h) carries D w (w\<lparr>kernel := k\<rparr>)"
    using host_world(1-3) by (intro socket_run_same) (simp_all add: ep_of_def)
  then show ?case using host_world(4) by (simp add: running_ok_def socket_inv_def)
qed

subsection \<open>Two hosts\<close>

inductive hosts_step :: "('a, 'k, 'd) host \<Rightarrow> ('a, 'k, 'd) host \<Rightarrow> ('a, 'k) running \<times> ('a, 'k) running \<Rightarrow>
    ('a, 'k) running \<times> ('a, 'k) running \<Rightarrow> bool" for h1 h2 where
  left_host: "host_step h1 (set (datagrams (hist h2) (kernel (snd s2)))) s1 s1' \<Longrightarrow> hosts_step h1 h2 (s1, s2) (s1', s2)"
| right_host: "host_step h2 (set (datagrams (hist h1) (kernel (snd s1)))) s2 s2' \<Longrightarrow> hosts_step h1 h2 (s1, s2) (s1, s2')"

text \<open>The network of connections behind two hosts; every datagram sent carries a segment of the network.\<close>

definition behind :: "('d \<Rightarrow> tcp_segment \<Rightarrow> bool) \<Rightarrow> ('a, 'k, 'd) host \<Rightarrow> ('a, 'k, 'd) host \<Rightarrow>
    ('a, 'k) running \<times> ('a, 'k) running \<Rightarrow> network \<Rightarrow> bool" where
  "behind carries h1 h2 s n \<longleftrightarrow>
     left n = ep_of (hist h1) (snd (fst s)) \<and> right n = ep_of (hist h2) (snd (snd s)) \<and>
     (\<forall>d \<in> set (datagrams (hist h1) (kernel (snd (fst s)))). \<exists>seg \<in> from_left n. carries d seg) \<and>
     (\<forall>d \<in> set (datagrams (hist h2) (kernel (snd (snd s)))). \<exists>seg \<in> from_right n. carries d seg)"

lemma ep_step_widen:
  assumes "ep_step inn e out e'" and "\<forall>s \<in> inn. \<exists>t \<in> inn'. same_segment s t"
  shows "ep_step inn' e out e'"
  using assms
proof (induction rule: ep_step.induct)
  case (ep_receive s seg e c)
  then obtain t where "t \<in> inn'" "same_segment s t" by blast
  with ep_receive show ?case by (intro ep_step.ep_receive [of t]) (auto intro: same_segment_trans)
qed (auto intro: ep_step.intros)

lemma net_run_left:
  assumes "ep_run inn e out e'" and "\<forall>s \<in> inn. \<exists>t \<in> from_right n. same_segment s t" and "left n = e"
  shows "net_step\<^sup>*\<^sup>* n (n\<lparr>left := e', from_left := from_left n \<union> set out\<rparr>)"
  using assms
proof (induction rule: ep_run.induct)
  case (ep_run_snoc e out e' out' e'')
  let ?n = "n\<lparr>left := e', from_left := from_left n \<union> set out\<rparr>"
  have "ep_step (from_right ?n) (left ?n) out' e''" using ep_step_widen [OF ep_run_snoc.hyps(2)] ep_run_snoc.prems(1) by simp
  from step_left [OF this] ep_run_snoc.IH [OF ep_run_snoc.prems] show ?case by (simp add: Un_assoc rtranclp.rtrancl_into_rtrancl)
qed (cases n, simp)

lemma net_run_right:
  assumes "ep_run inn e out e'" and "\<forall>s \<in> inn. \<exists>t \<in> from_left n. same_segment s t" and "right n = e"
  shows "net_step\<^sup>*\<^sup>* n (n\<lparr>right := e', from_right := from_right n \<union> set out\<rparr>)"
  using assms
proof (induction rule: ep_run.induct)
  case (ep_run_snoc e out e' out' e'')
  let ?n = "n\<lparr>right := e', from_right := from_right n \<union> set out\<rparr>"
  have "ep_step (from_left ?n) (right ?n) out' e''" using ep_step_widen [OF ep_run_snoc.hyps(2)] ep_run_snoc.prems(1) by simp
  from step_right [OF this] ep_run_snoc.IH [OF ep_run_snoc.prems] show ?case by (simp add: Un_assoc rtranclp.rtrancl_into_rtrancl)
qed (cases n, simp)

lemma carried_cover:
  assumes "\<And>d s t. carries d s \<Longrightarrow> carries d t \<Longrightarrow> same_segment s t" and "\<forall>d \<in> D. \<exists>seg \<in> sent. carries d seg"
  shows "\<forall>s \<in> {s. \<exists>d \<in> D. carries d s}. \<exists>t \<in> sent. same_segment s t"
proof
  fix s
  assume "s \<in> {s. \<exists>d \<in> D. carries d s}"
  then obtain d where d: "d \<in> D" "carries d s" by blast
  with assms(2) obtain t where t: "t \<in> sent" "carries d t" by blast
  then show "\<exists>t \<in> sent. same_segment s t" using assms(1) [OF d(2) t(2)] by blast
qed

lemma carried_grow:
  assumes "\<forall>d \<in> set ds0. \<exists>seg \<in> sent. carries d seg" and "list_all2 carries ds out" and "ds1 = ds0 @ ds"
  shows "\<forall>d \<in> set ds1. \<exists>seg \<in> sent \<union> set out. carries d seg"
proof -
  have "\<exists>seg \<in> set out. carries d seg" if "d \<in> set ds" for d
    using assms(2) that by (induction ds out rule: list_all2_induct) auto
  then show ?thesis using assms(1,3) by auto
qed

lemma behind_step:
  assumes "hosts_step h1 h2 s s'" and ok: "host_ok carries h1" "host_ok carries h2"
    and "running_ok h1 (fst s)" and "running_ok h2 (snd s)" and "behind carries h1 h2 s n"
  shows "running_ok h1 (fst s') \<and> running_ok h2 (snd s') \<and> (\<exists>n'. net_step\<^sup>*\<^sup>* n n' \<and> behind carries h1 h2 s' n')"
  using assms(1,4-)
proof (induction rule: hosts_step.induct)
  case (left_host s2 s1 s1')
  let ?D = "set (datagrams (hist h2) (kernel (snd s2)))"
  have r: "running_ok h1 s1'" "socket_run (hist h1) carries ?D (snd s1) (snd s1')"
    using host_step_run [OF left_host(1) ok(1)] left_host(2) by auto
  obtain out ds where o: "ep_run {s. \<exists>d \<in> ?D. carries d s} (left n) out (ep_of (hist h1) (snd s1'))"
    "datagrams (hist h1) (kernel (snd s1')) = datagrams (hist h1) (kernel (snd s1)) @ ds" "list_all2 carries ds out"
    using r(2) left_host(4) by (auto simp: socket_run_def behind_def)
  have same: "carries d s \<Longrightarrow> carries d t \<Longrightarrow> same_segment s t" for d s t
    using host_ok_same [OF ok(1)] .
  let ?n = "n\<lparr>left := ep_of (hist h1) (snd s1'), from_left := from_left n \<union> set out\<rparr>"
  have "net_step\<^sup>*\<^sup>* n ?n"
    using left_host(4) by (intro net_run_left [OF o(1) carried_cover [OF same]]) (simp_all add: behind_def)
  moreover have "behind carries h1 h2 (s1', s2) ?n"
    using left_host(4) carried_grow [OF _ o(3,2)] by (simp add: behind_def)
  ultimately show ?case using r(1) left_host(3) by auto
next
  case (right_host s1 s2 s2')
  let ?D = "set (datagrams (hist h1) (kernel (snd s1)))"
  have r: "running_ok h2 s2'" "socket_run (hist h2) carries ?D (snd s2) (snd s2')"
    using host_step_run [OF right_host(1) ok(2)] right_host(3) by auto
  obtain out ds where o: "ep_run {s. \<exists>d \<in> ?D. carries d s} (right n) out (ep_of (hist h2) (snd s2'))"
    "datagrams (hist h2) (kernel (snd s2')) = datagrams (hist h2) (kernel (snd s2)) @ ds" "list_all2 carries ds out"
    using r(2) right_host(4) by (auto simp: socket_run_def behind_def)
  have same: "carries d s \<Longrightarrow> carries d t \<Longrightarrow> same_segment s t" for d s t
    using host_ok_same [OF ok(2)] .
  let ?n = "n\<lparr>right := ep_of (hist h2) (snd s2'), from_right := from_right n \<union> set out\<rparr>"
  have "net_step\<^sup>*\<^sup>* n ?n"
    using right_host(4) by (intro net_run_right [OF o(1) carried_cover [OF same]]) (simp_all add: behind_def)
  moreover have "behind carries h1 h2 (s1, s2') ?n"
    using right_host(4) carried_grow [OF _ o(3,2)] by (simp add: behind_def)
  ultimately show ?case using r(1) right_host(2) by auto
qed

lemma behind_run:
  assumes "(hosts_step h1 h2)\<^sup>*\<^sup>* s s'" and "host_ok carries h1" "host_ok carries h2"
    and "running_ok h1 (fst s)" "running_ok h2 (snd s)" "behind carries h1 h2 s n"
  shows "running_ok h1 (fst s') \<and> running_ok h2 (snd s') \<and> (\<exists>n'. net_step\<^sup>*\<^sup>* n n' \<and> behind carries h1 h2 s' n')"
  using assms(1)
proof (induction rule: rtranclp_induct)
  case base
  then show ?case using assms(4-6) by blast
next
  case (step s1 s2)
  then obtain n1 where n1: "running_ok h1 (fst s1)" "running_ok h2 (snd s1)" "net_step\<^sup>*\<^sup>* n n1" "behind carries h1 h2 s1 n1" by blast
  from behind_step [OF step(2) assms(2,3) n1(1,2,4)] n1(3) show ?case by (meson rtranclp_trans)
qed

subsection \<open>A socket that connects\<close>

lemma relay_connect:
  assumes "config_ok config"
  shows "\<exists>c. connect (conn_new config random) = Some c \<and> conn_relays 0 False c"
proof -
  let ?c = "conn_new config random"
  have inv: "conn_inv ?c" using assms by (intro conn_inv_new) (simp_all add: config_ok_def)
  then have "carrying 0 False (sender ?c)"
    by (simp add: conn_inv_def conn_holds_def carrying_def) (simp add: conn_new_def snd_new_def bs_new_def input_ended_def bytes_written_def)
  from carrying_fill [OF this] obtain s where s: "fill_window (sender ?c) = Some s" "relays 0 False s" by blast
  have "conn_relays 0 False (?c\<lparr>sender := s\<rparr>)" using inv s(2) by (simp add: conn_inv_def conn_holds_def conn_new_def)
  from relay.holds_send [OF this] s(1) show ?thesis by (auto simp: connect_def with_sender_def)
qed

lemma syn_sent_state:
  assumes "next_seqno s = 1" and "abs_ackno s = 0" and "snd_stream s = bs_new cap"
  shows "conn_state (half_open config random s (rcv_new c) out) = tcp_state_of_name SYN_SENT"
  using assms
  by (simp add: conn_state_def half_open_def conn_new_def tcp_state_summary_def active_def mk_state_def
      sender_summary_def receiver_summary_def bytes_in_flight_def next_seqno_absolute_def rcv_ackno_def)
    (simp add: bs_new_def bs_error_def bs_eof_def input_ended_def rcv_stream_out_def rcv_new_def ra_new_def)

lemma connect_syn_sent:
  assumes "config_ok config" and "connect (conn_new config random) = Some c"
  shows "tcp_state_eq (conn_state c) (tcp_state_of_name SYN_SENT)"
    and "active c" and "remaining_outbound_capacity c = send_capacity config"
proof -
  have "0 < unat (send_capacity config)" "unat (send_capacity config) < 2 ^ 63" using assms(1) by (simp_all add: config_ok_def)
  from opens_new [OF this] obtain isn s where s: "opens (sender (conn_new config random)) isn s"
    by (fastforce simp: conn_new_def)
  then have n: "next_seqno (s\<lparr>segments_out := []\<rparr>) = 1" "abs_ackno (s\<lparr>segments_out := []\<rparr>) = 0"
    "snd_stream (s\<lparr>segments_out := []\<rparr>) = bs_new (send_capacity config)"
    by (simp_all add: opens_def conn_new_def snd_new_def)
  have c: "c = half_open config random (s\<lparr>segments_out := []\<rparr>) (rcv_new (recv_capacity config)) [syn_segment isn]"
    using half_open_connect [OF s] assms(2) by simp
  show "tcp_state_eq (conn_state c) (tcp_state_of_name SYN_SENT)"
    using syn_sent_state [OF n] c by (simp add: tcp_state_eq_def)
  show "active c" "remaining_outbound_capacity c = send_capacity config"
    using n(3) by (simp_all add: c half_open_def conn_new_def active_def remaining_outbound_capacity_def bs_new_def remaining_capacity_def)
qed

text \<open>
  \<open>connect\<close> gets as far as the loop: the socket is open, and its connection is that of an endpoint which has
  connected.
\<close>

lemma connect_opens:
  assumes ok: "host_ok carries h" "config_ok config"
    and w: "tcp w = None" "fd_num (thread_data w) = owner_fd h" "\<not> outbound_shutdown w"
      "adapter_good h (ops_config (adapter_ops h) c_ad (datagram_adapter w))"
      "from_owner (hist h) (kernel w) = []" "to_owner (hist h) (kernel w) = []"
  shows "\<exists>c. connect (conn_new config random) = Some c \<and>
    (let rules = socket_rules (calls h) (adapter_ops h);
         w' = w\<lparr>datagram_adapter := ops_config (adapter_ops h) c_ad (datagram_adapter w), tcp := Some c\<rparr>
     in running_ok h (rules, w') \<and> ep_of (hist h) w' = (endpoint_new config random)\<lparr>conn := c\<rparr> \<and>
        socket_connect (calls h) (adapter_ops h) config random c_ad [] w =
          tcp_loop (calls h) (adapter_ops h) (in_state SYN_SENT) rules w')"
proof -
  obtain c where c: "connect (conn_new config random) = Some c" "conn_relays 0 False c" using relay_connect [OF ok(2)] by blast
  let ?w = "w\<lparr>datagram_adapter := ops_config (adapter_ops h) c_ad (datagram_adapter w), tcp := Some c\<rparr>"
  have "running_ok h (socket_rules (calls h) (adapter_ops h), ?w)"
    using w c(2) by (auto simp: running_ok_def socket_inv_def)
  moreover have "ep_of (hist h) ?w = (endpoint_new config random)\<lparr>conn := c\<rparr>"
    using w by (simp add: ep_of_def endpoint_new_def)
  moreover have "socket_connect (calls h) (adapter_ops h) config random c_ad [] w =
      tcp_loop (calls h) (adapter_ops h) (in_state SYN_SENT) (socket_rules (calls h) (adapter_ops h)) ?w"
    using connect_syn_sent(1) [OF ok(2) c(1)] w(1) c(1) by (simp add: socket_connect_def initialize_TCP_eq Let_def in_state_def tcp_interest_def)
  ultimately show ?thesis using c(1) by (intro exI [of _ c]) (simp add: Let_def)
qed

subsection \<open>A plain kernel\<close>

text \<open>
  A kernel in which every call succeeds: descriptor 3 is the pipe to the owner, the others are one TUN device; \<open>poll\<close>
  reports what it is asked about for the entries that are \<open>ready\<close>.
\<close>

record plain_kernel =
  unread :: bytes
  taken_in :: bytes
  passed_on :: bytes
  on_wire :: "bytes list"
  outbox :: "bytes list"

definition plain_read :: "plain_kernel sys_read" where
  "plain_read fd n k =
     (if fd = 3
      then let bs = take (min (unat n) 1048576) (unread k)
           in (of_nat (length bs), 0, bs, k\<lparr>unread := drop (length bs) (unread k), taken_in := taken_in k @ bs\<rparr>)
      else case on_wire k of
             [] \<Rightarrow> (0, 0, [], k)
           | d # ds \<Rightarrow> if length d \<le> min (unat n) 1048576 then (of_nat (length d), 0, d, k\<lparr>on_wire := ds\<rparr>) else (0, 0, [], k))"

definition plain_writev :: "plain_kernel sys_writev" where
  "plain_writev fd iov k =
     (if fd = 3
      then let bs = take 1048576 (concat iov) in (of_nat (length bs), 0, k\<lparr>passed_on := passed_on k @ bs\<rparr>)
      else (of_nat (length (concat iov)), 0, k\<lparr>outbox := outbox k @ [concat iov]\<rparr>))"

definition plain_calls :: "(nat \<Rightarrow> bool) \<Rightarrow> plain_kernel kernel_calls" where
  "plain_calls ready = \<lparr>sys_read = plain_read, sys_writev = plain_writev, sys_shutdown = (\<lambda>fd how k. (0, 0, k)),
     sys_poll = (\<lambda>ps t k. (1, 0, map (\<lambda>(i, p). if ready i then snd p AND (POLLIN OR POLLOUT) else 0) (enumerate 0 ps), k)),
     timestamp_ms = (\<lambda>k. (0, k)), abort_flag = (\<lambda>k. False)\<rparr>"

definition plain_history :: "(plain_kernel, bytes) history" where
  "plain_history = \<lparr>from_owner = taken_in, to_owner = passed_on, datagrams = outbox, arriving = (\<lambda>k. set (on_wire k))\<rparr>"

definition plain_ops :: "(fd_adapter_on, plain_kernel) adapter" where
  "plain_ops = tun_adapter plain_read plain_writev plain_getaddrinfo plain_getnameinfo"

definition plain_host :: "(nat \<Rightarrow> bool) \<Rightarrow> (fd_adapter_on, plain_kernel, bytes) host" where
  "plain_host ready = \<lparr>calls = plain_calls ready, adapter_ops = plain_ops,
     owner_fd = 3, adapter_good = tun_state plain_getaddrinfo plain_getnameinfo 4, hist = plain_history\<rparr>"

lemma sint_length:
  assumes "length xs < 2 ^ 31"
  shows "sint (of_nat (length xs) :: 64 word) = int (length xs)"
  using assms by (simp add: sint_uint signed_take_bit_int_eq_self unsigned_of_nat take_bit_nat_eq_self)

lemma uint_bound: "m \<le> unat n \<Longrightarrow> int m \<le> uint n"
  by (simp only: uint_nat of_nat_le_iff)

lemma plain_reads: "reads_through plain_read 3 taken_in"
proof -
  have "case plain_read 3 n k of (rv, errno, bs, k') \<Rightarrow> 0 \<le> sint rv \<and> sint rv \<le> uint n \<and> nat (sint rv) \<le> length bs \<and>
      taken_in k' = taken_in k @ take (nat (sint rv)) bs" for n k
  proof -
    define bs where "bs = take (min (unat n) 1048576) (unread k)"
    have l: "length bs < 2 ^ 31" "length bs \<le> unat n" by (simp_all add: bs_def)
    have "plain_read 3 n k = (of_nat (length bs), 0, bs, k\<lparr>unread := drop (length bs) (unread k), taken_in := taken_in k @ bs\<rparr>)"
      by (simp add: plain_read_def bs_def Let_def)
    then show ?thesis using uint_bound [OF l(2)] sint_length [OF l(1)] by simp
  qed
  then show ?thesis by (simp add: reads_through_def)
qed

lemma plain_writes: "writes_through plain_writev 3 passed_on"
proof -
  have "case plain_writev 3 iov k of (rv, errno, k') \<Rightarrow> 0 \<le> sint rv \<and> sint rv < 2 ^ 31 \<and> nat (sint rv) \<le> length (concat iov) \<and>
      (concat iov \<noteq> [] \<longrightarrow> 0 < sint rv) \<and> passed_on k' = passed_on k @ take (nat (sint rv)) (concat iov)" for iov k
  proof -
    define bs where "bs = take 1048576 (concat iov)"
    have l: "length bs < 2 ^ 31" "length bs \<le> length (concat iov)" "concat iov \<noteq> [] \<longrightarrow> bs \<noteq> []" "take (length bs) (concat iov) = bs"
      by (simp_all add: bs_def min_def)
    have "plain_writev 3 iov k = (of_nat (length bs), 0, k\<lparr>passed_on := passed_on k @ bs\<rparr>)"
      by (simp add: plain_writev_def bs_def Let_def)
    then show ?thesis using l(2-4) sint_length [OF l(1)] l(1) by simp
  qed
  then show ?thesis by (simp add: writes_through_def)
qed

lemma plain_device: "tun_device_ok plain_read plain_writev 4 plain_history"
proof -
  have "case plain_read 4 n k of (rv, errno, bs, k') \<Rightarrow> 0 \<le> sint rv \<and> sint rv \<le> uint n \<and> unseen plain_history k k' \<and>
      (0 < sint rv \<longrightarrow> take (nat (sint rv)) bs \<in> arriving plain_history k)" for n :: u64 and k
  proof (cases "on_wire k")
    case (Cons d ds)
    have "sint (of_nat (length d) :: 64 word) = int (length d)" if "length d \<le> 1048576" using that by (intro sint_length) simp
    with Cons show ?thesis by (auto simp: plain_read_def plain_history_def unseen_def uint_bound)
  qed (simp add: plain_read_def plain_history_def unseen_def)
  then show ?thesis by (simp add: tun_device_ok_def plain_writev_def plain_history_def)
qed

lemma plain_kernel_ok: "kernel_ok (plain_calls ready) 3 plain_history"
proof -
  have "(x AND (POLLIN OR POLLOUT)) AND (POLLERR OR POLLNVAL) = 0" for x :: u16
    by (simp add: poll_flags and.assoc)
  then show ?thesis
    using plain_reads plain_writes
    by (simp add: kernel_ok_def plain_calls_def plain_history_def unseen_def off_line_def Let_def plain_read_def plain_writev_def
        split: prod.split)
qed

lemma plain_host_simps [simp]:
  "calls (plain_host ready) = plain_calls ready" "adapter_ops (plain_host ready) = plain_ops" "hist (plain_host ready) = plain_history"
  by (simp_all add: plain_host_def)

lemma plain_host_ok: "host_ok tun_carries (plain_host ready)"
  using plain_kernel_ok tun_adapter_ok [OF plain_device] by (simp add: host_ok_def plain_host_def plain_ops_def)


definition plain_fd :: "int \<Rightarrow> fd_wrapper" where
  "plain_fd n = \<lparr>fd_num = n, fd_eof = False, fd_closed = False, read_count = 0, write_count = 0\<rparr>"

definition plain_config :: fd_adapter_config where
  "plain_config = \<lparr>cfg_source = inet_address 1 2, cfg_destination = inet_address 3 4, loss_rate_dn = 0, loss_rate_up = 0\<rparr>"

definition plain_socket :: "bytes \<Rightarrow> (fd_adapter_on, plain_kernel) sponge_socket" where
  "plain_socket input = \<lparr>socket_fd = plain_fd 5, thread_data = plain_fd 3,
     datagram_adapter = \<lparr>base = \<lparr>ad_cfg = plain_config, ad_listen = False\<rparr>, device = plain_fd 4\<rparr>, tcp = None,
     inbound_shutdown = False, outbound_shutdown = False, fully_acked = False,
     kernel = \<lparr>unread = input, taken_in = [], passed_on = [], on_wire = [], outbox = []\<rparr>\<rparr>"

text \<open>A socket on the plain kernel that connects, with input from its owner.\<close>

lemma plain_connects:
  obtains c w where "connect (conn_new tcp_config_default random) = Some c"
    "w = (plain_socket input)\<lparr>tcp := Some c\<rparr>" "with_room w" "running_ok (plain_host ready) (socket_rules (plain_calls ready) plain_ops, w)"
    "ep_of plain_history w = (endpoint_new tcp_config_default random)\<lparr>conn := c\<rparr>"
    "socket_connect (plain_calls ready) plain_ops tcp_config_default random plain_config [] (plain_socket input) =
       tcp_loop (plain_calls ready) plain_ops (in_state SYN_SENT) (socket_rules (plain_calls ready) plain_ops) w"
proof -
  let ?w = "plain_socket input"
  have f: "adapter_ops (plain_host ready) = plain_ops" "calls (plain_host ready) = plain_calls ready" "hist (plain_host ready) = plain_history" "owner_fd (plain_host ready) = 3"
    "adapter_good (plain_host ready) = tun_state plain_getaddrinfo plain_getnameinfo 4" by (simp_all add: plain_host_def)
  have a: "ops_config plain_ops plain_config (datagram_adapter ?w) = datagram_adapter ?w"
    by (simp add: plain_ops_def tun_adapter_def plain_socket_def)
  have good: "adapter_good (plain_host ready) (datagram_adapter ?w)"
    using plain_resolver by (auto simp: f plain_socket_def tun_state_def ip_config_def plain_fd_def plain_config_def)
  then have good': "adapter_good (plain_host ready) (ops_config (adapter_ops (plain_host ready)) plain_config (datagram_adapter ?w))" by (simp only: a f(1))
  have fields: "tcp ?w = None" "fd_num (thread_data ?w) = owner_fd (plain_host ready)" "\<not> outbound_shutdown ?w"
    "from_owner (hist (plain_host ready)) (kernel ?w) = []" "to_owner (hist (plain_host ready)) (kernel ?w) = []"
    by (simp_all add: f plain_socket_def plain_fd_def plain_history_def)
  have u: "(?w\<lparr>datagram_adapter := datagram_adapter ?w, tcp := Some c\<rparr>) = ?w\<lparr>tcp := Some c\<rparr>" for c by simp
  obtain c where c: "connect (conn_new tcp_config_default random) = Some c"
    "running_ok (plain_host ready) (socket_rules (plain_calls ready) plain_ops, ?w\<lparr>tcp := Some c\<rparr>)"
    "ep_of plain_history (?w\<lparr>tcp := Some c\<rparr>) = (endpoint_new tcp_config_default random)\<lparr>conn := c\<rparr>"
    "socket_connect (plain_calls ready) plain_ops tcp_config_default random plain_config [] ?w =
       tcp_loop (plain_calls ready) plain_ops (in_state SYN_SENT) (socket_rules (plain_calls ready) plain_ops) (?w\<lparr>tcp := Some c\<rparr>)"
    using connect_opens [OF plain_host_ok config_ok_default fields(1-3) good' fields(4,5), of random, unfolded f(1)]
    by (auto simp: f a u Let_def)
  have "conn_relays 0 False c" using relay_connect [OF config_ok_default, of random] c(1) by simp
  then have "wtn (sender c) = 0" by (simp add: conn_relaysD)
  moreover have "receiver c = rcv_new (recv_capacity tcp_config_default)"
    using c(1) by (auto simp: connect_def with_sender_def send_segments_def conn_new_def)
  ultimately have "with_room (?w\<lparr>tcp := Some c\<rparr>)"
    by (simp add: with_room_def tcp_interest_def write_room_def receive_room_def)
      (simp add: rcv_new_def ra_new_def bs_new_def window_end_def tcp_config_default_def DEFAULT_CAPACITY_def)
  from that [OF c(1) refl this c(2-4)] show thesis .
qed

text \<open>A pass in which only the owner's pipe is readable.\<close>

lemma plain_pass:
  assumes c: "conn_relays 0 False c" "active c" "unat (remaining_outbound_capacity c) \<ge> length input" "length input < 1048576" "input \<noteq> []"
    and w: "w = (plain_socket input)\<lparr>tcp := Some c\<rparr>"
  shows "\<exists>rules' w'. loop_pass (plain_calls (\<lambda>i. i = 1)) (socket_rules (plain_calls (\<lambda>i. i = 1)) plain_ops) w = Some (Success, rules', w') \<and>
    taken_in (kernel w') = input"
proof -
  let ?K = "plain_calls (\<lambda>i. i = 1)"
  let ?k = "(kernel w)\<lparr>unread := [], taken_in := input\<rparr>"
  let ?n = "min 1048576 (remaining_outbound_capacity c)"
  have f: "thread_data w = plain_fd 3" "ops_fd plain_ops (datagram_adapter w) = plain_fd 4" "tcp w = Some c" "\<not> outbound_shutdown w"
    "kernel w = \<lparr>unread = input, taken_in = [], passed_on = [], on_wire = [], outbox = []\<rparr>"
    by (simp_all add: w plain_socket_def plain_ops_def tun_adapter_def)
  have cap: "length input \<le> unat ?n" using c(3,4) by (simp add: min_def)
  then have r: "plain_read (fd_num (thread_data w)) ?n (kernel w) = (of_nat (length input), 0, input, ?k)"
    using c(4) by (simp add: plain_read_def f plain_fd_def Let_def)
  have s: "sint (of_nat (length input) :: 64 word) = int (length input)" using c(4) by (intro sint_length) simp
  have "fd_read (sys_read ?K) (remaining_outbound_capacity c) (thread_data w) (kernel w) = Some (input, register_read (thread_data w), ?k)"
    using fd_read_value(1) [where read = plain_read and fd = "thread_data w" and limit = "remaining_outbound_capacity c", OF r]
      s uint_bound [OF cap] c(5) by (simp add: plain_calls_def)
  moreover obtain c' where "conn_write input c = Some (size64 input, c')" using relay_write [OF c(1), of input] c(3,4) by auto
  ultimately have cb: "outbound_callback ?K w = Some (w\<lparr>thread_data := register_read (plain_fd 3), kernel := ?k, tcp := Some c'\<rparr>)"
    using f by (simp add: outbound_callback_def register_read_def plain_fd_def)
  have "0 < remaining_outbound_capacity c" using c(3,5) by (metis length_greater_0_conv not_less unat_0 word_gt_0)
  then have "interest (outbound_rule ?K) w" using f c(2) by (simp add: outbound_rule_def outbound_interest_def tcp_interest_def)
  then obtain e1 e3 e4 where su: "setup_polls (socket_rules ?K plain_ops) w = Some (socket_rules ?K plain_ops, [e1, (3, POLLIN), e3, e4], True, w)"
    using f by (simp add: socket_rules_def) (simp add: rule_defs Let_def plain_fd_def)
  have "process_polls (socket_rules ?K plain_ops) (zip (map snd [e1, (3, POLLIN), e3, e4]) [0, POLLIN, 0, 0]) w =
      Some (socket_rules ?K plain_ops, w\<lparr>thread_data := register_read (plain_fd 3), kernel := ?k, tcp := Some c'\<rparr>)"
    using cb f by (simp add: socket_rules_def poll_flags Let_def) (simp add: service_count_def outbound_rule_def f register_read_def plain_fd_def)
  moreover have "socket_poll ?K [e1, (3, POLLIN), e3, e4] TCP_TICK_MS w = (1, 0, [0, POLLIN, 0, 0], w)"
    by (simp add: socket_poll_def plain_calls_def POLLIN_def POLLOUT_def)
  ultimately show ?thesis using su by (simp add: loop_pass_def wait_next_event_def SystemCall_def)
qed

text \<open>
  C6. A pass of the socket's event loop. Let the calls \<open>read\<close>, \<open>writev\<close> and \<open>shutdown\<close> on the owner's pipe succeed, let
  \<open>poll\<close> report neither \<open>POLLERR\<close> nor \<open>POLLNVAL\<close>, on which the event loop throws, let the adapter carry segments, and let
  the stream counters have room. Then a pass of a running socket does not throw, whatever readiness and
  hang-ups \<open>poll\<close> reports, whether or not \<open>poll\<close> itself fails, and whatever datagrams arrive: the rules left are among those there were, the socket is still well-formed, and everything the pass did to the
  connection, to the owner's pipe and to the network is a run of the endpoint of the reference network,
  whose output are exactly the segments that the datagrams sent carry, in order.
\<close>

theorem socket_pass_refines:
  assumes "host_ok carries h" and "running_ok h (rules, w)" and "with_room w"
  shows "\<exists>res rules' w' out ds. loop_pass (calls h) rules w = Some (res, rules', w') \<and> subseq rules' rules \<and>
    running_ok h (rules', w') \<and>
    ep_run {seg. \<exists>d \<in> arriving (hist h) (kernel w). carries d seg} (ep_of (hist h) w) out (ep_of (hist h) w') \<and>
    datagrams (hist h) (kernel w') = datagrams (hist h) (kernel w) @ ds \<and> list_all2 carries ds out"
  using loop_pass_ok [OF assms(1,2) subset_refl assms(3)] unfolding socket_run_def by blast

theorem socket_pass_refines_witness:
  "\<exists>c w res rules' w' out ds. connect (conn_new tcp_config_default 7) = Some c \<and> w = (plain_socket [1, 2, 3])\<lparr>tcp := Some c\<rparr> \<and>
     with_room w \<and> loop_pass (plain_calls (\<lambda>i. True)) (socket_rules (plain_calls (\<lambda>i. True)) plain_ops) w = Some (res, rules', w') \<and>
     running_ok (plain_host (\<lambda>i. True)) (rules', w') \<and>
     ep_run {seg. \<exists>d \<in> arriving plain_history (kernel w). tun_carries d seg} (ep_of plain_history w) out (ep_of plain_history w') \<and>
     outbox (kernel w') = ds \<and> list_all2 tun_carries ds out"
proof -
  obtain c w where w: "connect (conn_new tcp_config_default 7) = Some c" "w = (plain_socket [1, 2, 3])\<lparr>tcp := Some c\<rparr>" "with_room w"
    "running_ok (plain_host (\<lambda>i. True)) (socket_rules (plain_calls (\<lambda>i. True)) plain_ops, w)" by (rule plain_connects)
  have f: "adapter_ops (plain_host (\<lambda>i. True)) = plain_ops" "calls (plain_host (\<lambda>i. True)) = plain_calls (\<lambda>i. True)" "hist (plain_host (\<lambda>i. True)) = plain_history" "datagrams plain_history = outbox"
    "outbox (kernel w) = []" by (simp_all add: plain_host_def plain_history_def w(2) plain_socket_def)
  from socket_pass_refines [OF plain_host_ok w(4,3), unfolded f append_Nil] w(1-3) show ?thesis by blast
qed

lemma hosts_running:
  assumes "(hosts_step h1 h2)\<^sup>*\<^sup>* s s'" and "host_ok carries h1" "host_ok carries h2" "running_ok h1 (fst s)" "running_ok h2 (snd s)"
  shows "running_ok h1 (fst s') \<and> running_ok h2 (snd s')"
  using assms(1)
proof (induction rule: rtranclp_induct)
  case (step s1 s2)
  from step(2,3) show ?case
    using host_step_run [OF _ assms(2)] host_step_run [OF _ assms(3)] by (cases rule: hosts_step.cases) auto
qed (use assms in simp)

text \<open>
  C30. Sockets stay well-formed. In every run of two hosts each socket keeps its connection, whose sender, receiver and
  queues satisfy their invariants; the connection's stream is closed exactly when the socket remembers that it
  has shut it down; the segments that wait can all be sent in one datagram; the pipe is the same
  descriptor; and the event loop holds no other rules than those it was given.
\<close>

theorem sockets_wellformed:
  assumes "(hosts_step h1 h2)\<^sup>*\<^sup>* s ((rules, w), s2)" and "host_ok carries h1" "host_ok carries h2" "running_ok h1 (fst s)" "running_ok h2 (snd s)"
  shows "\<exists>c. tcp w = Some c \<and> conn_inv c \<and> input_ended (snd_stream (sender c)) = outbound_shutdown w \<and>
    (\<forall>seg \<in> set (conn_segments_out c). sendable_segment seg) \<and> fd_num (thread_data w) = owner_fd h1 \<and>
    subseq rules (socket_rules (calls h1) (adapter_ops h1))"
proof -
  have "running_ok h1 (rules, w)" using hosts_running [OF assms] by simp
  then obtain c W where "tcp w = Some c" "conn_relays W (outbound_shutdown w) c" "fd_num (thread_data w) = owner_fd h1"
    "subseq rules (socket_rules (calls h1) (adapter_ops h1))" by (auto simp: running_ok_def socket_inv_def)
  then show ?thesis by (auto simp: conn_inv_def conn_holds_def relays_def)
qed

theorem sockets_wellformed_witness:
  "\<exists>s w c. (hosts_step (plain_host (\<lambda>i. True)) (plain_host (\<lambda>i. True)))\<^sup>*\<^sup>* s
      ((socket_rules (plain_calls (\<lambda>i. True)) plain_ops, w), snd s) \<and> unread (kernel w) = [1, 2] \<and> tcp w = Some c \<and> conn_inv c"
proof -
  let ?h = "plain_host (\<lambda>i. True)" and ?r = "socket_rules (plain_calls (\<lambda>i. True)) plain_ops"
  obtain c w where w: "connect (conn_new tcp_config_default 7) = Some c" "w = (plain_socket [])\<lparr>tcp := Some c\<rparr>" "with_room w"
    "running_ok ?h (?r, w)" by (rule plain_connects)
  let ?w = "w\<lparr>kernel := (kernel w)\<lparr>unread := [1, 2]\<rparr>\<rparr>"
  have "host_step ?h D (?r, w) (?r, ?w)" for D by (rule host_world) (simp_all add: plain_history_def)
  then have run: "(hosts_step ?h ?h)\<^sup>*\<^sup>* ((?r, w), (?r, w)) ((?r, ?w), (?r, w))" by (intro r_into_rtranclp left_host)
  from sockets_wellformed [OF run plain_host_ok plain_host_ok] w(4) have "\<exists>c. tcp ?w = Some c \<and> conn_inv c" by auto
  with run show ?thesis by (intro exI [of _ "((?r, w), (?r, w))"] exI [of _ ?w]) auto
qed

text \<open>Closing the stream does not bring a connection back to life.\<close>

lemma finish_outbound_quiet:
  assumes "finish_outbound w = Some w'" and "tcp w = Some c"
  obtains c' where "tcp w' = Some c'" "active c' \<longrightarrow> active c" "receiver c' = receiver c"
    "w' = w\<lparr>tcp := Some c', outbound_shutdown := True\<rparr>"
proof -
  obtain c' where c': "end_input_stream c = Some c'" "w' = w\<lparr>tcp := Some c', outbound_shutdown := True\<rparr>"
    using assms by (auto simp: finish_outbound_def bind_eq_Some_conv)
  have "active c' \<longrightarrow> active c"
    using c'(1) by (auto simp: end_input_stream_def with_sender_def try_closing_connection_def Let_def split: if_splits)
  moreover have "receiver c' = receiver c"
    using c'(1) by (auto simp: end_input_stream_def with_sender_def try_closing_connection_def Let_def send_segments_def split: if_splits)
  ultimately show thesis using that c'(2) by simp
qed

text \<open>
  C19. When the loop of a socket ends. Let the rules for receiving, for inbound data and for sending be installed, with
  or without the one for outbound data, as they are until a hang-up cancels one of them; let both descriptors
  be open and the adapter's not at its end. If a pass returns \<open>Exit\<close> and no call of \<open>poll\<close> fails, then the connection is
  no longer active, no segment waits to be sent, everything received has been handed to the owner, and, if
  the inbound stream has ended or failed, the pipe has been shut down; nothing was read or written in that pass.
\<close>

theorem socket_exit_complete:
  fixes w :: "('a, 'k) sponge_socket"
  assumes pass: "loop_pass K rules w = Some (Exit, rules', w')"
    and rules: "rules = socket_rules K ops \<or> rules = [receive_rule ops, inbound_rule K, send_rule ops]"
    and c: "tcp w = Some c"
    and poll: "\<forall>ps t k. 0 \<le> sint (fst (sys_poll K ps t k))"
    and fds: "\<not> fd_eof (ops_fd ops (datagram_adapter w))" "\<not> fd_closed (ops_fd ops (datagram_adapter w))" "\<not> fd_closed (thread_data w)"
  shows "\<exists>c'. tcp w' = Some c' \<and> \<not> active c' \<and> conn_segments_out c' = [] \<and> buffer_empty (rcv_stream_out (receiver c')) \<and>
    (bs_eof (rcv_stream_out (receiver c')) \<or> bs_error (rcv_stream_out (receiver c')) \<longrightarrow> inbound_shutdown w') \<and> kernel w' = kernel w"
proof -
  have rest: "\<exists>rs ps. setup_polls [inbound_rule K, send_rule ops] v =
      Some (rs, ps, inbound_interest v \<or> tcp_interest (\<lambda>c. conn_segments_out c \<noteq> []) v, v)"
    if "\<not> fd_closed (ops_fd ops (datagram_adapter v))" "\<not> fd_closed (thread_data v)" for v
    using that by (simp add: inbound_rule_def send_rule_def Let_def)
  have "0 \<le> sint (fst (socket_poll K ps t v))" for ps t and v :: "('a, 'k) sponge_socket" using poll by (simp add: socket_poll_def case_prod_unfold Let_def)
  from wait_exit [OF this pass [unfolded loop_pass_def]]
  obtain ps where su: "setup_polls rules w = Some (rules', ps, False, w')" by blast
  have quiet: ?thesis if "setup_polls [inbound_rule K, send_rule ops] w' = Some (rs, qs, False, w')" "\<not> tcp_interest active w'"
      "tcp w' \<noteq> None" "kernel w' = kernel w" "\<not> fd_closed (ops_fd ops (datagram_adapter w'))" "\<not> fd_closed (thread_data w')" for rs qs
    using rest [OF that(5,6)] that(1-4) by (auto simp: tcp_interest_def inbound_interest_def Let_def split: option.splits)
  have first: "\<not> tcp_interest active w \<and> (\<exists>rs' qs'. setup_polls tail w = Some (rs', qs', False, v))"
    if "setup_polls (receive_rule ops # tail) w = Some (rs, qs, False, v)" for tail rs qs v
    using that fds(1,2) by (auto simp: receive_rule_def Let_def bind_eq_Some_conv)
  have second: "if fd_eof (thread_data w) then \<exists>u. finish_outbound w = Some u \<and> setup_polls tail u = Some (rs, qs, False, v)
      else \<exists>rs' qs'. setup_polls tail w = Some (rs', qs', False, v)"
    if "setup_polls (outbound_rule K # tail) w = Some (rs, qs, False, v)" for tail rs qs v
    using that fds(3) by (auto simp: outbound_rule_def Let_def bind_eq_Some_conv split: if_splits)
  have inactive: "\<not> tcp_interest active w" using su rules first unfolding socket_rules_def by blast
  consider (kept) rs qs where "setup_polls [inbound_rule K, send_rule ops] w = Some (rs, qs, False, w')"
    | (over) u rs qs where "finish_outbound w = Some u" "setup_polls [inbound_rule K, send_rule ops] u = Some (rs, qs, False, w')"
    using su rules first second unfolding socket_rules_def by metis
  then show ?thesis
  proof cases
    case kept
    moreover have "w' = w" using rest [OF fds(2,3)] kept by auto
    ultimately show ?thesis using fds c inactive by (intro quiet) auto
  next
    case over
    obtain c' where u: "tcp u = Some c'" "active c' \<longrightarrow> active c" "u = w\<lparr>tcp := Some c', outbound_shutdown := True\<rparr>"
      using finish_outbound_quiet [OF over(1) c] .
    moreover have "w' = u" using rest [of u] over(2) fds u(3) by auto
    ultimately show ?thesis using over(2) fds c inactive by (intro quiet) (auto simp: tcp_interest_def)
  qed
qed

theorem socket_exit_complete_witness:
  "\<exists>w c'. tcp w = Some (conn_reset (conn_new tcp_config_default 7)) \<and>
     loop_pass (plain_calls (\<lambda>i. True)) (socket_rules (plain_calls (\<lambda>i. True)) plain_ops) w =
       Some (Exit, socket_rules (plain_calls (\<lambda>i. True)) plain_ops, w) \<and>
     tcp w = Some c' \<and> \<not> active c' \<and> conn_segments_out c' = []"
proof -
  let ?c = "conn_reset (conn_new tcp_config_default 7)"
  let ?w = "(plain_socket [])\<lparr>tcp := Some ?c, inbound_shutdown := True\<rparr>"
  have f: "thread_data ?w = plain_fd 3" "ops_fd plain_ops (datagram_adapter ?w) = plain_fd 4" "tcp ?w = Some ?c" "inbound_shutdown ?w"
    by (simp_all add: plain_socket_def plain_ops_def tun_adapter_def)
  have q: "\<not> active ?c" "conn_segments_out ?c = []" by (simp_all add: conn_new_def)
  have "buffer_empty (rcv_stream_out (receiver ?c))"
    by (simp add: conn_reset_def Let_def conn_new_def rcv_new_def rcv_stream_out_def ra_new_def bs_new_def buffer_empty_def set_error_def)
  then have pass: "loop_pass (plain_calls (\<lambda>i. True)) (socket_rules (plain_calls (\<lambda>i. True)) plain_ops) ?w = Some (Exit, socket_rules (plain_calls (\<lambda>i. True)) plain_ops, ?w)"
    using f q by (simp add: loop_pass_def wait_next_event_def socket_rules_def rule_defs Let_def plain_fd_def tcp_interest_def
      inbound_interest_def outbound_interest_def)
  have p: "\<forall>ps t k. 0 \<le> sint (fst (sys_poll (plain_calls (\<lambda>i. True)) ps t k))" by (simp add: plain_calls_def)
  have "\<exists>c'. tcp ?w = Some c' \<and> \<not> active c' \<and> conn_segments_out c' = []"
    using socket_exit_complete [OF pass disjI1 [OF refl] f(3) p] f by (auto simp: plain_fd_def)
  then show ?thesis using pass f(3) by (intro exI [of _ ?w]) blast
qed

lemma conn_new_listens: "conn_state (conn_new config random) = tcp_state_of_name LISTEN"
  by (simp add: conn_state_def conn_new_def tcp_state_summary_def active_def mk_state_def
      sender_summary_def receiver_summary_def bytes_in_flight_def next_seqno_absolute_def rcv_ackno_def)
    (simp add: bs_new_def bs_error_def bs_eof_def input_ended_def rcv_stream_out_def rcv_new_def ra_new_def snd_new_def)

text \<open>
  C36. Early input breaks a listening socket. If the owner has written to the socket before \<open>listen_and_accept\<close>, so
  that the pipe is readable while the connection has sent no SYN, the rule for outbound data reads the bytes,
  the connection accepts none of them, and \<open>listen_and_accept\<close> throws.
\<close>

theorem early_input_breaks_listen:
  fixes w :: "('a, 'k) sponge_socket"
  assumes config: "config_ok config" and w: "tcp w = None" "\<not> fd_eof (thread_data w)" "\<not> fd_closed (thread_data w)" "\<not> outbound_shutdown w"
    and ad: "a = ops_listen ops True (ops_config ops c_ad (datagram_adapter w))" "\<not> fd_eof (ops_fd ops a)" "\<not> fd_closed (ops_fd ops a)"
    and poll: "\<forall>ps k. length ps = 4 \<longrightarrow> (\<exists>k'. sys_poll K ps TCP_TICK_MS k = (1, 0, [0, POLLIN, 0, 0], k'))"
    and read: "\<forall>n k. 0 < n \<longrightarrow> (\<exists>rv errno bs k'. sys_read K (fd_num (thread_data w)) n k = (rv, errno, bs, k') \<and>
      0 < sint rv \<and> sint rv \<le> uint n \<and> nat (sint rv) \<le> length bs)"
  shows "listen_and_accept K ops config random c_ad [] w = Some None"
proof -
  let ?c = "conn_new config random"
  have cap: "remaining_outbound_capacity ?c = send_capacity config" "0 < send_capacity config"
    using config by (simp_all add: remaining_outbound_capacity_def conn_new_def snd_new_def bs_new_def remaining_capacity_def
        config_ok_def word_gt_0 unat_gt_0)
  have new: "active ?c" "\<not> syn_sent ?c" "conn_segments_out ?c = []"
    by (simp_all add: conn_new_def active_def syn_sent_def snd_new_def next_seqno_absolute_def)
  have inb: "\<not> inbound_interest v" if "tcp v = Some ?c" for v :: "('a, 'k) sponge_socket"
    using that by (simp add: inbound_interest_def tcp_interest_def Let_def conn_new_def rcv_stream_out_def)
      (simp add: rcv_new_def ra_new_def bs_new_def buffer_empty_def bs_eof_def input_ended_def bs_error_def)
  have listening: "in_state LISTEN v" if "tcp v = Some ?c" for v :: "('a, 'k) sponge_socket"
    using that conn_new_listens by (simp add: in_state_def tcp_interest_def tcp_state_eq_def)
  have throws: "outbound_callback K v = None" if "tcp v = Some ?c" "thread_data v = thread_data w" for v :: "('a, 'k) sponge_socket"
  proof -
    let ?n = "min 1048576 (send_capacity config)"
    have "0 < ?n" using cap(2) by (simp add: min_def)
    then obtain rv errno bs k' where r: "sys_read K (fd_num (thread_data w)) ?n (kernel v) = (rv, errno, bs, k')"
      "0 < sint rv" "sint rv \<le> uint ?n" "nat (sint rv) \<le> length bs" using read by blast
    let ?data = "take (nat (sint rv)) bs"
    note R = fd_read_value [where read = "sys_read K" and fd = "thread_data w" and limit = "send_capacity config", OF r(1) less_imp_le [OF r(2)] r(3)]
    have "unat ?n \<le> 1048576" by (simp add: min_def word_le_nat_alt)
    then have "unat (size64 ?data) = nat (sint rv)" using R(2) r(4) by (simp add: size64_def unat_of_nat)
    then have "size64 ?data \<noteq> 0" using r(2) by (metis unat_0 zero_less_nat_eq less_irrefl)
    then show ?thesis using that R(1) cap(1) new(2) by (auto simp: outbound_callback_def conn_write_def)
  qed
  have pass: "loop_pass K (socket_rules K ops) v = None" if v: "tcp v = Some ?c" "thread_data v = thread_data w" "datagram_adapter v = a" "\<not> outbound_shutdown v"
    for v :: "('a, 'k) sponge_socket"
  proof -
    have i: "interest (receive_rule ops) v" "interest (outbound_rule K) v" "\<not> interest (inbound_rule K) v" "\<not> interest (send_rule ops) v"
      using v(1,4) inb new cap by (auto simp: tcp_interest_def outbound_interest_def rule_defs)
    let ?ps = "[(fd_num (ops_fd ops a), POLLIN), (fd_num (thread_data w), POLLIN), (fd_num (thread_data w), 0), (fd_num (ops_fd ops a), 0)]"
    have su: "setup_polls (socket_rules K ops) v = Some (socket_rules K ops, ?ps, True, v)"
      using i v(2,3) w ad by (simp add: socket_rules_def) (simp add: rule_defs Let_def)
    obtain k' where k': "sys_poll K ?ps TCP_TICK_MS (kernel v) = (1, 0, [0, POLLIN, 0, 0], k')" using poll by force
    have "outbound_callback K (v\<lparr>kernel := k'\<rparr>) = None" using v by (intro throws) simp_all
    then have "process_polls (socket_rules K ops) (zip (map snd ?ps) [0, POLLIN, 0, 0]) (v\<lparr>kernel := k'\<rparr>) = None"
      by (simp add: socket_rules_def Let_def outbound_rule_def poll_flags)
    then show ?thesis using su k' by (simp add: loop_pass_def wait_next_event_def socket_poll_def SystemCall_def Let_def)
  qed
  obtain base_time k where t: "timestamp_ms K (kernel w) = (base_time, k)" by (metis surj_pair)
  let ?v = "w\<lparr>tcp := Some ?c, datagram_adapter := a, kernel := k\<rparr>"
  have "loop_pass K (socket_rules K ops) ?v = None" using w(4) by (intro pass) simp_all
  moreover have "in_state LISTEN ?v" by (rule listening) simp
  ultimately show ?thesis
    using w(1) ad(1) t by (simp add: listen_and_accept_def initialize_TCP_eq tcp_loop_def tcp_loop_from.simps)
qed

theorem early_input_breaks_listen_witness:
  "listen_and_accept ((plain_calls (\<lambda>i. True))\<lparr>sys_read := \<lambda>fd n k. (1, 0, [7], k), sys_poll := \<lambda>ps t k. (1, 0, [0, POLLIN, 0, 0], k)\<rparr>)
     plain_ops tcp_config_default 7 plain_config [] (plain_socket [7]) = Some None"
proof (rule early_input_breaks_listen [OF config_ok_default _ _ _ _ refl])
  show "\<forall>n k. 0 < n \<longrightarrow> (\<exists>rv errno bs k'. sys_read ((plain_calls (\<lambda>i. True))\<lparr>sys_read := \<lambda>fd n k. (1, 0, [7], k),
      sys_poll := \<lambda>ps t k. (1, 0, [0, POLLIN, 0, 0], k)\<rparr>) (fd_num (thread_data (plain_socket [7]))) n k = (rv, errno, bs, k') \<and>
      0 < sint rv \<and> sint rv \<le> uint n \<and> nat (sint rv) \<le> length bs)"
    by (simp add: word_less_def int_one_le_iff_zero_less)
qed (simp_all add: plain_socket_def plain_ops_def tun_adapter_def plain_fd_def)

end
