(* ===== verification/Stream_Copy.thy ===== *)
theory Stream_Copy
  imports Event_Loop Net_Socket
begin

unbundle bit_operations_syntax

text \<open>
  \<open>bidirectional_stream_copy\<close> of \<open>apps/bidirectional_stream_copy.cc\<close>: standard input to a socket, and the socket to
  standard output, with a \<open>ByteStream\<close> in each direction and an \<open>EventLoop\<close> over four rules. System calls are
  parameters. The loop is a partial function; a throw is \<open>Some None\<close>.
\<close>

record 'k copy_calls =
  copy_read :: "'k sys_read"
  copy_writev :: "'k sys_writev"
  copy_shutdown :: "'k sys_shutdown"
  copy_close :: "'k sys_close"
  copy_fcntl :: "'k sys_fcntl"
  copy_poll :: "pollfd list \<Rightarrow> int \<Rightarrow> 'k \<Rightarrow> 32 word \<times> int \<times> u16 list \<times> 'k"

record 'k stream_copy =
  sc_socket :: fd_wrapper
  sc_input :: fd_wrapper
  sc_output :: fd_wrapper
  sc_outbound :: byte_stream
  sc_inbound :: byte_stream
  sc_outbound_shutdown :: bool
  sc_inbound_shutdown :: bool
  sc_kernel :: 'k

definition STDIN_FILENO :: int where "STDIN_FILENO = 0"
definition STDOUT_FILENO :: int where "STDOUT_FILENO = 1"
definition max_copy_length :: u64 where "max_copy_length = 65536"
definition copy_buffer_size :: u64 where "copy_buffer_size = 1048576"

subsection \<open>The rules\<close>

text \<open>Rule 1: from standard input into the outbound stream.\<close>

definition read_input :: "'k copy_calls \<Rightarrow> 'k stream_copy \<Rightarrow> 'k stream_copy option" where
  "read_input K w = do {
     (data, fd, k) \<leftarrow> fd_read (copy_read K) (remaining_capacity (sc_outbound w)) (sc_input w) (sc_kernel w);
     let outbound = snd (bs_write data (sc_outbound w));
     Some (w\<lparr>sc_input := fd, sc_kernel := k, sc_outbound := if fd_eof fd then end_input outbound else outbound\<rparr>)
   }"

definition input_interest :: "'k stream_copy \<Rightarrow> bool" where
  "input_interest w \<longleftrightarrow> \<not> bs_error (sc_outbound w) \<and> remaining_capacity (sc_outbound w) > 0 \<and> \<not> bs_error (sc_inbound w)"

definition end_outbound :: "'k stream_copy \<Rightarrow> 'k stream_copy option" where
  "end_outbound w = Some (w\<lparr>sc_outbound := end_input (sc_outbound w)\<rparr>)"

text \<open>Rule 2: from the outbound stream into the socket.\<close>

definition write_socket :: "'k copy_calls \<Rightarrow> 'k stream_copy \<Rightarrow> 'k stream_copy option" where
  "write_socket K w = do {
     let outbound = sc_outbound w;
     let bytes_to_write = min max_copy_length (buffer_size outbound);
     (bytes_written, fd, k) \<leftarrow> fd_write (copy_writev K) False (bvl_of_string (peek_output bytes_to_write outbound)) 0 (sc_socket w) (sc_kernel w);
     outbound \<leftarrow> pop_output bytes_written outbound;
     let w = w\<lparr>sc_socket := fd, sc_kernel := k, sc_outbound := outbound\<rparr>;
     if bs_eof outbound
     then do {
       (fd, k) \<leftarrow> socket_shutdown (copy_shutdown K) SHUT_WR fd k;
       Some (w\<lparr>sc_socket := fd, sc_kernel := k, sc_outbound_shutdown := True\<rparr>)
     }
     else Some w
   }"

definition socket_out_interest :: "'k stream_copy \<Rightarrow> bool" where
  "socket_out_interest w \<longleftrightarrow> \<not> buffer_empty (sc_outbound w) \<or> bs_eof (sc_outbound w) \<and> \<not> sc_outbound_shutdown w"

text \<open>Rule 3: from the socket into the inbound stream.\<close>

definition read_socket :: "'k copy_calls \<Rightarrow> 'k stream_copy \<Rightarrow> 'k stream_copy option" where
  "read_socket K w = do {
     (data, fd, k) \<leftarrow> fd_read (copy_read K) (remaining_capacity (sc_inbound w)) (sc_socket w) (sc_kernel w);
     let inbound = snd (bs_write data (sc_inbound w));
     Some (w\<lparr>sc_socket := fd, sc_kernel := k, sc_inbound := if fd_eof fd then end_input inbound else inbound\<rparr>)
   }"

definition socket_in_interest :: "'k stream_copy \<Rightarrow> bool" where
  "socket_in_interest w \<longleftrightarrow> \<not> bs_error (sc_inbound w) \<and> remaining_capacity (sc_inbound w) > 0 \<and> \<not> bs_error (sc_outbound w)"

definition end_inbound :: "'k stream_copy \<Rightarrow> 'k stream_copy option" where
  "end_inbound w = Some (w\<lparr>sc_inbound := end_input (sc_inbound w)\<rparr>)"

text \<open>Rule 4: from the inbound stream to standard output.\<close>

definition write_output :: "'k copy_calls \<Rightarrow> 'k stream_copy \<Rightarrow> 'k stream_copy option" where
  "write_output K w = do {
     let inbound = sc_inbound w;
     let bytes_to_write = min max_copy_length (buffer_size inbound);
     (bytes_written, fd, k) \<leftarrow> fd_write (copy_writev K) False (bvl_of_string (peek_output bytes_to_write inbound)) 0 (sc_output w) (sc_kernel w);
     inbound \<leftarrow> pop_output bytes_written inbound;
     let w = w\<lparr>sc_output := fd, sc_kernel := k, sc_inbound := inbound\<rparr>;
     if bs_eof inbound
     then do {
       (fd, k) \<leftarrow> fd_close (copy_close K) fd k;
       Some (w\<lparr>sc_output := fd, sc_kernel := k, sc_inbound_shutdown := True\<rparr>)
     }
     else Some w
   }"

definition output_interest :: "'k stream_copy \<Rightarrow> bool" where
  "output_interest w \<longleftrightarrow> \<not> buffer_empty (sc_inbound w) \<or> bs_eof (sc_inbound w) \<and> \<not> sc_inbound_shutdown w"

definition copy_rules :: "'k copy_calls \<Rightarrow> 'k stream_copy rule list" where
  "copy_rules K =
     add_rule sc_output Out (write_output K) output_interest end_inbound
       (add_rule sc_socket In (read_socket K) socket_in_interest end_inbound
         (add_rule sc_socket Out (write_socket K) socket_out_interest end_outbound
           (add_rule sc_input In (read_input K) input_interest end_outbound [])))"

subsection \<open>The loop\<close>

definition copy_wait :: "'k copy_calls \<Rightarrow> 'k stream_copy sys_poll" where
  "copy_wait K ps t w = (let (rv, errno, revents, k) = copy_poll K ps t (sc_kernel w) in (rv, errno, revents, w\<lparr>sc_kernel := k\<rparr>))"

partial_function (option) copy_loop ::
  "'k copy_calls \<Rightarrow> 'k stream_copy rule list \<Rightarrow> 'k stream_copy \<Rightarrow> ('k stream_copy rule list \<times> 'k stream_copy) option option" where
  "copy_loop K rules w =
     (case wait_next_event (copy_wait K) (- 1) rules w of
        None \<Rightarrow> Some None
      | Some (res, rules, w) \<Rightarrow> if res = Exit then Some (Some (rules, w)) else copy_loop K rules w)"

definition copy_start :: "'k copy_calls \<Rightarrow> fd_wrapper \<Rightarrow> 'k \<Rightarrow> 'k stream_copy option" where
  "copy_start K socket k = do {
     input \<leftarrow> fd_new STDIN_FILENO;
     output \<leftarrow> fd_new STDOUT_FILENO;
     k \<leftarrow> set_blocking (copy_fcntl K) False socket k;
     k \<leftarrow> set_blocking (copy_fcntl K) False input k;
     k \<leftarrow> set_blocking (copy_fcntl K) False output k;
     Some \<lparr>sc_socket = socket, sc_input = input, sc_output = output, sc_outbound = bs_new copy_buffer_size,
       sc_inbound = bs_new copy_buffer_size, sc_outbound_shutdown = False, sc_inbound_shutdown = False, sc_kernel = k\<rparr>
   }"

text \<open>
  In the end the wrappers are destroyed, which closes what is still open: \<open>_output\<close>, \<open>_input\<close>, then the rules left in the
  loop in their order. A wrapper goes with its last owner, so standard output is closed last if rule 4 is still there.
\<close>

definition copy_end :: "'k copy_calls \<Rightarrow> 'k stream_copy rule list \<Rightarrow> 'k stream_copy \<Rightarrow> 'k stream_copy" where
  "copy_end K rules w =
     (let input = fd_destroy (copy_close K) (sc_input w);
          output = fd_destroy (copy_close K) (sc_output w);
          held = list_ex (\<lambda>r. fd_num (rule_fd r w) = STDOUT_FILENO) rules
      in w\<lparr>sc_kernel := (if held then output (input (sc_kernel w)) else input (output (sc_kernel w)))\<rparr>)"

definition bidirectional_stream_copy :: "'k copy_calls \<Rightarrow> fd_wrapper \<Rightarrow> 'k \<Rightarrow> 'k stream_copy option option" where
  "bidirectional_stream_copy K socket k =
     (case copy_start K socket k of
        None \<Rightarrow> Some None
      | Some w \<Rightarrow> map_option (map_option (\<lambda>(rules, w). copy_end K rules w)) (copy_loop K (copy_rules K) w))"

subsection \<open>The contract of the kernel\<close>

text \<open>What has been read from and written to the descriptors, and all there is to read.\<close>

record 'k copy_history =
  stdin_read :: "'k \<Rightarrow> bytes"
  socket_written :: "'k \<Rightarrow> bytes"
  socket_read :: "'k \<Rightarrow> bytes"
  stdout_written :: "'k \<Rightarrow> bytes"
  stdin_input :: bytes
  socket_input :: bytes

text \<open>A \<open>read\<close> that is asked for something and gives nothing has found the end of the input.\<close>

definition reads_until :: "'k sys_read \<Rightarrow> int \<Rightarrow> ('k \<Rightarrow> bytes) \<Rightarrow> bytes \<Rightarrow> bool" where
  "reads_until read fd given all \<longleftrightarrow> reads_through read fd given \<and> (\<forall>k. prefix (given k) all) \<and>
     (\<forall>n k. 0 < n \<longrightarrow> sint (fst (read fd n k)) = 0 \<longrightarrow> given k = all)"

definition untouched :: "'k copy_history \<Rightarrow> 'k \<Rightarrow> 'k \<Rightarrow> bool" where
  "untouched H k k' \<longleftrightarrow> stdin_read H k' = stdin_read H k \<and> socket_written H k' = socket_written H k \<and>
     socket_read H k' = socket_read H k \<and> stdout_written H k' = stdout_written H k"

text \<open>
  The documented behaviour of the calls when none fails. \<open>poll\<close>, called without a timeout, returns when an input or
  output it was asked about is possible; it reports a hangup alone at most for standard input, when the other end of the pipe is gone and
  all of it has been read.
\<close>

definition calls_ok :: "'k copy_calls \<Rightarrow> int \<Rightarrow> 'k copy_history \<Rightarrow> bool" where
  "calls_ok K s H \<longleftrightarrow>
     reads_until (copy_read K) STDIN_FILENO (stdin_read H) (stdin_input H) \<and>
     (\<forall>n k. let k' = snd (snd (snd (copy_read K STDIN_FILENO n k))) in
        socket_written H k' = socket_written H k \<and> socket_read H k' = socket_read H k \<and> stdout_written H k' = stdout_written H k) \<and>
     reads_until (copy_read K) s (socket_read H) (socket_input H) \<and>
     (\<forall>n k. let k' = snd (snd (snd (copy_read K s n k))) in
        stdin_read H k' = stdin_read H k \<and> socket_written H k' = socket_written H k \<and> stdout_written H k' = stdout_written H k) \<and>
     writes_through (copy_writev K) s (socket_written H) \<and>
     (\<forall>iov k. let k' = snd (snd (copy_writev K s iov k)) in
        stdin_read H k' = stdin_read H k \<and> socket_read H k' = socket_read H k \<and> stdout_written H k' = stdout_written H k) \<and>
     writes_through (copy_writev K) STDOUT_FILENO (stdout_written H) \<and>
     (\<forall>iov k. let k' = snd (snd (copy_writev K STDOUT_FILENO iov k)) in
        stdin_read H k' = stdin_read H k \<and> socket_written H k' = socket_written H k \<and> socket_read H k' = socket_read H k) \<and>
     (\<forall>k. case copy_shutdown K s SHUT_WR k of (rv, errno, k') \<Rightarrow> 0 \<le> sint rv \<and> untouched H k k') \<and>
     (\<forall>fd k. case copy_close K fd k of (rv, errno, k') \<Rightarrow> 0 \<le> sint rv \<and> untouched H k k') \<and>
     (\<forall>fd cmd arg k. case copy_fcntl K fd cmd arg k of (rv, errno, k') \<Rightarrow> 0 \<le> sint rv \<and> untouched H k k')"

definition poll_blocks :: "'k copy_calls \<Rightarrow> 'k copy_history \<Rightarrow> bool" where
  "poll_blocks K H \<longleftrightarrow> (\<forall>ps t k. case copy_poll K ps t k of (rv, errno, revents, k') \<Rightarrow>
     0 \<le> sint rv \<and> length revents = length ps \<and> (\<forall>x \<in> set revents. x AND (POLLERR OR POLLNVAL) = 0) \<and>
     (\<forall>p \<in> set (zip ps revents). hung (snd (fst p), snd p) \<longrightarrow> fst (fst p) = STDIN_FILENO \<and> stdin_read H k' = stdin_input H) \<and>
     untouched H k k' \<and>
     ((\<exists>p \<in> set ps. snd p \<in> range direction_events) \<longrightarrow> 0 < sint rv \<and> (\<exists>p \<in> set (zip (map snd ps) revents). reported p)))"

definition copy_env :: "'k copy_calls \<Rightarrow> int \<Rightarrow> 'k copy_history \<Rightarrow> bool" where
  "copy_env K s H \<longleftrightarrow> calls_ok K s H \<and> poll_blocks K H \<and> s \<noteq> STDIN_FILENO"

subsection \<open>The invariant\<close>

definition stream_fine :: "byte_stream \<Rightarrow> bool" where
  "stream_fine s \<longleftrightarrow> bs_inv s \<and> 0 < bs_cap s \<and> \<not> bs_error s"

definition all_read :: "'k copy_history \<Rightarrow> 'k stream_copy \<Rightarrow> bool" where
  "all_read H w \<longleftrightarrow> stdin_read H (sc_kernel w) = stdin_input H"

definition copy_inv :: "int \<Rightarrow> 'k copy_history \<Rightarrow> 'k stream_copy \<Rightarrow> bool" where
  "copy_inv s H w \<longleftrightarrow>
     fd_num (sc_socket w) = s \<and> fd_num (sc_input w) = STDIN_FILENO \<and> fd_num (sc_output w) = STDOUT_FILENO \<and>
     \<not> fd_closed (sc_socket w) \<and> \<not> fd_closed (sc_input w) \<and>
     stream_fine (sc_outbound w) \<and> stream_fine (sc_inbound w) \<and>
     socket_written H (sc_kernel w) @ bs_view (sc_outbound w) = stdin_read H (sc_kernel w) \<and>
     stdout_written H (sc_kernel w) @ bs_view (sc_inbound w) = socket_read H (sc_kernel w) \<and>
     (fd_eof (sc_input w) \<or> input_ended (sc_outbound w) \<longrightarrow> all_read H w) \<and>
     (input_ended (sc_inbound w) \<longrightarrow> fd_eof (sc_socket w)) \<and>
     (fd_eof (sc_socket w) \<longrightarrow> socket_read H (sc_kernel w) = socket_input H) \<and>
     (fd_closed (sc_output w) \<longleftrightarrow> sc_inbound_shutdown w) \<and> (sc_inbound_shutdown w \<longrightarrow> bs_eof (sc_inbound w))"

text \<open>What is left to do: bytes to read count twice, since they have to be written as well.\<close>

definition copy_left :: "'k copy_history \<Rightarrow> 'k stream_copy \<Rightarrow> nat" where
  "copy_left H w =
     2 * (length (stdin_input H) - length (stdin_read H (sc_kernel w))) +
     2 * (length (socket_input H) - length (socket_read H (sc_kernel w))) +
     length (bs_view (sc_outbound w)) + length (bs_view (sc_inbound w)) +
     of_bool (\<not> fd_eof (sc_input w)) + of_bool (\<not> fd_eof (sc_socket w)) +
     of_bool (\<not> sc_outbound_shutdown w) + of_bool (\<not> sc_inbound_shutdown w)"

definition copy_rel :: "'k copy_history \<Rightarrow> 'k stream_copy \<Rightarrow> 'k stream_copy \<Rightarrow> bool" where
  "copy_rel H w w' \<longleftrightarrow> copy_left H w' \<le> copy_left H w \<and> (all_read H w \<longrightarrow> all_read H w') \<and>
     (input_ended (sc_outbound w) \<longrightarrow> input_ended (sc_outbound w')) \<and> (input_ended (sc_inbound w) \<longrightarrow> input_ended (sc_inbound w')) \<and>
     (fd_closed (sc_output w) \<longrightarrow> fd_closed (sc_output w'))"

lemma fd_read_nothing:
  assumes "reads_through read (fd_num fd) given" and "fd_read read limit fd k = Some ([], fd', k')" and "0 < limit"
  shows "\<exists>n. 0 < n \<and> sint (fst (read (fd_num fd) n k)) = 0"
proof -
  let ?n = "min 1048576 limit"
  obtain rv errno bs k1 where r: "read (fd_num fd) ?n k = (rv, errno, bs, k1)" by (metis prod_cases4)
  have R: "0 \<le> sint rv" "sint rv \<le> uint ?n" "nat (sint rv) \<le> length bs"
    using assms(1) r by (auto simp: reads_through_def split: prod.splits dest!: spec [of _ ?n] spec [of _ k])
  have "take (nat (sint rv)) bs = []"
    using fd_read_value(1) [where read = read and fd = fd and limit = limit and k = k, OF r R(1,2)] assms(2) by simp
  then have "sint rv = 0" using R(1,3) by auto
  moreover have "0 < ?n" using assms(3) by (simp add: min_def)
  ultimately show ?thesis using r by (intro exI [of _ ?n]) simp
qed

lemma calls_okD:
  assumes "calls_ok K s H"
  shows "reads_until (copy_read K) STDIN_FILENO (stdin_read H) (stdin_input H)"
    and "k' = snd (snd (snd (copy_read K STDIN_FILENO n k))) \<Longrightarrow>
      socket_written H k' = socket_written H k \<and> socket_read H k' = socket_read H k \<and> stdout_written H k' = stdout_written H k"
    and "reads_until (copy_read K) s (socket_read H) (socket_input H)"
    and "k' = snd (snd (snd (copy_read K s n k))) \<Longrightarrow>
      stdin_read H k' = stdin_read H k \<and> socket_written H k' = socket_written H k \<and> stdout_written H k' = stdout_written H k"
    and "writes_through (copy_writev K) s (socket_written H)"
    and "k' = snd (snd (copy_writev K s iov k)) \<Longrightarrow>
      stdin_read H k' = stdin_read H k \<and> socket_read H k' = socket_read H k \<and> stdout_written H k' = stdout_written H k"
    and "writes_through (copy_writev K) STDOUT_FILENO (stdout_written H)"
    and "k' = snd (snd (copy_writev K STDOUT_FILENO iov k)) \<Longrightarrow>
      stdin_read H k' = stdin_read H k \<and> socket_written H k' = socket_written H k \<and> socket_read H k' = socket_read H k"
  using assms unfolding calls_ok_def Let_def by blast+

lemma calls_ok_shutdown:
  assumes "calls_ok K (fd_num fd) H"
  obtains k' where "socket_shutdown (copy_shutdown K) SHUT_WR fd k = Some (register_write fd, k')" "untouched H k k'"
proof -
  obtain rv errno k' where s: "copy_shutdown K (fd_num fd) SHUT_WR k = (rv, errno, k')" by (metis prod_cases3)
  then have "0 \<le> sint rv" "untouched H k k'" using assms by (auto simp: calls_ok_def split: prod.splits)
  with s that show thesis by (simp add: socket_shutdown_def SystemCall_def SHUT_RD_def SHUT_WR_def)
qed

lemma calls_ok_close:
  assumes "calls_ok K s H"
  obtains k' where "fd_close (copy_close K) fd k = Some (fd\<lparr>fd_eof := True, fd_closed := True\<rparr>, k')" "untouched H k k'"
proof -
  obtain rv errno k' where c: "copy_close K (fd_num fd) k = (rv, errno, k')" by (metis prod_cases3)
  then have "0 \<le> sint rv" "untouched H k k'" using assms by (auto simp: calls_ok_def split: prod.splits)
  with c that show thesis by (simp add: fd_close_def SystemCall_def)
qed

lemma calls_ok_set_blocking:
  assumes "calls_ok K s H"
  obtains k' where "set_blocking (copy_fcntl K) b fd k = Some k'" "untouched H k k'"
proof -
  have f: "0 \<le> sint rv \<and> untouched H k k'" if "copy_fcntl K n cmd arg k = (rv, errno, k')" for n cmd arg k rv errno k'
    using assms that unfolding calls_ok_def by (metis (no_types, lifting) case_prod_conv)
  obtain rv errno k1 where 1: "copy_fcntl K (fd_num fd) F_GETFL 0 k = (rv, errno, k1)" by (metis prod_cases3)
  let ?flags = "if b then rv XOR (rv AND O_NONBLOCK) else rv OR O_NONBLOCK"
  obtain rv' errno' k2 where 2: "copy_fcntl K (fd_num fd) F_SETFL ?flags k1 = (rv', errno', k2)" by (metis prod_cases3)
  have "set_blocking (copy_fcntl K) b fd k = Some k2"
    using 1 2 f [OF 1] f [OF 2] by (cases b) (simp_all add: set_blocking_def SystemCall_def Let_def)
  moreover have "untouched H k k2" using f [OF 1] f [OF 2] by (simp add: untouched_def)
  ultimately show thesis using that by blast
qed

lemma stream_fine_simps [simp]:
  "stream_fine (end_input s) = stream_fine s" "bs_view (end_input s) = bs_view s" "input_ended (end_input s)"
  "buffer_empty (end_input s) = buffer_empty s" "cur_size (end_input s) = cur_size s"
  by (simp_all add: stream_fine_def bs_inv_def bs_cap_def bs_error_def end_input_def bs_view_def input_ended_def buffer_empty_def)

lemma buffer_empty_view: "buffer_empty s \<longleftrightarrow> bs_view s = []"
  using length_bs_view [of s] by (auto simp: buffer_empty_def word_eq_unat_iff simp del: length_bs_view)

text \<open>Both directions of reading: the bytes go from the descriptor into the stream.\<close>

lemma read_step:
  assumes r: "reads_until read (fd_num fd) given all" and s: "stream_fine s" and g: "\<not> fd_eof fd" "0 < remaining_capacity s"
  obtains data fd' k' s' where "fd_read read (remaining_capacity s) fd k = Some (data, fd', k')"
    "s' = (if fd_eof fd' then end_input (snd (bs_write data s)) else snd (bs_write data s))" "given k' = given k @ data"
    "stream_fine s'" "bs_view s' = bs_view s @ data" "input_ended s' \<longleftrightarrow> input_ended s \<or> fd_eof fd'"
    "2 * (length all - length (given k')) + length (bs_view s') + of_bool (\<not> fd_eof fd') <
      2 * (length all - length (given k)) + length (bs_view s) + 1"
    "fd' = fd\<lparr>fd_eof := fd_eof fd', read_count := read_count fd + 1\<rparr>" "\<exists>n. k' = snd (snd (snd (read (fd_num fd) n k)))"
    "fd_eof fd' \<or> given k = all \<Longrightarrow> given k' = all"
proof -
  have R: "reads_through read (fd_num fd) given" "prefix (given k) all" for k using r by (simp_all add: reads_until_def)
  have bs: "bs_inv s" using s by (simp add: stream_fine_def)
  obtain data fd' k' where d: "fd_read read (remaining_capacity s) fd k = Some (data, fd', k')" "given k' = given k @ data"
    "bs_view (snd (bs_write data s)) = bs_view s @ data" "bs_inv (snd (bs_write data s))" "fd_eof fd' \<longleftrightarrow> fd_eof fd \<or> 0 < remaining_capacity s \<and> data = []"
    "fd' = fd\<lparr>fd_eof := fd_eof fd', read_count := read_count fd + 1\<rparr>" "\<exists>n. k' = snd (snd (snd (read (fd_num fd) n k)))"
    using read_into_stream [OF R(1) bs, of k] by blast
  let ?s = "if fd_eof fd' then end_input (snd (bs_write data s)) else snd (bs_write data s)"
  have f: "stream_fine (snd (bs_write data s))" using s d(4) by (simp add: stream_fine_def bs_cap_def bs_error_def)
  have e: "input_ended (snd (bs_write data s)) = input_ended s" by (simp add: input_ended_def)
  have v: "bs_view ?s = bs_view s @ data" using d(3) by simp
  have p: "prefix (given k @ data) all" using R(2) [of k'] d(2) by simp
  have "length (given k @ data) \<le> length all" using p by (rule prefix_length_le)
  then have lt: "2 * (length all - length (given k')) + length (bs_view ?s) + of_bool (\<not> fd_eof fd') <
      2 * (length all - length (given k)) + length (bs_view s) + 1"
    unfolding v d(2) using d(5) g by (cases data) (auto simp del: length_bs_view)
  have "given k' = all" if "fd_eof fd' \<or> given k = all"
  proof (cases "given k = all")
    case False
    then have "data = []" using that d(5) g by simp
    then obtain n where "0 < n" "sint (fst (read (fd_num fd) n k)) = 0" using fd_read_nothing [OF R(1) _ g(2)] d(1) by blast
    then show ?thesis using r False by (auto simp: reads_until_def)
  qed (use p d(2) in auto)
  from that [OF d(1) refl d(2) _ v _ lt d(6,7) this] f e show thesis by simp
qed

text \<open>Both directions of writing.\<close>

lemma write_step:
  assumes w: "writes_through writev (fd_num fd) taken" and s: "stream_fine s"
  obtains n k' s' where
    "fd_write writev False (bvl_of_string (peek_output (min max_copy_length (buffer_size s)) s)) 0 fd k = Some (n, register_write fd, k')"
    "pop_output n s = Some s'" "stream_fine s'" "taken k' @ bs_view s' = taken k @ bs_view s" "input_ended s' = input_ended s"
    "length (bs_view s') \<le> length (bs_view s)" "bs_view s \<noteq> [] \<Longrightarrow> length (bs_view s') < length (bs_view s)"
    "\<exists>m. taken k' = taken k @ take m (bs_view s)"
proof -
  have bs: "bs_inv s" "0 < bs_cap s" using s by (simp_all add: stream_fine_def)
  obtain n k' s' where d: "fd_write writev False (bvl_of_string (peek_output (min 65536 (buffer_size s)) s)) 0 fd k = Some (n, register_write fd, k')"
    "pop_output n s = Some s'" "bs_inv s'" "unat n \<le> length (bs_view s)" "taken k' = taken k @ take (unat n) (bs_view s)"
    "bs_view s' = drop (unat n) (bs_view s)" "max_capacity s' = max_capacity s" "done_writing s' = done_writing s"
    "stream_error s' = stream_error s" "bs_view s \<noteq> [] \<longrightarrow> 0 < unat n"
    using write_from_stream [OF w bs, of k] by blast
  have "stream_fine s'" using s d(3,7,9) by (simp add: stream_fine_def bs_cap_def bs_error_def)
  moreover have "length (bs_view s') = length (bs_view s) - unat n" using d(6) by (metis length_drop)
  ultimately show thesis
    using that [of n k' s'] d unfolding max_copy_length_def
    by (auto simp: input_ended_def simp del: length_bs_view)
qed


subsection \<open>The rules do their part\<close>

lemma input_ok:
  assumes env: "copy_env K s H" and I: "copy_inv s H w" and g: "\<not> fd_eof (sc_input w)" "input_interest w"
  obtains w' where "read_input K w = Some w'" "copy_inv s H w'" "copy_rel H w w'" "copy_left H w' < copy_left H w"
    "read_count (sc_input w') = read_count (sc_input w) + 1" "sc_inbound w' = sc_inbound w" "sc_socket w' = sc_socket w" "sc_output w' = sc_output w"
    "sc_outbound_shutdown w' = sc_outbound_shutdown w" "sc_inbound_shutdown w' = sc_inbound_shutdown w"
    "bs_view (sc_outbound w) \<noteq> [] \<Longrightarrow> bs_view (sc_outbound w') \<noteq> []"
proof -
  have ok: "calls_ok K s H" using env by (simp add: copy_env_def)
  have fd: "fd_num (sc_input w) = STDIN_FILENO" "stream_fine (sc_outbound w)" using I by (simp_all add: copy_inv_def)
  have "reads_until (copy_read K) (fd_num (sc_input w)) (stdin_read H) (stdin_input H)" using calls_okD(1) [OF ok] fd(1) by simp
  moreover have "0 < remaining_capacity (sc_outbound w)" using g(2) by (simp add: input_interest_def)
  ultimately obtain data fd' k' t where r: "fd_read (copy_read K) (remaining_capacity (sc_outbound w)) (sc_input w) (sc_kernel w) = Some (data, fd', k')"
    "t = (if fd_eof fd' then end_input (snd (bs_write data (sc_outbound w))) else snd (bs_write data (sc_outbound w)))"
    "stdin_read H k' = stdin_read H (sc_kernel w) @ data" "stream_fine t" "bs_view t = bs_view (sc_outbound w) @ data"
    "input_ended t \<longleftrightarrow> input_ended (sc_outbound w) \<or> fd_eof fd'"
    "2 * (length (stdin_input H) - length (stdin_read H k')) + length (bs_view t) + of_bool (\<not> fd_eof fd') <
      2 * (length (stdin_input H) - length (stdin_read H (sc_kernel w))) + length (bs_view (sc_outbound w)) + 1"
    "fd' = (sc_input w)\<lparr>fd_eof := fd_eof fd', read_count := read_count (sc_input w) + 1\<rparr>"
    "\<exists>n. k' = snd (snd (snd (copy_read K (fd_num (sc_input w)) n (sc_kernel w))))"
    "fd_eof fd' \<or> stdin_read H (sc_kernel w) = stdin_input H \<Longrightarrow> stdin_read H k' = stdin_input H"
    using read_step [OF _ fd(2) g(1), of "copy_read K" _ _ "sc_kernel w"] by blast
  have k': "socket_written H k' = socket_written H (sc_kernel w)" "socket_read H k' = socket_read H (sc_kernel w)"
    "stdout_written H k' = stdout_written H (sc_kernel w)" using r(9) calls_okD(2) [OF ok] fd(1) by auto
  have f: "fd_num fd' = fd_num (sc_input w)" "fd_closed fd' = fd_closed (sc_input w)" "read_count fd' = read_count (sc_input w) + 1"
    by (subst r(8), simp)+
  let ?w = "w\<lparr>sc_input := fd', sc_kernel := k', sc_outbound := t\<rparr>"
  have "read_input K w = Some ?w" using r(1,2) by (simp add: read_input_def)
  moreover have "copy_inv s H ?w" using I r(3-6,10) k' f by (auto simp: copy_inv_def all_read_def)
  moreover have lt: "copy_left H ?w < copy_left H w" using r(7) k' g(1) by (simp add: copy_left_def del: length_bs_view)
  moreover have "copy_rel H w ?w" using lt r(6,10) k' by (simp add: copy_rel_def all_read_def)
  moreover have "bs_view (sc_outbound w) \<noteq> [] \<Longrightarrow> bs_view t \<noteq> []" using r(5) by simp
  ultimately show thesis using that [of ?w] f(3) by simp
qed

lemma socket_in_ok:
  assumes env: "copy_env K s H" and I: "copy_inv s H w" and g: "\<not> fd_eof (sc_socket w)" "socket_in_interest w"
  obtains w' where "read_socket K w = Some w'" "copy_inv s H w'" "copy_rel H w w'" "copy_left H w' < copy_left H w"
    "read_count (sc_socket w') = read_count (sc_socket w) + 1" "sc_outbound w' = sc_outbound w" "sc_input w' = sc_input w" "sc_output w' = sc_output w"
    "sc_outbound_shutdown w' = sc_outbound_shutdown w" "sc_inbound_shutdown w' = sc_inbound_shutdown w"
    "bs_view (sc_inbound w) \<noteq> [] \<Longrightarrow> bs_view (sc_inbound w') \<noteq> []"
proof -
  have ok: "calls_ok K s H" using env by (simp add: copy_env_def)
  have fd: "fd_num (sc_socket w) = s" "stream_fine (sc_inbound w)" using I by (simp_all add: copy_inv_def)
  have "reads_until (copy_read K) (fd_num (sc_socket w)) (socket_read H) (socket_input H)" using calls_okD(3) [OF ok] fd(1) by simp
  moreover have "0 < remaining_capacity (sc_inbound w)" using g(2) by (simp add: socket_in_interest_def)
  ultimately obtain data fd' k' t where r: "fd_read (copy_read K) (remaining_capacity (sc_inbound w)) (sc_socket w) (sc_kernel w) = Some (data, fd', k')"
    "t = (if fd_eof fd' then end_input (snd (bs_write data (sc_inbound w))) else snd (bs_write data (sc_inbound w)))"
    "socket_read H k' = socket_read H (sc_kernel w) @ data" "stream_fine t" "bs_view t = bs_view (sc_inbound w) @ data"
    "input_ended t \<longleftrightarrow> input_ended (sc_inbound w) \<or> fd_eof fd'"
    "2 * (length (socket_input H) - length (socket_read H k')) + length (bs_view t) + of_bool (\<not> fd_eof fd') <
      2 * (length (socket_input H) - length (socket_read H (sc_kernel w))) + length (bs_view (sc_inbound w)) + 1"
    "fd' = (sc_socket w)\<lparr>fd_eof := fd_eof fd', read_count := read_count (sc_socket w) + 1\<rparr>"
    "\<exists>n. k' = snd (snd (snd (copy_read K (fd_num (sc_socket w)) n (sc_kernel w))))"
    "fd_eof fd' \<or> socket_read H (sc_kernel w) = socket_input H \<Longrightarrow> socket_read H k' = socket_input H"
    using read_step [OF _ fd(2) g(1), of "copy_read K" _ _ "sc_kernel w"] by blast
  have k': "stdin_read H k' = stdin_read H (sc_kernel w)" "socket_written H k' = socket_written H (sc_kernel w)"
    "stdout_written H k' = stdout_written H (sc_kernel w)" using r(9) calls_okD(4) [OF ok] fd(1) by auto
  have f: "fd_num fd' = fd_num (sc_socket w)" "fd_closed fd' = fd_closed (sc_socket w)" "read_count fd' = read_count (sc_socket w) + 1"
    by (subst r(8), simp)+
  have op: "\<not> input_ended (sc_inbound w)" "\<not> fd_closed (sc_output w)" using I g(1) by (auto simp: copy_inv_def bs_eof_def)
  let ?w = "w\<lparr>sc_socket := fd', sc_kernel := k', sc_inbound := t\<rparr>"
  have "read_socket K w = Some ?w" using r(1,2) by (simp add: read_socket_def)
  moreover have "copy_inv s H ?w" using I r(3-6,10) k' f op by (auto simp: copy_inv_def all_read_def)
  moreover have lt: "copy_left H ?w < copy_left H w" using r(7) k' g(1) by (simp add: copy_left_def del: length_bs_view)
  moreover have "copy_rel H w ?w" using lt r(6,10) k' by (simp add: copy_rel_def all_read_def)
  moreover have "bs_view (sc_inbound w) \<noteq> [] \<Longrightarrow> bs_view t \<noteq> []" using r(5) by simp
  ultimately show thesis using that [of ?w] f(3) by simp
qed

lemma untouchedD:
  "untouched H k k' \<Longrightarrow> stdin_read H k' = stdin_read H k" "untouched H k k' \<Longrightarrow> socket_written H k' = socket_written H k"
  "untouched H k k' \<Longrightarrow> socket_read H k' = socket_read H k" "untouched H k k' \<Longrightarrow> stdout_written H k' = stdout_written H k"
  by (simp_all add: untouched_def)

lemma socket_out_ok:
  assumes env: "copy_env K s H" and I: "copy_inv s H w" and g: "socket_out_interest w"
  obtains w' where "write_socket K w = Some w'" "copy_inv s H w'" "copy_rel H w w'" "copy_left H w' < copy_left H w"
    "write_count (sc_socket w') \<noteq> write_count (sc_socket w)" "sc_inbound w' = sc_inbound w" "sc_input w' = sc_input w" "sc_output w' = sc_output w"
    "fd_eof (sc_socket w') = fd_eof (sc_socket w)" "sc_inbound_shutdown w' = sc_inbound_shutdown w"
proof -
  have ok: "calls_ok K s H" using env by (simp add: copy_env_def)
  have fd: "fd_num (sc_socket w) = s" "stream_fine (sc_outbound w)" using I by (simp_all add: copy_inv_def)
  have "writes_through (copy_writev K) (fd_num (sc_socket w)) (socket_written H)" using calls_okD(5) [OF ok] fd(1) by simp
  from write_step [OF this fd(2), of "sc_kernel w"] obtain n k t where
    r: "fd_write (copy_writev K) False (bvl_of_string (peek_output (min max_copy_length (buffer_size (sc_outbound w))) (sc_outbound w))) 0 (sc_socket w)
        (sc_kernel w) = Some (n, register_write (sc_socket w), k)" "pop_output n (sc_outbound w) = Some t" "stream_fine t"
      "socket_written H k @ bs_view t = socket_written H (sc_kernel w) @ bs_view (sc_outbound w)" "input_ended t = input_ended (sc_outbound w)"
      "length (bs_view t) \<le> length (bs_view (sc_outbound w))" "bs_view (sc_outbound w) \<noteq> [] \<Longrightarrow> length (bs_view t) < length (bs_view (sc_outbound w))"
    by blast
  have k: "stdin_read H k = stdin_read H (sc_kernel w)" "socket_read H k = socket_read H (sc_kernel w)" "stdout_written H k = stdout_written H (sc_kernel w)"
    using fd_write_keeps [where view = "stdin_read H", OF _ r(1)] fd_write_keeps [where view = "socket_read H", OF _ r(1)]
      fd_write_keeps [where view = "stdout_written H", OF _ r(1)] calls_okD(6) [OF ok refl] fd(1) by simp_all
  obtain k2 where k2: "socket_shutdown (copy_shutdown K) SHUT_WR (register_write (sc_socket w)) k = Some (register_write (register_write (sc_socket w)), k2)"
    "untouched H k k2" using calls_ok_shutdown [of K "register_write (sc_socket w)" H k] ok fd(1) by (auto simp: register_write_def)
  let ?w = "w\<lparr>sc_socket := register_write (sc_socket w), sc_kernel := k, sc_outbound := t\<rparr>"
  let ?v = "?w\<lparr>sc_socket := register_write (register_write (sc_socket w)), sc_kernel := k2, sc_outbound_shutdown := True\<rparr>"
  have eq: "write_socket K w = Some (if bs_eof t then ?v else ?w)" using r(1,2) k2(1) by (simp add: write_socket_def)
  have inv: "copy_inv s H ?w" "copy_inv s H ?v"
    using I r(3-5) k untouchedD [OF k2(2)] by (simp_all add: copy_inv_def all_read_def register_write_def)
  have "length (bs_view t) < length (bs_view (sc_outbound w)) \<or> bs_eof t \<and> \<not> sc_outbound_shutdown w"
  proof (cases "bs_view (sc_outbound w) = []")
    case True
    then have "bs_view t = []" using r(6) by (simp del: length_bs_view)
    then show ?thesis using g True r(5) by (auto simp: socket_out_interest_def bs_eof_def buffer_empty_view)
  qed (use r(7) in blast)
  then have lt: "copy_left H (if bs_eof t then ?v else ?w) < copy_left H w"
    using r(6) k untouchedD [OF k2(2)] by (auto simp: copy_left_def register_write_def simp del: length_bs_view)
  then have "copy_rel H w (if bs_eof t then ?v else ?w)" using r(5) k untouchedD [OF k2(2)] by (simp add: copy_rel_def all_read_def)
  with that [OF eq _ _ lt] inv show thesis by (simp add: register_write_def)
qed

lemma output_ok:
  assumes env: "copy_env K s H" and I: "copy_inv s H w" and g: "\<not> fd_closed (sc_output w)" "output_interest w"
  obtains w' where "write_output K w = Some w'" "copy_inv s H w'" "copy_rel H w w'" "copy_left H w' < copy_left H w"
    "write_count (sc_output w') \<noteq> write_count (sc_output w)"
proof -
  have ok: "calls_ok K s H" using env by (simp add: copy_env_def)
  have fd: "fd_num (sc_output w) = STDOUT_FILENO" "stream_fine (sc_inbound w)" using I by (simp_all add: copy_inv_def)
  have "writes_through (copy_writev K) (fd_num (sc_output w)) (stdout_written H)" using calls_okD(7) [OF ok] fd(1) by simp
  from write_step [OF this fd(2), of "sc_kernel w"] obtain n k t where
    r: "fd_write (copy_writev K) False (bvl_of_string (peek_output (min max_copy_length (buffer_size (sc_inbound w))) (sc_inbound w))) 0 (sc_output w)
        (sc_kernel w) = Some (n, register_write (sc_output w), k)" "pop_output n (sc_inbound w) = Some t" "stream_fine t"
      "stdout_written H k @ bs_view t = stdout_written H (sc_kernel w) @ bs_view (sc_inbound w)" "input_ended t = input_ended (sc_inbound w)"
      "length (bs_view t) \<le> length (bs_view (sc_inbound w))" "bs_view (sc_inbound w) \<noteq> [] \<Longrightarrow> length (bs_view t) < length (bs_view (sc_inbound w))"
    by blast
  have k: "stdin_read H k = stdin_read H (sc_kernel w)" "socket_written H k = socket_written H (sc_kernel w)" "socket_read H k = socket_read H (sc_kernel w)"
    using fd_write_keeps [where view = "stdin_read H", OF _ r(1)] fd_write_keeps [where view = "socket_written H", OF _ r(1)]
      fd_write_keeps [where view = "socket_read H", OF _ r(1)] calls_okD(8) [OF ok refl] fd(1) by simp_all
  obtain k2 where k2: "fd_close (copy_close K) (register_write (sc_output w)) k = Some ((register_write (sc_output w))\<lparr>fd_eof := True, fd_closed := True\<rparr>, k2)"
    "untouched H k k2" using calls_ok_close [OF ok] by blast
  let ?w = "w\<lparr>sc_output := register_write (sc_output w), sc_kernel := k, sc_inbound := t\<rparr>"
  let ?v = "?w\<lparr>sc_output := (register_write (sc_output w))\<lparr>fd_eof := True, fd_closed := True\<rparr>, sc_kernel := k2, sc_inbound_shutdown := True\<rparr>"
  have eq: "write_output K w = Some (if bs_eof t then ?v else ?w)" using r(1,2) k2(1) by (simp add: write_output_def)
  have inv: "copy_inv s H ?w" "bs_eof t \<Longrightarrow> copy_inv s H ?v"
    using I r(3-5) k untouchedD [OF k2(2)] g(1) by (simp_all add: copy_inv_def all_read_def register_write_def)
  have "length (bs_view t) < length (bs_view (sc_inbound w)) \<or> bs_eof t \<and> \<not> sc_inbound_shutdown w"
  proof (cases "bs_view (sc_inbound w) = []")
    case True
    then have "bs_view t = []" using r(6) by (simp del: length_bs_view)
    then show ?thesis using g True r(5) by (auto simp: output_interest_def bs_eof_def buffer_empty_view)
  qed (use r(7) in blast)
  then have lt: "copy_left H (if bs_eof t then ?v else ?w) < copy_left H w"
    using r(6) k untouchedD [OF k2(2)] by (auto simp: copy_left_def register_write_def simp del: length_bs_view)
  then have "copy_rel H w (if bs_eof t then ?v else ?w)" using r(5) g(1) k untouchedD [OF k2(2)] by (simp add: copy_rel_def all_read_def)
  with that [OF eq _ _ lt] inv show thesis by (simp add: register_write_def)
qed

subsection \<open>The loop of the rules\<close>

abbreviation rule_input :: "'k copy_calls \<Rightarrow> 'k stream_copy rule" where
  "rule_input K \<equiv> \<lparr>rule_fd = sc_input, rule_direction = In, callback = read_input K, interest = input_interest, cancel = end_outbound\<rparr>"

abbreviation rule_socket_out :: "'k copy_calls \<Rightarrow> 'k stream_copy rule" where
  "rule_socket_out K \<equiv> \<lparr>rule_fd = sc_socket, rule_direction = Out, callback = write_socket K, interest = socket_out_interest, cancel = end_outbound\<rparr>"

abbreviation rule_socket_in :: "'k copy_calls \<Rightarrow> 'k stream_copy rule" where
  "rule_socket_in K \<equiv> \<lparr>rule_fd = sc_socket, rule_direction = In, callback = read_socket K, interest = socket_in_interest, cancel = end_inbound\<rparr>"

abbreviation rule_output :: "'k copy_calls \<Rightarrow> 'k stream_copy rule" where
  "rule_output K \<equiv> \<lparr>rule_fd = sc_output, rule_direction = Out, callback = write_output K, interest = output_interest, cancel = end_inbound\<rparr>"

lemma copy_rules_eq: "copy_rules K = [rule_input K, rule_socket_out K, rule_socket_in K, rule_output K]"
  by (simp add: copy_rules_def add_rule_def)

lemma end_outbound_ok:
  assumes "copy_inv s H w" and "all_read H w"
  shows "\<exists>w'. end_outbound w = Some w' \<and> copy_inv s H w' \<and> copy_rel H w w' \<and> input_ended (sc_outbound w')"
  using assms by (auto simp: end_outbound_def copy_inv_def all_read_def copy_rel_def copy_left_def)

lemma end_inbound_ok:
  assumes "copy_inv s H w" and "fd_eof (sc_socket w) \<or> fd_closed (sc_output w)"
  shows "\<exists>w'. end_inbound w = Some w' \<and> copy_inv s H w' \<and> copy_rel H w w' \<and> input_ended (sc_inbound w')"
  using assms by (auto simp: end_inbound_def copy_inv_def all_read_def copy_rel_def copy_left_def bs_eof_def)

text \<open>
  What holds once a rule is gone: the first and the third end their stream; the second is never removed; the fourth is
  removed when standard output has been closed.
\<close>

definition copy_gone :: "'k stream_copy rule \<Rightarrow> 'k stream_copy \<Rightarrow> bool" where
  "copy_gone r w = (case rule_direction r of
     In \<Rightarrow> (if rule_fd r = sc_input then input_ended (sc_outbound w) else input_ended (sc_inbound w))
   | Out \<Rightarrow> rule_fd r = sc_output \<and> fd_closed (sc_output w))"

definition armed :: "'k stream_copy rule \<Rightarrow> 'k stream_copy \<Rightarrow> bool" where
  "armed r w \<longleftrightarrow> \<not> over r w \<and> interest r w"

lemma fields_differ [simp]:
  "(sc_socket :: 'k stream_copy \<Rightarrow> fd_wrapper) \<noteq> sc_input" "(sc_socket :: 'k stream_copy \<Rightarrow> fd_wrapper) \<noteq> sc_output"
proof -
  define fd where "fd n = \<lparr>fd_num = n, fd_eof = False, fd_closed = False, read_count = 0, write_count = 0\<rparr>" for n
  define w :: "'k stream_copy" where "w = undefined\<lparr>sc_socket := fd 0, sc_input := fd 1, sc_output := fd 2\<rparr>"
  have "sc_socket w \<noteq> sc_input w" "sc_socket w \<noteq> sc_output w" by (simp_all add: w_def fd_def)
  then show "(sc_socket :: 'k stream_copy \<Rightarrow> fd_wrapper) \<noteq> sc_input" "(sc_socket :: 'k stream_copy \<Rightarrow> fd_wrapper) \<noteq> sc_output"
    by metis+
qed

lemma copy_gone_simps [simp]:
  "copy_gone (rule_input K) w = input_ended (sc_outbound w)" "\<not> copy_gone (rule_socket_out K) w"
  "copy_gone (rule_socket_in K) w = input_ended (sc_inbound w)" "copy_gone (rule_output K) w = fd_closed (sc_output w)"
  by (simp_all add: copy_gone_def)

lemma armed_simps [simp]:
  "armed (rule_input K) w \<longleftrightarrow> \<not> fd_eof (sc_input w) \<and> \<not> fd_closed (sc_input w) \<and> input_interest w"
  "armed (rule_socket_out K) w \<longleftrightarrow> \<not> fd_closed (sc_socket w) \<and> socket_out_interest w"
  "armed (rule_socket_in K) w \<longleftrightarrow> \<not> fd_eof (sc_socket w) \<and> \<not> fd_closed (sc_socket w) \<and> socket_in_interest w"
  "armed (rule_output K) w \<longleftrightarrow> \<not> fd_closed (sc_output w) \<and> output_interest w"
  by (auto simp: armed_def over_def)

lemma copy_serves:
  assumes env: "copy_env K s H" and r: "r \<in> set (copy_rules K)" and I: "copy_inv s H w" and g: "armed r w"
  shows "\<exists>w'. callback r w = Some w' \<and> copy_inv s H w' \<and> copy_rel H w w' \<and> copy_left H w' < copy_left H w \<and>
    (interest r w' \<longrightarrow> service_count r w' \<noteq> service_count r w)"
proof -
  consider "r = rule_input K" | "r = rule_socket_out K" | "r = rule_socket_in K" | "r = rule_output K"
    using r by (auto simp: copy_rules_eq)
  then show ?thesis
  proof cases
    case 1
    show ?thesis by (rule input_ok [OF env I, where thesis = ?thesis]) (use g 1 in \<open>auto simp: service_count_def\<close>)
  next
    case 2
    show ?thesis by (rule socket_out_ok [OF env I, where thesis = ?thesis]) (use g 2 in \<open>auto simp: service_count_def\<close>)
  next
    case 3
    show ?thesis by (rule socket_in_ok [OF env I, where thesis = ?thesis]) (use g 3 in \<open>auto simp: service_count_def\<close>)
  next
    case 4
    show ?thesis by (rule output_ok [OF env I, where thesis = ?thesis]) (use g 4 in \<open>auto simp: service_count_def\<close>)
  qed
qed

lemma armed_keeps:
  assumes env: "copy_env K s H" and I: "copy_inv s H w"
  shows "armed (rule_input K) w \<Longrightarrow> read_input K w = Some w' \<Longrightarrow> copy_inv s H w' \<and> sc_inbound w' = sc_inbound w \<and>
      sc_socket w' = sc_socket w \<and> sc_output w' = sc_output w \<and> sc_outbound_shutdown w' = sc_outbound_shutdown w \<and>
      sc_inbound_shutdown w' = sc_inbound_shutdown w \<and> (socket_out_interest w \<longrightarrow> socket_out_interest w')"
    and "armed (rule_socket_out K) w \<Longrightarrow> write_socket K w = Some w' \<Longrightarrow> copy_inv s H w' \<and> sc_inbound w' = sc_inbound w \<and>
      sc_output w' = sc_output w \<and> fd_eof (sc_socket w') = fd_eof (sc_socket w) \<and> sc_inbound_shutdown w' = sc_inbound_shutdown w"
    and "armed (rule_socket_in K) w \<Longrightarrow> read_socket K w = Some w' \<Longrightarrow> sc_output w' = sc_output w \<and> (output_interest w \<longrightarrow> output_interest w')"
proof -
  show "copy_inv s H w' \<and> sc_inbound w' = sc_inbound w \<and>
      sc_socket w' = sc_socket w \<and> sc_output w' = sc_output w \<and> sc_outbound_shutdown w' = sc_outbound_shutdown w \<and>
      sc_inbound_shutdown w' = sc_inbound_shutdown w \<and> (socket_out_interest w \<longrightarrow> socket_out_interest w')"
    if "armed (rule_input K) w" "read_input K w = Some w'"
    by (rule input_ok [OF env I]) (use that in \<open>auto simp: copy_rel_def socket_out_interest_def buffer_empty_view bs_eof_def\<close>)
  show "copy_inv s H w' \<and> sc_inbound w' = sc_inbound w \<and>
      sc_output w' = sc_output w \<and> fd_eof (sc_socket w') = fd_eof (sc_socket w) \<and> sc_inbound_shutdown w' = sc_inbound_shutdown w"
    if "armed (rule_socket_out K) w" "write_socket K w = Some w'"
    by (rule socket_out_ok [OF env I]) (use that in auto)
  show "sc_output w' = sc_output w \<and> (output_interest w \<longrightarrow> output_interest w')"
    if "armed (rule_socket_in K) w" "read_socket K w = Some w'"
    by (rule socket_in_ok [OF env I]) (use that in \<open>auto simp: copy_rel_def output_interest_def buffer_empty_view bs_eof_def\<close>)
qed

lemma cancel_keeps:
  assumes "r \<in> set (copy_rules K)" and "end_outbound w = Some w' \<or> end_inbound w = Some w'" and "armed r w"
  shows "armed r w'"
proof -
  have w': "w' = w\<lparr>sc_outbound := end_input (sc_outbound w)\<rparr> \<or> w' = w\<lparr>sc_inbound := end_input (sc_inbound w)\<rparr>"
    using assms(2) by (auto simp: end_outbound_def end_inbound_def)
  have e: "remaining_capacity (end_input t) = remaining_capacity t" "bs_error (end_input t) = bs_error t" for t
    by (simp_all add: remaining_capacity_def bs_error_def end_input_def)
  consider "r = rule_input K" | "r = rule_socket_out K" | "r = rule_socket_in K" | "r = rule_output K"
    using assms(1) by (auto simp: copy_rules_eq)
  then show ?thesis using assms(3) w'
    by cases (auto simp: input_interest_def socket_out_interest_def socket_in_interest_def output_interest_def bs_eof_def e)
qed

lemma undisturbed_rules:
  assumes env: "copy_env K s H"
  shows "sorted_wrt (undisturbed (copy_inv s H) armed) (copy_rules K)"
proof -
  let ?U = "undisturbed (copy_inv s H) armed"
  have U: "?U r r'" if "r \<in> set (copy_rules K)" "r' \<in> set (copy_rules K)"
    "\<And>w w'. copy_inv s H w \<Longrightarrow> armed r' w \<Longrightarrow> armed r w \<Longrightarrow> callback r w = Some w' \<Longrightarrow> armed r' w'" for r r'
  proof (rule undisturbedI)
    have "cancel r \<in> {end_outbound, end_inbound}" "cancel r' \<in> {end_outbound, end_inbound}"
      using that(1,2) by (auto simp: copy_rules_eq)
    then show "armed r' w'" if "armed r' w" "cancel r w = Some w'" for w w'
      using cancel_keeps [OF \<open>r' \<in> _\<close> _ that(1)] that(2) by fastforce
    show "armed r w'" if "armed r w" "cancel r' w = Some w'" for w w'
      using cancel_keeps [OF \<open>r \<in> _\<close> _ that(1)] that(2) \<open>cancel r' \<in> _\<close> by fastforce
  qed (rule that(3))
  have fine: "\<not> bs_error (sc_outbound w) \<and> \<not> fd_closed (sc_socket w)" if "copy_inv s H w" for w
    using that by (simp add: copy_inv_def stream_fine_def)
  note keeps = armed_keeps [OF env]
  have A: "armed r' w'" if "copy_inv s H w" "armed r' w" "armed (rule_input K) w" "read_input K w = Some w'"
    "r' \<in> {rule_socket_out K, rule_socket_in K, rule_output K}" for r' w w'
    using keeps(1) [OF that(1,3,4)] that(1,2,5) fine [of w'] by (auto simp: socket_in_interest_def output_interest_def)
  have B: "armed r' w'" if "copy_inv s H w" "armed r' w" "armed (rule_socket_out K) w" "write_socket K w = Some w'"
    "r' \<in> {rule_socket_in K, rule_output K}" for r' w w'
    using keeps(2) [OF that(1,3,4)] that(1,2,5) fine [of w'] by (auto simp: socket_in_interest_def output_interest_def)
  have C: "armed (rule_output K) w'" if "copy_inv s H w" "armed (rule_output K) w" "armed (rule_socket_in K) w" "read_socket K w = Some w'" for w w'
    using keeps(3) [OF that(1,3,4)] that(2) by simp
  have in_rules: "rule_input K \<in> set (copy_rules K)" "rule_socket_out K \<in> set (copy_rules K)"
    "rule_socket_in K \<in> set (copy_rules K)" "rule_output K \<in> set (copy_rules K)" by (simp_all add: copy_rules_eq)
  have "?U (rule_input K) r'" if "r' \<in> {rule_socket_out K, rule_socket_in K, rule_output K}" for r'
    by (rule U [OF in_rules(1)]) (use that A in_rules in auto)
  moreover have "?U (rule_socket_out K) r'" if "r' \<in> {rule_socket_in K, rule_output K}" for r'
    by (rule U [OF in_rules(2)]) (use that B in_rules in auto)
  moreover have "?U (rule_socket_in K) (rule_output K)"
    by (rule U [OF in_rules(3,4)]) (simp only: rule.select_convs, rule C)
  ultimately show ?thesis unfolding copy_rules_eq by simp
qed

lemma poll_blocksD:
  assumes "poll_blocks K H" and "copy_poll K ps t k = (rv, errno, revents, k')"
  shows "0 \<le> sint rv" and "length revents = length ps" and "\<forall>x \<in> set revents. x AND (POLLERR OR POLLNVAL) = 0"
    and "\<forall>p \<in> set (zip ps revents). hung (snd (fst p), snd p) \<longrightarrow> fst (fst p) = STDIN_FILENO \<and> stdin_read H k' = stdin_input H"
    and "untouched H k k'" and "\<exists>p \<in> set ps. snd p \<in> range direction_events \<Longrightarrow> 0 < sint rv \<and> (\<exists>p \<in> set (zip (map snd ps) revents). reported p)"
  using spec [OF spec [OF spec [OF assms(1) [unfolded poll_blocks_def], of ps], of t], of k] assms(2) by simp_all

lemma copy_inv_numbers:
  "copy_inv s H w \<Longrightarrow> fd_num (sc_socket w) = s \<and> fd_num (sc_input w) = STDIN_FILENO \<and> fd_num (sc_output w) = STDOUT_FILENO"
  by (simp add: copy_inv_def)

lemma poll_keeps:
  assumes env: "copy_env K s H" and I: "copy_inv s H w" and p: "copy_wait K ps t w = (rv, errno, revents, w')"
  shows "length revents = length ps \<and> (\<forall>x \<in> set revents. x AND (POLLERR OR POLLNVAL) = 0) \<and>
    (\<forall>p \<in> set (zip ps revents). hung (snd (fst p), snd p) \<longrightarrow> fst (fst p) = STDIN_FILENO \<and> all_read H w') \<and>
    copy_inv s H w' \<and> copy_rel H w w' \<and> (armed r w \<longrightarrow> r \<in> set (copy_rules K) \<longrightarrow> armed r w')"
proof -
  obtain k where k: "copy_poll K ps t (sc_kernel w) = (rv, errno, revents, k)" "w' = w\<lparr>sc_kernel := k\<rparr>"
    using p by (auto simp: copy_wait_def split: prod.splits)
  have env: "poll_blocks K H" using env by (simp add: copy_env_def)
  note P = poll_blocksD(2-5) [OF env k(1)]
  have "copy_inv s H w'" "copy_rel H w w'"
    using I untouchedD [OF P(4)] by (simp_all add: k(2) copy_inv_def copy_rel_def copy_left_def all_read_def)
  moreover have "armed r w'" if "armed r w" "r \<in> set (copy_rules K)"
    using that by (auto simp: copy_rules_eq k(2) input_interest_def socket_out_interest_def socket_in_interest_def output_interest_def)
  ultimately show ?thesis using P by (simp add: k(2) all_read_def)
qed

lemma copy_cancels:
  assumes r: "r \<in> set (copy_rules K)" and I: "copy_inv s H w"
    and c: "over r w \<or> fd_num (rule_fd r w) = STDIN_FILENO \<and> all_read H w" and s: "s \<noteq> STDIN_FILENO"
  shows "\<exists>w'. cancel r w = Some w' \<and> copy_inv s H w' \<and> copy_rel H w w' \<and> copy_gone r w'"
proof -
  have n: "fd_num (sc_socket w) = s" "fd_num (sc_output w) = STDOUT_FILENO" "\<not> fd_closed (sc_socket w)" "\<not> fd_closed (sc_input w)"
    "fd_eof (sc_input w) \<Longrightarrow> all_read H w" "fd_closed (sc_output w) \<Longrightarrow> fd_eof (sc_socket w)"
    using I by (auto simp: copy_inv_def bs_eof_def)
  consider "r = rule_input K" "all_read H w" | "r = rule_socket_in K" "fd_eof (sc_socket w)" | "r = rule_output K" "fd_closed (sc_output w)"
    using r c n s by (auto simp: copy_rules_eq over_def STDIN_FILENO_def STDOUT_FILENO_def)
  then show ?thesis
  proof cases
    case 1
    then show ?thesis using end_outbound_ok [OF I] by auto
  next
    case 2
    then show ?thesis using end_inbound_ok [OF I] by auto
  next
    case 3
    then obtain w' where "end_inbound w = Some w'" "copy_inv s H w'" "copy_rel H w w'" using end_inbound_ok [OF I] by auto
    then show ?thesis using 3 by (auto simp: copy_rel_def)
  qed
qed

interpretation copy: event_client "copy_rules K" "copy_wait K" "\<lambda>w. copy_env K s H \<and> copy_inv s H w" "\<lambda>w. copy_env K s H \<and> copy_inv s H w"
  armed "copy_rel H" "\<lambda>w w'. copy_left H w' < copy_left H w" copy_gone "\<lambda>p w. fst p = STDIN_FILENO \<and> all_read H w"
  for K :: "'k copy_calls" and s H
proof unfold_locales
  fix r and w w0 :: "'k stream_copy" and p w'
  assume r: "r \<in> set (copy_rules K)"
  show "copy_gone r w'" if "copy_gone r w" "copy_rel H w w'"
    using r that by (auto simp: copy_rules_eq copy_rel_def)
  show "\<exists>w'. callback r w = Some w' \<and> (copy_env K s H \<and> copy_inv s H w') \<and> copy_rel H w w' \<and> copy_left H w' < copy_left H w \<and>
      (interest r w' \<longrightarrow> service_count r w' \<noteq> service_count r w)" if "copy_env K s H \<and> copy_inv s H w" "armed r w"
    using copy_serves [OF _ r _ that(2), of s H] that(1) by blast
  show "\<exists>w'. cancel r w = Some w' \<and> (copy_env K s H \<and> copy_inv s H w') \<and> copy_rel H w w' \<and> copy_gone r w'"
    if "copy_env K s H \<and> copy_inv s H w" "over r w"
    using copy_cancels [OF r, of s H w] that by (auto simp: copy_env_def)
  show "\<exists>w'. cancel r w = Some w' \<and> (copy_env K s H \<and> copy_inv s H w') \<and> copy_rel H w w' \<and> copy_gone r w'"
    if I: "copy_env K s H \<and> copy_inv s H w" and 0: "copy_env K s H \<and> copy_inv s H w0"
      and "fst (fd_num (rule_fd r w0), direction_events (rule_direction r)) = STDIN_FILENO \<and> all_read H w"
  proof -
    have "fd_num (rule_fd r w) = fd_num (rule_fd r w0)" using r copy_inv_numbers [of s H w] copy_inv_numbers [of s H w0] I 0 by (auto simp: copy_rules_eq)
    then show ?thesis using copy_cancels [OF r, of s H w] that by (simp add: copy_env_def)
  qed
next
  show "sorted_wrt (undisturbed (\<lambda>w. copy_env K s H \<and> copy_inv s H w) armed) (copy_rules K)"
  proof (cases "copy_env K s H")
    case False
    then show ?thesis by (simp add: undisturbed_def copy_rules_eq)
  qed (use undisturbed_rules in simp)
next
  fix w w' :: "'k stream_copy" and ps t rv errno revents
  assume "copy_env K s H \<and> copy_inv s H w" "copy_wait K ps t w = (rv, errno, revents, w')"
  then show "length revents = length ps \<and> (\<forall>x \<in> set revents. x AND (POLLERR OR POLLNVAL) = 0) \<and>
      (\<forall>p \<in> set (zip ps revents). hung (snd (fst p), snd p) \<longrightarrow> fst (fst p) = STDIN_FILENO \<and> all_read H w') \<and>
      (copy_env K s H \<and> copy_inv s H w') \<and> copy_rel H w w' \<and> (\<forall>r \<in> set (copy_rules K). armed r w \<longrightarrow> armed r w')"
    using poll_keeps [of K s H w ps t rv errno revents w'] by blast
qed (auto simp: copy_rel_def armed_def)
subsection \<open>The loop copies everything\<close>

definition copied :: "'k copy_history \<Rightarrow> 'k stream_copy \<Rightarrow> bool" where
  "copied H w \<longleftrightarrow> socket_written H (sc_kernel w) = stdin_input H \<and> stdout_written H (sc_kernel w) = socket_input H \<and>
     sc_outbound_shutdown w \<and> fd_closed (sc_output w)"

lemma exit_copied:
  assumes I: "copy_inv s H w" and u: "\<forall>r \<in> set rs. \<not> interest r w" and g: "\<forall>r \<in> set (copy_rules K) - set rs. copy_gone r w"
  shows "copied H w"
proof -
  have gone: "copy_gone r w \<or> \<not> interest r w" if "r \<in> set (copy_rules K)" for r using u g that by blast
  have room: "0 < remaining_capacity t" if "stream_fine t" "bs_view t = []" for t
    using that bs_invD(6) [of t] length_bs_view [of t] by (auto simp: stream_fine_def word_less_nat_alt)
  have fine: "stream_fine (sc_outbound w)" "stream_fine (sc_inbound w)" "\<not> bs_error (sc_outbound w)" "\<not> bs_error (sc_inbound w)"
    using I by (simp_all add: copy_inv_def stream_fine_def)
  have out: "bs_view (sc_outbound w) = []" "bs_eof (sc_outbound w) \<Longrightarrow> sc_outbound_shutdown w"
    using gone [of "rule_socket_out K"] by (auto simp: copy_rules_eq socket_out_interest_def buffer_empty_view)
  have "input_ended (sc_outbound w)"
    using gone [of "rule_input K"] room [OF fine(1) out(1)] fine by (auto simp: copy_rules_eq input_interest_def)
  then have 1: "all_read H w" "sc_outbound_shutdown w" using I out by (auto simp: copy_inv_def bs_eof_def buffer_empty_view)
  have inb: "bs_view (sc_inbound w) = []" "bs_eof (sc_inbound w) \<Longrightarrow> sc_inbound_shutdown w"
    using gone [of "rule_output K"] I by (auto simp: copy_rules_eq output_interest_def buffer_empty_view copy_inv_def bs_eof_def)
  have "input_ended (sc_inbound w)"
    using gone [of "rule_socket_in K"] room [OF fine(2) inb(1)] fine by (auto simp: copy_rules_eq socket_in_interest_def)
  then have 2: "socket_read H (sc_kernel w) = socket_input H" "sc_inbound_shutdown w"
    using I inb by (auto simp: copy_inv_def bs_eof_def buffer_empty_view)
  show ?thesis using I 1 2 out(1) inb(1) by (simp add: copied_def copy_inv_def all_read_def)
qed

lemma cancel_uninterested:
  "sorted_wrt (\<lambda>r r'. \<forall>w w'. cancel r' w = Some w' \<longrightarrow> interest r w' \<longrightarrow> interest r w) (copy_rules K)"
  by (auto simp: copy_rules_eq end_outbound_def end_inbound_def input_interest_def socket_out_interest_def socket_in_interest_def
      remaining_capacity_def bs_error_def end_input_def)

lemma copy_wait_ok:
  assumes env: "copy_env K s H" and rs: "subseq rs (copy_rules K)" and I: "copy_inv s H w"
    and g: "\<forall>r \<in> set (copy_rules K) - set rs. copy_gone r w"
  obtains res rs' w' where "wait_next_event (copy_wait K) (- 1) rs w = Some (res, rs', w')" "subseq rs' (copy_rules K)" "copy_inv s H w'"
    "\<forall>r \<in> set (copy_rules K) - set rs'. copy_gone r w'" "res = Exit \<Longrightarrow> copied H w'"
    "res \<noteq> Exit \<Longrightarrow> copy_left H w' + length rs' < copy_left H w + length rs"
proof -
  have pb: "poll_blocks K H" using env by (simp add: copy_env_def)
  have wait: "\<exists>k'. copy_poll K ps t (sc_kernel v) = (rv, errno, revents, k')" if "copy_wait K ps t v = (rv, errno, revents, v')" for ps t v rv errno revents v'
    using that by (auto simp: copy_wait_def split: prod.splits)
  have blocks: "0 < sint rv \<and> (\<exists>p \<in> set (zip (map snd ps) revents). reported p)"
    if "copy_wait K ps (- 1) v = (rv, errno, revents, v')" "\<exists>p \<in> set ps. snd p \<in> range direction_events" for ps v rv errno revents v'
    using wait [OF that(1)] poll_blocksD(6) [OF pb _ that(2)] by blast
  obtain res rs' w' where w: "wait_next_event (copy_wait K) (- 1) rs w = Some (res, rs', w')" "subseq rs' rs" "copy_inv s H w'" "copy_rel H w w'"
    "\<forall>r \<in> set rs - set rs'. copy_gone r w'" "res = Exit \<or> copy_left H w' < copy_left H w \<or> length rs' < length rs"
    using copy.wait_ok [OF rs, of s H w "- 1"] env I blocks by blast
  have g': "\<forall>r \<in> set (copy_rules K) - set rs'. copy_gone r w'" using w(4,5) g copy.gone_rel [where w = w and w' = w'] by blast
  have sub: "subseq rs' (copy_rules K)" using w(2) rs by (rule subseq_order.order_trans)
  have "copied H w'" if "res = Exit"
  proof -
    have "0 \<le> sint (fst (copy_wait K ps t v))" for ps t v
      using poll_blocksD(1) [OF pb] by (cases "copy_poll K ps t (sc_kernel v)") (simp add: copy_wait_def)
    then obtain ps where "setup_polls rs w = Some (rs', ps, False, w')" using wait_exit [of "copy_wait K" "- 1" rs w rs' w'] w(1) \<open>res = Exit\<close> by blast
    from setup_uninterested [OF this] subseq_sorted_wrt [OF rs cancel_uninterested] have "\<forall>r \<in> set rs'. \<not> interest r w'" by blast
    then show ?thesis using exit_copied w(3) g' by blast
  qed
  moreover have "length rs' \<le> length rs" using w(2) by (rule list_emb_length)
  moreover have "copy_left H w' \<le> copy_left H w" using w(4) by (simp add: copy_rel_def)
  ultimately show thesis using that [OF w(1) sub w(3) g'] w(6) by auto
qed

lemma copy_loop_ok:
  assumes env: "copy_env K s H"
  shows "subseq rs (copy_rules K) \<Longrightarrow> copy_inv s H w \<Longrightarrow> \<forall>r \<in> set (copy_rules K) - set rs. copy_gone r w \<Longrightarrow>
    \<exists>rs' w'. copy_loop K rs w = Some (Some (rs', w')) \<and> copy_inv s H w' \<and> copied H w'"
proof (induction "copy_left H w + length rs" arbitrary: rs w rule: less_induct)
  case less
  obtain res rs' w' where w: "wait_next_event (copy_wait K) (- 1) rs w = Some (res, rs', w')" "subseq rs' (copy_rules K)" "copy_inv s H w'"
    "\<forall>r \<in> set (copy_rules K) - set rs'. copy_gone r w'" "res = Exit \<Longrightarrow> copied H w'"
    "res \<noteq> Exit \<Longrightarrow> copy_left H w' + length rs' < copy_left H w + length rs"
    using copy_wait_ok [OF env less.prems] by blast
  show ?case
  proof (cases "res = Exit")
    case True
    then show ?thesis using w by (subst copy_loop.simps) simp
  next
    case False
    then show ?thesis using less.hyps [OF w(6,2,3,4)] w(1) by (subst copy_loop.simps) simp
  qed
qed

lemma copy_start_ok:
  assumes env: "copy_env K (fd_num socket) H" and socket: "\<not> fd_eof socket" "\<not> fd_closed socket"
    and fresh: "stdin_read H k = []" "socket_written H k = []" "socket_read H k = []" "stdout_written H k = []"
  obtains w where "copy_start K socket k = Some w" "copy_inv (fd_num socket) H w"
proof -
  have ok: "calls_ok K (fd_num socket) H" using env by (simp add: copy_env_def)
  define fd where "fd n = \<lparr>fd_num = n, fd_eof = False, fd_closed = False, read_count = 0, write_count = 0\<rparr>" for n
  have new: "fd_new STDIN_FILENO = Some (fd STDIN_FILENO)" "fd_new STDOUT_FILENO = Some (fd STDOUT_FILENO)"
    by (simp_all add: fd_new_def fd_def STDIN_FILENO_def STDOUT_FILENO_def)
  obtain k1 where 1: "set_blocking (copy_fcntl K) False socket k = Some k1" "untouched H k k1" by (rule calls_ok_set_blocking [OF ok])
  obtain k2 where 2: "set_blocking (copy_fcntl K) False (fd STDIN_FILENO) k1 = Some k2" "untouched H k1 k2" by (rule calls_ok_set_blocking [OF ok])
  obtain k3 where 3: "set_blocking (copy_fcntl K) False (fd STDOUT_FILENO) k2 = Some k3" "untouched H k2 k3" by (rule calls_ok_set_blocking [OF ok])
  let ?s = "bs_new copy_buffer_size"
  have s: "stream_fine ?s" "\<not> input_ended ?s"
    by (simp_all add: stream_fine_def bs_inv_new copy_buffer_size_def) (simp_all add: bs_cap_def bs_error_def input_ended_def bs_new_def)
  have "copy_start K socket k = Some \<lparr>sc_socket = socket, sc_input = fd STDIN_FILENO, sc_output = fd STDOUT_FILENO, sc_outbound = ?s,
      sc_inbound = ?s, sc_outbound_shutdown = False, sc_inbound_shutdown = False, sc_kernel = k3\<rparr>" (is "_ = Some ?w")
    using new 1(1) 2(1) 3(1) by (simp add: copy_start_def)
  moreover have "copy_inv (fd_num socket) H ?w"
    using s socket fresh untouchedD [OF 1(2)] untouchedD [OF 2(2)] untouchedD [OF 3(2)]
    by (simp add: copy_inv_def fd_def)
  ultimately show thesis using that by blast
qed

lemma copy_end_ok:
  assumes "calls_ok K s H"
  shows "untouched H (sc_kernel w) (sc_kernel (copy_end K rules w))" and "copy_end K rules w = w\<lparr>sc_kernel := sc_kernel (copy_end K rules w)\<rparr>"
proof -
  have c: "untouched H k k'" if "copy_close K n k = (rv, errno, k')" for n k rv errno k'
    using assms that unfolding calls_ok_def by (metis (no_types, lifting) case_prod_conv)
  have "untouched H k (fd_destroy (copy_close K) fd k)" for fd k
    using c [of "fd_num fd" k] by (cases "copy_close K (fd_num fd) k") (simp add: fd_destroy_def untouched_def)
  then show "untouched H (sc_kernel w) (sc_kernel (copy_end K rules w))"
    by (auto simp: copy_end_def Let_def untouched_def)
qed (simp add: copy_end_def Let_def)

text \<open>
  C7. The copy ends, and everything has been copied: if no system call fails, \<open>bidirectional_stream_copy\<close> returns; all of
  standard input has then been written to the socket and all the socket has received to standard output, in order, the
  socket has been shut down for writing and standard output has been closed.
\<close>

theorem stream_copy_complete:
  assumes env: "copy_env K (fd_num socket) H" and socket: "\<not> fd_eof socket" "\<not> fd_closed socket"
    and fresh: "stdin_read H k = []" "socket_written H k = []" "socket_read H k = []" "stdout_written H k = []"
  shows "\<exists>w. bidirectional_stream_copy K socket k = Some (Some w) \<and>
    socket_written H (sc_kernel w) = stdin_input H \<and> stdout_written H (sc_kernel w) = socket_input H \<and>
    sc_outbound_shutdown w \<and> fd_closed (sc_output w)"
proof -
  obtain w where w: "copy_start K socket k = Some w" "copy_inv (fd_num socket) H w" using copy_start_ok [OF assms] .
  obtain rules w' where l: "copy_loop K (copy_rules K) w = Some (Some (rules, w'))" "copied H w'"
    using copy_loop_ok [OF env, of "copy_rules K" w] w(2) by auto
  have ok: "calls_ok K (fd_num socket) H" using env by (simp add: copy_env_def)
  note e = copy_end_ok [OF ok, where w = w' and rules = rules]
  have "bidirectional_stream_copy K socket k = Some (Some (copy_end K rules w'))" using w(1) l(1) by (simp add: bidirectional_stream_copy_def)
  moreover have "sc_outbound_shutdown (copy_end K rules w') = sc_outbound_shutdown w'" "sc_output (copy_end K rules w') = sc_output w'"
    by (subst e(2), simp)+
  ultimately show ?thesis using l(2) untouchedD [OF e(1)] by (simp add: copied_def)
qed

text \<open>A kernel whose calls move one byte at a time; the first two numbers count the bytes read.\<close>

type_synonym slow_kernel = "(nat \<times> nat) \<times> bytes \<times> bytes"

definition slow_read :: "bytes \<Rightarrow> bytes \<Rightarrow> slow_kernel sys_read" where
  "slow_read a b fd n k = (case k of ((i, j), out) \<Rightarrow>
     if n = 0 then (0, 0, [], k)
     else if fd = STDIN_FILENO then (if i < length a then (1, 0, [a ! i], (Suc i, j), out) else (0, 0, [], k))
     else (if j < length b then (1, 0, [b ! j], (i, Suc j), out) else (0, 0, [], k)))"

definition slow_writev :: "slow_kernel sys_writev" where
  "slow_writev fd iov k = (case k of (ij, x, y) \<Rightarrow>
     if concat iov = [] then (0, 0, k)
     else if fd = STDOUT_FILENO then (1, 0, ij, x, y @ [hd (concat iov)])
     else (1, 0, ij, x @ [hd (concat iov)], y))"

definition slow_calls :: "bytes \<Rightarrow> bytes \<Rightarrow> slow_kernel copy_calls" where
  "slow_calls a b = \<lparr>copy_read = slow_read a b, copy_writev = slow_writev, copy_shutdown = (\<lambda>fd how k. (0, 0, k)),
     copy_close = (\<lambda>fd k. (0, 0, k)), copy_fcntl = (\<lambda>fd cmd arg k. (0, 0, k)), copy_poll = (\<lambda>ps t k. (1, 0, map (\<lambda>p. snd p AND (POLLIN OR POLLOUT)) ps, k))\<rparr>"

definition slow_history :: "bytes \<Rightarrow> bytes \<Rightarrow> slow_kernel copy_history" where
  "slow_history a b = \<lparr>stdin_read = (\<lambda>k. take (fst (fst k)) a), socket_written = (\<lambda>k. fst (snd k)), socket_read = (\<lambda>k. take (snd (fst k)) b),
     stdout_written = (\<lambda>k. snd (snd k)), stdin_input = a, socket_input = b\<rparr>"

lemma slow_reads:
  "reads_until (slow_read a b) STDIN_FILENO (\<lambda>k. take (fst (fst k)) a) a" "reads_until (slow_read a b) 3 (\<lambda>k. take (snd (fst k)) b) b"
proof -
  have "1 \<le> uint n" if "0 < n" for n :: u64 using that by (simp add: word_less_def)
  then show "reads_until (slow_read a b) STDIN_FILENO (\<lambda>k. take (fst (fst k)) a) a" "reads_until (slow_read a b) 3 (\<lambda>k. take (snd (fst k)) b) b"
    by (auto simp: reads_until_def reads_through_def slow_read_def STDIN_FILENO_def take_Suc_conv_app_nth take_is_prefix word_neq_0_conv split: if_splits)
qed

lemma slow_writes:
  "writes_through slow_writev 3 (\<lambda>k. fst (snd k))" "writes_through slow_writev STDOUT_FILENO (\<lambda>k. snd (snd k))"
proof -
  have "Suc 0 \<le> length (concat iov) \<and> take (Suc 0) (concat iov) = [hd (concat iov)]" if "concat iov \<noteq> []" for iov :: "bytes list"
    using that by (cases "concat iov") simp_all
  then show "writes_through slow_writev 3 (\<lambda>k. fst (snd k))" "writes_through slow_writev STDOUT_FILENO (\<lambda>k. snd (snd k))"
    by (auto simp: writes_through_def slow_writev_def STDOUT_FILENO_def simp del: concat_eq_Nil_conv)
qed

lemma slow_poll: "poll_blocks (slow_calls a b) (slow_history a b)"
proof -
  have flags: "(x AND (POLLIN OR POLLOUT)) AND (POLLERR OR POLLNVAL) = 0" "(x AND (POLLIN OR POLLOUT)) AND POLLHUP = 0" for x :: u16
    by (simp_all add: poll_flags and.assoc)
  have ready: "(direction_events d AND (POLLIN OR POLLOUT)) AND direction_events d \<noteq> 0" for d by (cases d) (simp_all add: poll_flags)
  have "\<exists>p \<in> set (zip (map snd ps) (map (\<lambda>p. snd p AND (POLLIN OR POLLOUT)) ps)). reported p"
    if asks: "\<exists>p \<in> set ps. snd p \<in> range direction_events" for ps :: "pollfd list"
  proof -
    obtain q d where "q \<in> set ps" "snd q = direction_events d" using asks by blast
    then have "(snd q, snd q AND (POLLIN OR POLLOUT)) \<in> set (zip (map snd ps) (map (\<lambda>p. snd p AND (POLLIN OR POLLOUT)) ps))"
      by (force simp: set_zip in_set_conv_nth)
    then show ?thesis by (rule bexI [rotated]) (use ready \<open>snd q = _\<close> in \<open>simp add: reported_def\<close>)
  qed
  then show ?thesis using flags
    by (auto simp: poll_blocks_def slow_calls_def hung_def untouched_def zip_map2 zip_same)
qed

lemma slow_env: "copy_env (slow_calls a b) 3 (slow_history a b)"
proof -
  have "calls_ok (slow_calls a b) 3 (slow_history a b)"
    using slow_reads slow_writes
    by (simp add: calls_ok_def slow_calls_def slow_history_def untouched_def Let_def)
      (simp add: slow_read_def slow_writev_def STDIN_FILENO_def STDOUT_FILENO_def split: prod.split)
  then show ?thesis using slow_poll by (simp add: copy_env_def STDIN_FILENO_def)
qed

theorem stream_copy_complete_witness:
  "copy_env (slow_calls [1, 2] [3]) 3 (slow_history [1, 2] [3]) \<and>
   (\<exists>w. bidirectional_stream_copy (slow_calls [1, 2] [3]) \<lparr>fd_num = 3, fd_eof = False, fd_closed = False, read_count = 0, write_count = 0\<rparr>
      ((0, 0), [], []) = Some (Some w) \<and>
     fst (snd (sc_kernel w)) = [1, 2] \<and> snd (snd (sc_kernel w)) = [3] \<and> sc_outbound_shutdown w \<and> fd_closed (sc_output w))"
  using slow_env [of "[1, 2]" "[3]"] stream_copy_complete [where K = "slow_calls [1, 2] [3]" and H = "slow_history [1, 2] [3]" and
      socket = "\<lparr>fd_num = 3, fd_eof = False, fd_closed = False, read_count = 0, write_count = 0\<rparr>" and k = "((0, 0), [], [])"]
  by (simp add: slow_history_def)

end
