(* ===== verification/Router.thy ===== *)
theory Router
  imports Network_Interface
begin

unbundle bit_operations_syntax

text \<open>
  The router, \<open>libsponge/router.hh\<close> and \<open>router.cc\<close>: interfaces that keep what they receive, a table
  of routes indexed by prefix length and prefix, and the loop that forwards every waiting datagram.
  Throws of the parts, and of \<open>vector::at\<close>, are \<^const>\<open>None\<close>. Output under the flag \<open>debug\<close>, which is
  constantly false, is left out.
\<close>

subsection \<open>Asynchronous interfaces\<close>

record async_interface =
  netif :: network_interface
  datagrams_out :: "ipv4_datagram list"

definition async_new :: "network_interface \<Rightarrow> async_interface" where
  "async_new ni = \<lparr>netif = ni, datagrams_out = []\<rparr>"

definition async_recv_frame :: "ethernet_frame \<Rightarrow> async_interface \<Rightarrow> async_interface option" where
  "async_recv_frame frame i = do {
     (optional_dgram, ni) \<leftarrow> recv_frame frame (netif i);
     Some (case optional_dgram of
             None \<Rightarrow> i\<lparr>netif := ni\<rparr>
           | Some dgram \<Rightarrow> i\<lparr>netif := ni, datagrams_out := datagrams_out i @ [dgram]\<rparr>)
   }"

subsection \<open>The router\<close>

record interface_out =
  io_next_hop :: "address option"
  interface_num :: u64

record router =
  interfaces :: "async_interface list"
  routing_table :: "(u8, (u32, interface_out) omap) omap"

definition router_new :: router where
  "router_new = \<lparr>interfaces = [], routing_table = []\<rparr>"

definition get_mask :: "u8 \<Rightarrow> u32" where
  "get_mask prefix_len = (if prefix_len = 0 \<or> prefix_len > 32 then 0 else push_bit (32 - unat prefix_len) (- 1))"

definition add_interface :: "async_interface \<Rightarrow> router \<Rightarrow> u64 \<times> router" where
  "add_interface i r =
     (let r = r\<lparr>interfaces := interfaces r @ [i]\<rparr>
      in (of_nat (length (interfaces r)) - 1, r))"

definition router_interface :: "u64 \<Rightarrow> router \<Rightarrow> async_interface option" where
  "router_interface n r = (if unat n < length (interfaces r) then Some (interfaces r ! unat n) else None)"

definition add_route :: "u32 \<Rightarrow> u8 \<Rightarrow> address option \<Rightarrow> u64 \<Rightarrow> router \<Rightarrow> router" where
  "add_route route_prefix prefix_length next_hop num r =
     (let table = routing_table r;
          table = (if omap_find prefix_length table = None then omap_insert prefix_length [] table else table);
          prefixes = (case omap_find prefix_length table of None \<Rightarrow> [] | Some m \<Rightarrow> m);
          prefixes = omap_insert (route_prefix AND get_mask prefix_length)
                       \<lparr>io_next_hop = next_hop, interface_num = num\<rparr> prefixes
      in r\<lparr>routing_table := omap_put prefix_length prefixes table\<rparr>)"

definition send_out :: "interface_out \<Rightarrow> ipv4_datagram \<Rightarrow> router \<Rightarrow> router option" where
  "send_out io_send dgram r =
     (let dgram = dgram\<lparr>dg_header := (dg_header dgram)\<lparr>ip_ttl := ip_ttl (dg_header dgram) - 1\<rparr>\<rparr>
      in do {
        next_hop \<leftarrow> (case io_next_hop io_send of
                      Some hop \<Rightarrow> ipv4_numeric hop \<bind> from_ipv4_numeric
                    | None \<Rightarrow> from_ipv4_numeric (ip_dst (dg_header dgram)));
        i \<leftarrow> router_interface (interface_num io_send) r;
        ni \<leftarrow> send_datagram dgram next_hop (netif i);
        Some (r\<lparr>interfaces := (interfaces r)[unat (interface_num io_send) := i\<lparr>netif := ni\<rparr>]\<rparr>)
      })"

text \<open>The loop over the table, from the longest prefix length to the shortest.\<close>

fun route_scan :: "ipv4_datagram \<Rightarrow> (u8 \<times> (u32, interface_out) omap) list \<Rightarrow> router \<Rightarrow> router option" where
  "route_scan dgram [] r = Some r"
| "route_scan dgram ((prefix_len, prefixes) # shorter) r =
     (case omap_find (ip_dst (dg_header dgram) AND get_mask prefix_len) prefixes of
        None \<Rightarrow> route_scan dgram shorter r
      | Some io_send \<Rightarrow> if ip_ttl (dg_header dgram) \<le> 1 then Some r else send_out io_send dgram r)"

definition route_one_datagram :: "ipv4_datagram \<Rightarrow> router \<Rightarrow> router option" where
  "route_one_datagram dgram r = route_scan dgram (rev (routing_table r)) r"

definition pop_datagram :: "nat \<Rightarrow> router \<Rightarrow> router" where
  "pop_datagram n r =
     r\<lparr>interfaces := (interfaces r)[n := (interfaces r ! n)\<lparr>datagrams_out := tl (datagrams_out (interfaces r ! n))\<rparr>]\<rparr>"

partial_function (option) drain :: "nat \<Rightarrow> router \<Rightarrow> router option" where
  "drain n r =
     (case datagrams_out (interfaces r ! n) of
        [] \<Rightarrow> Some r
      | dgram # _ \<Rightarrow> do {
          r \<leftarrow> route_one_datagram dgram r;
          drain n (pop_datagram n r)
        })"

fun route_interfaces :: "nat list \<Rightarrow> router \<Rightarrow> router option" where
  "route_interfaces [] r = Some r"
| "route_interfaces (n # ns) r = drain n r \<bind> route_interfaces ns"

definition route :: "router \<Rightarrow> router option" where
  "route r = route_interfaces [0..<length (interfaces r)] r"

subsection \<open>Longest prefix match\<close>

text \<open>A route as it is added: prefix, length, next hop, interface.\<close>

type_synonym route_entry = "u32 \<times> u8 \<times> address option \<times> u64"

definition add_routes :: "route_entry list \<Rightarrow> router \<Rightarrow> router" where
  "add_routes rs r = fold (\<lambda>(p, l, h, n). add_route p l h n) rs r"

text \<open>The first \<open>l\<close> bits agree.\<close>

definition prefix_match :: "u32 \<Rightarrow> u32 \<Rightarrow> u8 \<Rightarrow> bool" where
  "prefix_match dst p l \<longleftrightarrow> (\<forall>i < unat l. bit dst (31 - i) = bit p (31 - i))"

text \<open>Among the routes that match, the longest; of several equally long ones, the first.\<close>

fun longest_match :: "u32 \<Rightarrow> route_entry list \<Rightarrow> route_entry option" where
  "longest_match dst [] = None"
| "longest_match dst ((p, l, h, n) # rs) =
     (case longest_match dst rs of
        None \<Rightarrow> if prefix_match dst p l then Some (p, l, h, n) else None
      | Some (p', l', h', n') \<Rightarrow>
          if prefix_match dst p l \<and> l' \<le> l then Some (p, l, h, n) else Some (p', l', h', n'))"

lemma bit_get_mask: "l \<le> 32 \<Longrightarrow> bit (get_mask l) k \<longleftrightarrow> k < 32 \<and> 32 - unat l \<le> k"
  by (auto simp: get_mask_def bit_simps word_le_nat_alt word_less_nat_alt)

lemma prefix_match_mask:
  assumes "l \<le> 32"
  shows "prefix_match dst p l \<longleftrightarrow> dst AND get_mask l = p AND get_mask l"
proof -
  have l: "unat l \<le> 32" using assms by (simp add: word_le_nat_alt)
  have "prefix_match dst p l \<longleftrightarrow> (\<forall>k < 32. 32 - unat l \<le> k \<longrightarrow> bit dst k = bit p k)" (is "_ \<longleftrightarrow> ?R")
  proof
    assume m: "prefix_match dst p l"
    show ?R
    proof (intro allI impI)
      fix k :: nat assume k: "k < 32" "32 - unat l \<le> k"
      then have "31 - k < unat l" using l by linarith
      with m have "bit dst (31 - (31 - k)) = bit p (31 - (31 - k))" unfolding prefix_match_def by blast
      then show "bit dst k = bit p k" using k(1) by simp
    qed
  next
    assume ?R
    then show "prefix_match dst p l" using l by (auto simp: prefix_match_def)
  qed
  also have "\<dots> \<longleftrightarrow> dst AND get_mask l = p AND get_mask l"
    by (auto simp: bit_eq_iff bit_simps bit_get_mask [OF assms])
  finally show ?thesis .
qed

text \<open>The table as a function of length and prefix.\<close>

definition table_find :: "router \<Rightarrow> u8 \<Rightarrow> u32 \<Rightarrow> interface_out option" where
  "table_find r l k = omap_find l (routing_table r) \<bind> omap_find k"

definition table_inv :: "router \<Rightarrow> bool" where
  "table_inv r \<longleftrightarrow> omap_inv (routing_table r) \<and> (\<forall>l m. omap_find l (routing_table r) = Some m \<longrightarrow> omap_inv m)"

lemma add_route_simps [simp]: "interfaces (add_route p l h n r) = interfaces r"
  by (simp add: add_route_def Let_def)

lemma table_add_route:
  assumes "table_inv r"
  shows "table_inv (add_route p l h n r)"
    "table_find (add_route p l h n r) j k =
       (if j = l \<and> k = p AND get_mask l \<and> table_find r j k = None then Some \<lparr>io_next_hop = h, interface_num = n\<rparr>
        else table_find r j k)"
proof -
  have t: "omap_inv (routing_table r)" and ms: "omap_find l (routing_table r) = Some m \<Longrightarrow> omap_inv m" for l m
    using assms by (auto simp: table_inv_def)
  define m where "m = (case omap_find l (routing_table r) of None \<Rightarrow> [] | Some m \<Rightarrow> m)"
  have m: "omap_inv m" using ms by (auto simp: m_def omap_simps split: option.split)
  define t1 where "t1 = (if omap_find l (routing_table r) = None then omap_insert l [] (routing_table r) else routing_table r)"
  have t1: "omap_inv t1" "omap_find j t1 = (if j = l then Some m else omap_find j (routing_table r))" for j
    using omap_insert_ok [OF t] t by (auto simp: t1_def m_def split: option.split)
  have eq: "routing_table (add_route p l h n r) =
      omap_put l (omap_insert (p AND get_mask l) \<lparr>io_next_hop = h, interface_num = n\<rparr> m) t1"
    using t1(2) [of l] by (simp add: add_route_def Let_def t1_def [symmetric])
  have f: "omap_find j (routing_table (add_route p l h n r)) =
      (if j = l then Some (omap_insert (p AND get_mask l) \<lparr>io_next_hop = h, interface_num = n\<rparr> m)
       else omap_find j (routing_table r))" for j
    using omap.put_ok(2) [OF t1(1)] t1(2) by (simp add: eq)
  show "table_inv (add_route p l h n r)"
    unfolding table_inv_def f using omap.put_ok(1) [OF t1(1)] omap_insert_ok(1) [OF m] ms by (auto simp: eq split: if_splits)
  show "table_find (add_route p l h n r) j k =
       (if j = l \<and> k = p AND get_mask l \<and> table_find r j k = None then Some \<lparr>io_next_hop = h, interface_num = n\<rparr>
        else table_find r j k)"
    unfolding table_find_def f using omap_insert_ok(2) [OF m]
    by (auto simp: m_def omap_simps split: option.split)
qed

text \<open>What the loop finds.\<close>

fun scan_find :: "u32 \<Rightarrow> (u8 \<times> (u32, interface_out) omap) list \<Rightarrow> interface_out option" where
  "scan_find dst [] = None"
| "scan_find dst ((l, m) # t) =
     (case omap_find (dst AND get_mask l) m of None \<Rightarrow> scan_find dst t | Some io \<Rightarrow> Some io)"

lemma route_scan_eq:
  "route_scan d t r = (case scan_find (ip_dst (dg_header d)) t of
     None \<Rightarrow> Some r | Some io \<Rightarrow> if ip_ttl (dg_header d) \<le> 1 then Some r else send_out io d r)"
  by (induction d t r rule: route_scan.induct) (simp_all split: option.split)

lemma scan_find_None: "(\<And>l m. (l, m) \<in> set t \<Longrightarrow> omap_find (dst AND get_mask l) m = None) \<Longrightarrow> scan_find dst t = None"
  by (induction dst t rule: scan_find.induct) auto

lemma scan_find_Some:
  assumes "sorted_wrt (>) (map fst t)" and "(l, m) \<in> set t" and "omap_find (dst AND get_mask l) m = Some io"
    and "\<And>l' m'. (l', m') \<in> set t \<Longrightarrow> l < l' \<Longrightarrow> omap_find (dst AND get_mask l') m' = None"
  shows "scan_find dst t = Some io"
  using assms
proof (induction dst t rule: scan_find.induct)
  case (2 dst a b t)
  show ?case
  proof (cases "(l, m) = (a, b)")
    case True
    then show ?thesis using 2(4) by simp
  next
    case False
    then have lm: "(l, m) \<in> set t" using 2(3) by auto
    then have "l < a" using 2(2) by force
    then have "omap_find (dst AND get_mask a) b = None" using 2(5) by simp
    then show ?thesis using 2(1) [OF _ _ lm 2(4)] 2(2,5) by simp
  qed
qed simp

lemma table_scan:
  assumes "table_inv r"
  shows "(\<And>l. table_find r l (dst AND get_mask l) = None) \<Longrightarrow> scan_find dst (rev (routing_table r)) = None"
    "table_find r l (dst AND get_mask l) = Some io \<Longrightarrow>
       (\<And>l'. l < l' \<Longrightarrow> table_find r l' (dst AND get_mask l') = None) \<Longrightarrow> scan_find dst (rev (routing_table r)) = Some io"
proof -
  have inv: "sorted_wrt (<) (map fst (routing_table r))" using assms by (simp add: table_inv_def omap_inv_def)
  then have d: "distinct (map fst (routing_table r))" by (simp add: strict_sorted_iff)
  then have tf: "table_find r a k = omap_find k b" if "(a, b) \<in> set (routing_table r)" for a b k
    using that by (simp add: table_find_def omap_find_def)
  show "scan_find dst (rev (routing_table r)) = None" if "\<And>l. table_find r l (dst AND get_mask l) = None"
    using that tf by (intro scan_find_None) (metis set_rev)
  show "scan_find dst (rev (routing_table r)) = Some io"
    if found: "table_find r l (dst AND get_mask l) = Some io"
      and none: "\<And>l'. l < l' \<Longrightarrow> table_find r l' (dst AND get_mask l') = None"
  proof -
    obtain m where m: "(l, m) \<in> set (routing_table r)" "omap_find (dst AND get_mask l) m = Some io"
      using found by (auto simp: table_find_def omap_find_def bind_eq_Some_conv dest: map_of_SomeD)
    show ?thesis
    proof (rule scan_find_Some)
      show "sorted_wrt (>) (map fst (rev (routing_table r)))" using inv by (simp add: sorted_wrt_rev rev_map [symmetric])
      show "(l, m) \<in> set (rev (routing_table r))" using m(1) by simp
      show "omap_find (dst AND get_mask l) m = Some io" by (rule m(2))
      show "omap_find (dst AND get_mask l') m' = None" if "(l', m') \<in> set (rev (routing_table r))" "l < l'" for l' m'
        using none [OF that(2)] tf [of l' m'] that(1) by simp
    qed
  qed
qed

definition route_out :: "route_entry \<Rightarrow> interface_out" where
  "route_out rt = (case rt of (p, l, h, n) \<Rightarrow> \<lparr>io_next_hop = h, interface_num = n\<rparr>)"

definition first_route :: "u8 \<Rightarrow> u32 \<Rightarrow> route_entry list \<Rightarrow> route_entry option" where
  "first_route l k rs = List.find (\<lambda>(p, l', h, n). l' = l \<and> p AND get_mask l = k) rs"

lemma table_add_routes:
  assumes "table_inv r"
  shows "table_inv (add_routes rs r)"
    "table_find (add_routes rs r) l k =
       (case table_find r l k of Some io \<Rightarrow> Some io | None \<Rightarrow> map_option route_out (first_route l k rs))"
proof -
  have "table_inv (add_routes rs r) \<and> table_find (add_routes rs r) l k =
       (case table_find r l k of Some io \<Rightarrow> Some io | None \<Rightarrow> map_option route_out (first_route l k rs))"
    using assms
  proof (induction rs arbitrary: r)
    case (Cons rt rs)
    obtain p j h n where rt: "rt = (p, j, h, n)" by (cases rt)
    have "add_routes (rt # rs) r = add_routes rs (add_route p j h n r)" by (simp add: add_routes_def rt)
    with Cons.IH [OF table_add_route(1) [OF Cons.prems], of p j h n] show ?case
      using table_add_route(2) [OF Cons.prems, of p j h n l k]
      by (auto simp: rt first_route_def route_out_def split: option.split)
  qed (simp add: add_routes_def first_route_def split: option.split)
  then show "table_inv (add_routes rs r)"
    "table_find (add_routes rs r) l k =
       (case table_find r l k of Some io \<Rightarrow> Some io | None \<Rightarrow> map_option route_out (first_route l k rs))" by blast+
qed

lemma longest_match_None: "longest_match dst rs = None \<longleftrightarrow> (\<forall>rt \<in> set rs. \<not> prefix_match dst (fst rt) (fst (snd rt)))"
  by (induction dst rs rule: longest_match.induct) (auto split: option.split)

lemma longest_match_Some:
  assumes "longest_match dst rs = Some (p, l, h, n)" and "\<forall>(p, l, h, n) \<in> set rs. l \<le> 32"
  shows "first_route l (dst AND get_mask l) rs = Some (p, l, h, n) \<and>
    (\<forall>(p', l', h', n') \<in> set rs. prefix_match dst p' l' \<longrightarrow> l' \<le> l)"
  using assms
proof (induction rs arbitrary: p l h n)
  case (Cons rt rs)
  obtain p0 l0 h0 n0 where rt: "rt = (p0, l0, h0, n0)" by (cases rt)
  have le: "l0 \<le> 32" and les: "\<forall>(p, l, h, n) \<in> set rs. l \<le> 32" using Cons.prems(2) by (auto simp: rt)
  note pm = prefix_match_mask [OF le, of dst p0]
  show ?case
  proof (cases "longest_match dst rs")
    case None
    then have "prefix_match dst p0 l0" "(p, l, h, n) = (p0, l0, h0, n0)" using Cons.prems(1) by (auto simp: rt split: if_splits)
    then show ?thesis using pm None longest_match_None [of dst rs] by (fastforce simp: rt first_route_def)
  next
    case (Some x)
    obtain p1 l1 h1 n1 where x: "x = (p1, l1, h1, n1)" by (cases x)
    note IH = Cons.IH [OF Some [unfolded x] les]
    show ?thesis
    proof (cases "prefix_match dst p0 l0 \<and> l1 \<le> l0")
      case True
      then have "(p, l, h, n) = (p0, l0, h0, n0)" using Cons.prems(1) Some by (simp add: rt x)
      then show ?thesis using True IH pm by (fastforce simp: rt first_route_def)
    next
      case False
      then have "(p, l, h, n) = (p1, l1, h1, n1)" using Cons.prems(1) Some by (auto simp: rt x)
      moreover have "\<not> (l0 = l1 \<and> p0 AND get_mask l1 = dst AND get_mask l1)" using False pm by auto
      ultimately show ?thesis using False IH by (auto simp: rt first_route_def)
    qed
  qed
qed simp

lemma scan_longest_match:
  assumes "routing_table r = []" and "\<forall>(p, l, h, n) \<in> set rs. l \<le> 32"
  shows "scan_find dst (rev (routing_table (add_routes rs r))) = map_option route_out (longest_match dst rs)"
proof -
  have inv: "table_inv r" and e: "table_find r l k = None" for l k
    using assms(1) by (auto simp: table_inv_def table_find_def omap_simps)
  note T = table_add_routes(1) [OF inv] table_add_routes(2) [OF inv, unfolded e, simplified]
  have fr: "first_route l (dst AND get_mask l) rs = None" if "\<And>p h n. (p, l, h, n) \<in> set rs \<Longrightarrow> \<not> prefix_match dst p l" for l
    using that prefix_match_mask assms(2) by (fastforce simp: first_route_def find_None_iff)
  show ?thesis
  proof (cases "longest_match dst rs")
    case None
    then have "first_route l (dst AND get_mask l) rs = None" for l using longest_match_None [of dst rs] by (intro fr) force
    then have "scan_find dst (rev (routing_table (add_routes rs r))) = None" by (intro table_scan(1) [OF T(1)]) (simp add: T(2))
    then show ?thesis by (simp add: None)
  next
    case (Some rt)
    obtain p l h n where rt: "rt = (p, l, h, n)" by (cases rt)
    note L = longest_match_Some [OF Some [unfolded rt] assms(2)]
    show ?thesis unfolding Some option.map
    proof (rule table_scan(2) [OF T(1)])
      show "table_find (add_routes rs r) l (dst AND get_mask l) = Some (route_out rt)" using L by (simp add: T(2) rt)
      show "table_find (add_routes rs r) l' (dst AND get_mask l') = None" if "l < l'" for l'
      proof -
        have "first_route l' (dst AND get_mask l') rs = None" using that L by (intro fr) fastforce
        then show ?thesis by (simp add: T(2))
      qed
    qed
  qed
qed

subsection \<open>Forwarding on the interfaces alone\<close>

text \<open>One datagram, and a list of them, sent through the interfaces, without the queues of the router.\<close>

definition next_hop_of :: "interface_out \<Rightarrow> ipv4_datagram \<Rightarrow> address option" where
  "next_hop_of io d = (case io_next_hop io of
     Some h \<Rightarrow> map_option (\<lambda>ip. inet_address ip 0) (ipv4_numeric h) | None \<Rightarrow> Some (inet_address (ip_dst (dg_header d)) 0))"

definition hopped :: "ipv4_datagram \<Rightarrow> ipv4_datagram" where
  "hopped d = d\<lparr>dg_header := (dg_header d)\<lparr>ip_ttl := ip_ttl (dg_header d) - 1\<rparr>\<rparr>"

type_synonym table = "(u8, (u32, interface_out) omap) omap"

definition forward_nis :: "table \<Rightarrow> ipv4_datagram \<Rightarrow> network_interface list \<Rightarrow> network_interface list option" where
  "forward_nis t d nis =
     (case scan_find (ip_dst (dg_header d)) (rev t) of
        None \<Rightarrow> Some nis
      | Some io \<Rightarrow>
          if ip_ttl (dg_header d) \<le> 1 then Some nis
          else case next_hop_of io d of
                 None \<Rightarrow> None
               | Some hop \<Rightarrow>
                   if unat (interface_num io) < length nis
                   then map_option (\<lambda>ni. nis[unat (interface_num io) := ni]) (send_datagram (hopped d) hop (nis ! unat (interface_num io)))
                   else None)"

fun forward_all :: "table \<Rightarrow> ipv4_datagram list \<Rightarrow> network_interface list \<Rightarrow> network_interface list option" where
  "forward_all t [] nis = Some nis"
| "forward_all t (d # ds) nis = forward_nis t d nis \<bind> forward_all t ds"

definition assemble :: "table \<Rightarrow> network_interface list \<Rightarrow> ipv4_datagram list list \<Rightarrow> router" where
  "assemble t nis qs = \<lparr>interfaces = map2 (\<lambda>ni q. \<lparr>netif = ni, datagrams_out = q\<rparr>) nis qs, routing_table = t\<rparr>"

lemma assemble_router: "assemble (routing_table r) (map netif (interfaces r)) (map datagrams_out (interfaces r)) = r"
proof -
  have "\<lparr>netif = netif x, datagrams_out = datagrams_out x\<rparr> = x" for x :: async_interface by simp
  then have "map2 (\<lambda>ni q. \<lparr>netif = ni, datagrams_out = q\<rparr>) (map netif is) (map datagrams_out is) = is" for "is"
    by (induction "is") simp_all
  then show ?thesis by (simp add: assemble_def)
qed

lemma forward_nis_length: "forward_nis t d nis = Some nis' \<Longrightarrow> length nis' = length nis"
  by (auto simp: forward_nis_def split: option.splits if_splits)

lemma send_out_assemble:
  assumes "length nis = length qs"
  shows "send_out io d (assemble t nis qs) =
    (case next_hop_of io d of
       None \<Rightarrow> None
     | Some hop \<Rightarrow>
         if unat (interface_num io) < length nis
         then map_option (\<lambda>ni. assemble t (nis[unat (interface_num io) := ni]) qs)
                (send_datagram (hopped d) hop (nis ! unat (interface_num io)))
         else None)"
proof -
  have upd: "(map2 (\<lambda>ni q. \<lparr>netif = ni, datagrams_out = q\<rparr>) nis qs)[k := \<lparr>netif = ni, datagrams_out = qs ! k\<rparr>] =
      map2 (\<lambda>ni q. \<lparr>netif = ni, datagrams_out = q\<rparr>) (nis[k := ni]) qs" if "k < length nis" for k ni
    using that assms by (intro nth_equalityI) (auto simp: nth_list_update)
  show ?thesis
    using assms upd
    by (auto simp: send_out_def next_hop_of_def hopped_def [symmetric] router_interface_def assemble_def Let_def
        map_option_case split: option.split)
      (auto simp: hopped_def)
qed

lemma route_one_assemble:
  assumes "length nis = length qs"
  shows "route_one_datagram d (assemble t nis qs) = map_option (\<lambda>nis'. assemble t nis' qs) (forward_nis t d nis)"
proof -
  have "routing_table (assemble t nis qs) = t" by (simp add: assemble_def)
  then show ?thesis
    unfolding route_one_datagram_def route_scan_eq forward_nis_def send_out_assemble [OF assms]
    by (simp add: option.map_comp comp_def split: option.split)
qed

lemma pop_assemble:
  assumes "length nis = length qs" and "n < length qs"
  shows "pop_datagram n (assemble t nis qs) = assemble t nis (qs[n := tl (qs ! n)])"
proof -
  have "(map2 (\<lambda>ni q. \<lparr>netif = ni, datagrams_out = q\<rparr>) nis qs)[n := \<lparr>netif = nis ! n, datagrams_out = tl (qs ! n)\<rparr>] =
      map2 (\<lambda>ni q. \<lparr>netif = ni, datagrams_out = q\<rparr>) nis (qs[n := tl (qs ! n)])"
    using assms by (intro nth_equalityI) (auto simp: nth_list_update)
  then show ?thesis using assms by (simp add: pop_datagram_def assemble_def)
qed

lemma drain_assemble:
  assumes "length nis = length qs" and "n < length qs"
  shows "drain n (assemble t nis qs) = map_option (\<lambda>nis'. assemble t nis' (qs[n := []])) (forward_all t (qs ! n) nis)"
  using assms
proof (induction "qs ! n" arbitrary: nis qs)
  case Nil
  then have "datagrams_out (interfaces (assemble t nis qs) ! n) = []" by (simp add: assemble_def)
  then have "drain n (assemble t nis qs) = Some (assemble t nis qs)" by (subst drain.simps) simp
  moreover have "qs[n := []] = qs" using Nil by (metis list_update_id)
  ultimately show ?case using Nil(1) [symmetric] by simp
next
  case (Cons d ds)
  have q: "qs ! n = d # ds" using Cons.hyps(2) by simp
  have "datagrams_out (interfaces (assemble t nis qs) ! n) = d # ds" using Cons.prems q by (simp add: assemble_def)
  then have step: "drain n (assemble t nis qs) = route_one_datagram d (assemble t nis qs) \<bind> (\<lambda>r. drain n (pop_datagram n r))"
    by (subst drain.simps) simp
  show ?case
  proof (cases "forward_nis t d nis")
    case None
    then show ?thesis using step route_one_assemble [OF Cons.prems(1)] q by simp
  next
    case (Some nis')
    have l: "length nis' = length qs" using forward_nis_length [OF Some] Cons.prems(1) by simp
    have ds: "ds = qs[n := ds] ! n" using Cons.prems(2) by simp
    have "drain n (assemble t nis' (qs[n := ds])) = map_option (\<lambda>nis'. assemble t nis' (qs[n := []])) (forward_all t ds nis')"
      using Cons.hyps(1) [OF ds, of nis'] l Cons.prems(2) by simp
    then show ?thesis
      using step route_one_assemble [OF Cons.prems(1), of d t] pop_assemble [OF l Cons.prems(2), of t] Some q by simp
  qed
qed

lemma forward_all_length: "forward_all t ds nis = Some nis' \<Longrightarrow> length nis' = length nis"
  by (induction ds arbitrary: nis) (auto simp: bind_eq_Some_conv dest: forward_nis_length)

lemma forward_all_append: "forward_all t (ds @ es) nis = forward_all t ds nis \<bind> forward_all t es"
  by (induction ds arbitrary: nis) (auto simp: bind_eq_None_conv split: bind_splits)

lemma route_interfaces_assemble:
  assumes "length nis = length qs" and "\<forall>n \<in> set ns. n < length qs" and "distinct ns"
  shows "route_interfaces ns (assemble t nis qs) =
    map_option (\<lambda>nis'. assemble t nis' (fold (\<lambda>n qs. qs[n := []]) ns qs)) (forward_all t (concat (map ((!) qs) ns)) nis)"
  using assms
proof (induction ns arbitrary: nis qs)
  case (Cons n ns)
  have eq: "map ((!) (qs[n := []])) ns = map ((!) qs) ns" using Cons.prems(3) by (auto intro: nth_list_update_neq)
  show ?case
  proof (cases "forward_all t (qs ! n) nis")
    case None
    then show ?thesis using drain_assemble [of nis qs n t] Cons.prems by (simp add: forward_all_append)
  next
    case (Some nis')
    have "length nis' = length (qs[n := []])" using forward_all_length [OF Some] Cons.prems(1) by simp
    from Cons.IH [OF this] Cons.prems show ?thesis
      using drain_assemble [of nis qs n t] Some by (simp add: forward_all_append eq)
  qed
qed simp

lemma cleared_queues: "fold (\<lambda>n qs. qs[n := []]) [0..<length qs] qs = replicate (length qs) []"
proof -
  have "fold (\<lambda>n qs. qs[n := []]) [0..<k] qs = replicate k [] @ drop k qs" if "k \<le> length qs" for k
    using that
  proof (induction k)
    case (Suc k)
    then have "drop k qs = qs ! k # drop (Suc k) qs" by (simp add: Cons_nth_drop_Suc)
    with Suc show ?case by (simp add: list_update_append replicate_append_same [symmetric])
  qed simp
  from this [of "length qs"] show ?thesis by simp
qed

lemma route_eq:
  "route r = map_option (\<lambda>nis. \<lparr>interfaces = map async_new nis, routing_table = routing_table r\<rparr>)
     (forward_all (routing_table r) (concat (map datagrams_out (interfaces r))) (map netif (interfaces r)))"
proof -
  let ?n = "map netif (interfaces r)" and ?q = "map datagrams_out (interfaces r)"
  have ns: "map ((!) ?q) [0..<length ?q] = ?q" by (rule map_nth)
  have a: "assemble t nis (replicate (length nis) []) = \<lparr>interfaces = map async_new nis, routing_table = t\<rparr>" for t nis
    by (simp add: assemble_def async_new_def zip_replicate2)
  have "route r = route_interfaces [0..<length ?q] (assemble (routing_table r) ?n ?q)"
    by (simp add: route_def assemble_router)
  also have "\<dots> = map_option (\<lambda>nis. assemble (routing_table r) nis (replicate (length ?q) []))
      (forward_all (routing_table r) (concat ?q) ?n)"
    unfolding cleared_queues [of ?q, symmetric]
    using route_interfaces_assemble [of ?n ?q "[0..<length ?q]" "routing_table r"] unfolding ns by simp
  also have "\<dots> = map_option (\<lambda>nis. \<lparr>interfaces = map async_new nis, routing_table = routing_table r\<rparr>)
      (forward_all (routing_table r) (concat ?q) ?n)"
    using forward_all_length [of "routing_table r" "concat ?q" ?n] by (cases "forward_all (routing_table r) (concat ?q) ?n") (auto simp flip: a)
  finally show ?thesis .
qed

lemma sendable_hopped [simp]: "sendable (hopped d) = sendable d"
  by (simp add: sendable_def hopped_def ipv4_datagram_serialize_def ipv4_header_serialize_def payload_length_def Let_def)

text \<open>Routes lead to interfaces that exist and to IPv4 addresses.\<close>

definition table_ok :: "nat \<Rightarrow> table \<Rightarrow> bool" where
  "table_ok k t \<longleftrightarrow> (\<forall>(l, m) \<in> set t. \<forall>(p, io) \<in> set m.
     unat (interface_num io) < k \<and> (case io_next_hop io of None \<Rightarrow> True | Some h \<Rightarrow> ipv4_numeric h \<noteq> None))"

lemma scan_find_member: "scan_find dst t = Some io \<Longrightarrow> \<exists>l m p. (l, m) \<in> set t \<and> (p, io) \<in> set m"
  by (induction dst t rule: scan_find.induct) (auto simp: omap_find_def split: option.splits dest!: map_of_SomeD)

lemma table_okD:
  assumes "table_ok k t" and "scan_find dst (rev t) = Some io"
  shows "unat (interface_num io) < k" "next_hop_of io d \<noteq> None"
  using assms scan_find_member [OF assms(2)] by (fastforce simp: table_ok_def next_hop_of_def split: option.splits)+

lemma next_hop_of_numeric: "next_hop_of io d = Some hop \<Longrightarrow> \<exists>ip. hop = inet_address ip 0"
  by (auto simp: next_hop_of_def split: option.splits)

definition nis_inv :: "network_interface list \<Rightarrow> bool" where
  "nis_inv nis \<longleftrightarrow> (\<forall>ni \<in> set nis. \<exists>own. ni_inv own ni)"

lemma forward_nis_ok:
  assumes "nis_inv nis" and "table_ok (length nis) t" and "sendable d"
  shows "\<exists>nis'. forward_nis t d nis = Some nis' \<and> nis_inv nis' \<and> length nis' = length nis"
proof (cases "scan_find (ip_dst (dg_header d)) (rev t)")
  case (Some io)
  let ?k = "unat (interface_num io)"
  obtain hop where hop: "next_hop_of io d = Some hop" using table_okD(2) [OF assms(2) Some, of d] by auto
  then obtain ip where "ipv4_numeric hop = Some ip" using next_hop_of_numeric by fastforce
  moreover have k: "?k < length nis" by (rule table_okD(1) [OF assms(2) Some])
  moreover obtain own where "ni_inv own (nis ! ?k)" using assms(1) nth_mem [OF k] unfolding nis_inv_def by blast
  moreover have "sendable (hopped d)" using assms(3) by simp
  ultimately obtain ni' where "send_datagram (hopped d) hop (nis ! ?k) = Some ni'" "ni_inv own ni'"
    using ni_inv_send by blast
  then show ?thesis using Some hop k assms(1)
    by (auto simp: forward_nis_def nis_inv_def dest: set_update_subset_insert [THEN subsetD])
qed (simp add: forward_nis_def assms)

lemma forward_all_ok:
  assumes "nis_inv nis" and "table_ok (length nis) t" and "\<forall>d \<in> set ds. sendable d"
  shows "\<exists>nis'. forward_all t ds nis = Some nis' \<and> nis_inv nis'"
  using assms
proof (induction ds arbitrary: nis)
  case (Cons d ds)
  obtain nis' where "forward_nis t d nis = Some nis'" "nis_inv nis'" "length nis' = length nis"
    using forward_nis_ok [OF Cons.prems(1,2)] Cons.prems(3) by auto
  with Cons show ?case by simp
qed simp

subsection \<open>Properties\<close>

text \<open>
  C12. Routing is longest-prefix match. After any sequence of \<open>add_route\<close> calls with lengths up to 32,
  a datagram takes the route with the longest prefix that agrees with the first bits of its
  destination, of equal ones the first that was added. It is dropped if there is none or if its time
  to live is 0 or 1, and otherwise handed to the interface of the route.
\<close>

theorem route_longest_prefix:
  assumes "routing_table r = []" and "\<forall>(p, l, h, n) \<in> set rs. l \<le> 32"
  shows "route_one_datagram d (add_routes rs r) =
    (case longest_match (ip_dst (dg_header d)) rs of
       None \<Rightarrow> Some (add_routes rs r)
     | Some (p, l, h, n) \<Rightarrow>
         if ip_ttl (dg_header d) \<le> 1 then Some (add_routes rs r)
         else send_out \<lparr>io_next_hop = h, interface_num = n\<rparr> d (add_routes rs r))"
  unfolding route_one_datagram_def route_scan_eq scan_longest_match [OF assms]
  by (auto simp: route_out_def split: option.split)

theorem route_longest_prefix_witness:
  "route_one_datagram \<lparr>dg_header = ipv4_header_default\<lparr>ip_dst := 0x0a000001\<rparr>, dg_payload = []\<rparr>
     (add_routes [(0x0a000000, 8, None, 0), (0, 0, None, 1), (0x0a000000, 24, None, 2)] router_new) =
   send_out \<lparr>io_next_hop = None, interface_num = 2\<rparr> \<lparr>dg_header = ipv4_header_default\<lparr>ip_dst := 0x0a000001\<rparr>, dg_payload = []\<rparr>
     (add_routes [(0x0a000000, 8, None, 0), (0, 0, None, 1), (0x0a000000, 24, None, 2)] router_new)"
proof -
  let ?rs = "[(0x0a000000, 8, None, 0), (0, 0, None, 1), (0x0a000000, 24, None, 2)] :: route_entry list"
  let ?d = "\<lparr>dg_header = ipv4_header_default\<lparr>ip_dst := 0x0a000001\<rparr>, dg_payload = []\<rparr>"
  have m: "longest_match 0x0a000001 ?rs = Some (0x0a000000, 24, None, 2)"
    by (simp add: prefix_match_mask get_mask_def mask_eq_exp_minus_1)
  have "route_one_datagram ?d (add_routes ?rs router_new) =
    (case longest_match (ip_dst (dg_header ?d)) ?rs of
       None \<Rightarrow> Some (add_routes ?rs router_new)
     | Some (p, l, h, n) \<Rightarrow>
         if ip_ttl (dg_header ?d) \<le> 1 then Some (add_routes ?rs router_new)
         else send_out \<lparr>io_next_hop = h, interface_num = n\<rparr> ?d (add_routes ?rs router_new))"
    by (rule route_longest_prefix) (simp_all add: router_new_def)
  moreover have "ip_dst (dg_header ?d) = 0x0a000001" "\<not> ip_ttl (dg_header ?d) \<le> 1"
    by (simp_all add: ipv4_header_default_def DEFAULT_TTL_def word_le_nat_alt)
  ultimately show ?thesis by (simp only: m option.case prod.case if_False)
qed

text \<open>
  C22. \<open>route\<close> forwards everything and returns. With interfaces in order, routes that lead to existing
  interfaces and datagrams that can be serialized, it throws nowhere; all queues are empty afterwards,
  the interfaces are in order, and their state is that of forwarding the waiting datagrams one by one,
  interface by interface and within each in order of arrival. Forwarding drops a datagram without a route or
  with a time to live of 0 or 1, and hands every other to the interface of its route.
\<close>

theorem route_forwards_all:
  assumes "nis_inv (map netif (interfaces r))" and "table_ok (length (interfaces r)) (routing_table r)"
    and "\<forall>d \<in> set (concat (map datagrams_out (interfaces r))). sendable d"
  shows "\<exists>nis. route r = Some \<lparr>interfaces = map async_new nis, routing_table = routing_table r\<rparr> \<and>
    forward_all (routing_table r) (concat (map datagrams_out (interfaces r))) (map netif (interfaces r)) = Some nis \<and>
    nis_inv nis"
  using forward_all_ok [OF assms(1) _ assms(3), of "routing_table r"] assms(2) by (auto simp: route_eq)

theorem route_forwards_all_witness:
  "\<exists>d nis. sendable d \<and>
     route \<lparr>interfaces = [\<lparr>netif = ni_new [1, 2, 3, 4, 5, 6] (inet_address 7 0), datagrams_out = [d, d]\<rparr>],
            routing_table = [(0, [(0, \<lparr>io_next_hop = Some (inet_address 9 0), interface_num = 0\<rparr>)])]\<rparr> =
     Some \<lparr>interfaces = map async_new nis, routing_table = [(0, [(0, \<lparr>io_next_hop = Some (inet_address 9 0), interface_num = 0\<rparr>)])]\<rparr>"
proof -
  let ?d = "\<lparr>dg_header = ipv4_header_default\<lparr>ip_len := 20\<rparr>, dg_payload = []\<rparr>"
  let ?t = "[(0, [(0, \<lparr>io_next_hop = Some (inet_address 9 0), interface_num = 0\<rparr>)])]"
  let ?r = "\<lparr>interfaces = [\<lparr>netif = ni_new [1, 2, 3, 4, 5, 6] (inet_address 7 0), datagrams_out = [?d, ?d]\<rparr>], routing_table = ?t\<rparr>"
  have d: "sendable ?d"
    by (rule sendable_valid)
      (simp add: ipv4_datagram_valid_def ipv4_header_valid_def ipv4_header_default_def IPv4_LENGTH_def bl_concatenate_eq)
  have i: "ni_inv 7 (ni_new [1, 2, 3, 4, 5, 6] (inet_address 7 0))" by (rule ni_inv_new) (simp_all add: address_valid_def)
  have "\<exists>nis. route ?r = Some \<lparr>interfaces = map async_new nis, routing_table = routing_table ?r\<rparr> \<and>
    forward_all (routing_table ?r) (concat (map datagrams_out (interfaces ?r))) (map netif (interfaces ?r)) = Some nis \<and>
    nis_inv nis"
    by (rule route_forwards_all) (use d i in \<open>auto simp: nis_inv_def table_ok_def\<close>)
  with d show ?thesis by auto
qed

text \<open>
  C35. One malformed frame stops the router. A frame with twenty bytes whose version field is not 4
  is accepted by the interface, because the verdict on its header is thrown away; when the router has a
  route for it and the next hop is known, serializing it again throws, and nothing in \<open>route\<close> catches
  this.
\<close>

theorem bad_version_stops_router:
  assumes r: "interfaces r = [i, j]" "datagrams_out i = []" and i: "ni_inv own (netif i)"
    and frame: "eth_dst (fr_header frame) = ni_ethernet_address (netif i)" "eth_type (fr_header frame) = TYPE_IPv4"
      "bl_concatenate (fr_payload frame) = bs"
    and bs: "length bs = 20" "ip_ver (ipv4_fields bs) \<noteq> 4" "ip_hlen (ipv4_fields bs) = 5" "ip_len (ipv4_fields bs) = 20"
      "ip_ttl (ipv4_fields bs) > 1"
    and io: "scan_find (ip_dst (ipv4_fields bs)) (rev (routing_table r)) = Some \<lparr>io_next_hop = None, interface_num = 1\<rparr>"
    and known: "omap_find (ip_dst (ipv4_fields bs)) (forwarding_table (netif j)) \<noteq> None"
  shows "\<exists>i'. async_recv_frame frame i = Some i' \<and> length (datagrams_out i') = 1 \<and> route (r\<lparr>interfaces := [i', j]\<rparr>) = None"
proof -
  let ?h = "ipv4_fields bs"
  let ?b = "buffer_new (bl_concatenate (fr_payload frame))"
  have b: "buffer_inv ?b" "buffer_str ?b = bs" using bs(1) frame(3) by (auto intro: buffer_inv_new)
  have c: "ipv4_consumed bs = 20" using bs by (simp add: ipv4_consumed_def ipv4_verdict_def Let_def)
  have pl: "payload_length ?h = 0" using bs by (simp add: payload_length_def)
  obtain d where d: "ipv4_datagram_parse ?b ipv4_datagram_default = Some (NoError, d)" "dg_header d = ?h"
    using ipv4_datagram_parse_track [OF b(1) refl, of ipv4_datagram_default] bs(1) c pl b(2) by auto
  define i' where "i' = i\<lparr>datagrams_out := [d]\<rparr>"
  have "datagram_in (netif i) frame = Some d" "arp_in (netif i) own frame = None"
    using d(1) frame by (simp_all add: datagram_in_def arp_in_def for_us_def TYPE_IPv4_def TYPE_ARP_def)
  then have "recv_frame frame (netif i) = Some (Some d, netif i)"
    using recv_frame_eq [OF i, of frame] bs(1) frame(3) by (simp add: frame_fits_def)
  then have recv: "async_recv_frame frame i = Some i'" using r(2) by (simp add: async_recv_frame_def i'_def)
  have "ipv4_datagram_serialize (hopped d) = None"
    using d(2) bs(2) by (simp add: ipv4_datagram_serialize_def ipv4_header_serialize_def hopped_def Let_def)
  then have "send_datagram (hopped d) (inet_address (ip_dst ?h) 0) (netif j) = None"
    using known by (auto simp: send_datagram_def)
  then have "forward_nis (routing_table r) d [netif i, netif j] = None"
    using io d(2) bs(5) by (auto simp: forward_nis_def next_hop_of_def)
  then have "route (r\<lparr>interfaces := [i', j]\<rparr>) = None" by (simp add: route_eq i'_def)
  with recv show ?thesis by (auto simp: i'_def)
qed

theorem bad_version_stops_router_witness:
  "\<exists>i i' j frame. async_recv_frame frame i = Some i' \<and> length (datagrams_out i') = 1 \<and>
     route \<lparr>interfaces = [i', j], routing_table = [(0, [(0, \<lparr>io_next_hop = None, interface_num = 1\<rparr>)])]\<rparr> = None"
proof -
  let ?bs = "[0x55, 0, 0, 20, 0, 0, 0, 0, 64, 6, 0, 0, 10, 0, 0, 2, 10, 0, 0, 1] :: bytes"
  let ?i = "async_new (ni_new [1, 2, 3, 4, 5, 6] (inet_address 7 0))"
  let ?j = "async_new ((ni_new [1, 2, 3, 4, 5, 7] (inet_address 8 0))\<lparr>forwarding_table := [(0x0a000001, \<lparr>eth_addr = [9, 9, 9, 9, 9, 9], ent_elapsed = 0\<rparr>)]\<rparr>)"
  let ?r = "\<lparr>interfaces = [?i, ?j], routing_table = [(0, [(0, \<lparr>io_next_hop = None, interface_num = 1\<rparr>)])]\<rparr>"
  let ?f = "\<lparr>fr_header = \<lparr>eth_dst = [1, 2, 3, 4, 5, 6], eth_src = [9, 9, 9, 9, 9, 9], eth_type = TYPE_IPv4\<rparr>, fr_payload = bl_of_string ?bs\<rparr>"
  have h: "ip_ver (ipv4_fields ?bs) = 5" "ip_hlen (ipv4_fields ?bs) = 5" "ip_len (ipv4_fields ?bs) = 20"
    "ip_ttl (ipv4_fields ?bs) = 64" "ip_dst (ipv4_fields ?bs) = 0x0a000001"
    by (simp_all add: ipv4_fields_def be_int_def Let_def)
  have "\<exists>i'. async_recv_frame ?f ?i = Some i' \<and> length (datagrams_out i') = 1 \<and> route (?r\<lparr>interfaces := [i', ?j]\<rparr>) = None"
  proof (rule bad_version_stops_router [where own = 7 and bs = ?bs])
    show "ni_inv 7 (netif ?i)" unfolding async_new_def by (simp add: ni_inv_new address_valid_def)
    show "eth_dst (fr_header ?f) = ni_ethernet_address (netif ?i)" by (simp add: async_new_def ni_new_def)
    show "bl_concatenate (fr_payload ?f) = ?bs" by (simp add: bl_of_string_def bl_of_buffer_def bl_concatenate_eq)
    show "scan_find (ip_dst (ipv4_fields ?bs)) (rev (routing_table ?r)) = Some \<lparr>io_next_hop = None, interface_num = 1\<rparr>"
      by (simp add: get_mask_def omap_find_def)
    show "omap_find (ip_dst (ipv4_fields ?bs)) (forwarding_table (netif ?j)) \<noteq> None"
      unfolding h by (simp add: async_new_def omap_find_def)
  qed (simp_all add: h async_new_def)
  then show ?thesis by auto
qed

end
