(* ===== verification/Network_Simulator.thy ===== *)
theory Network_Simulator
  imports Router
begin

unbundle bit_operations_syntax

text \<open>
  The network simulator, \<open>apps/network_simulator.cc\<close>: hosts around a router, links that hand Ethernet frames from
  one interface to another, and the scenarios of \<open>network_simulator\<close>. The random number generator and the resolver
  are parameters; a throw is \<^const>\<open>None\<close>; the output to the console is left out.
\<close>

type_synonym 'g random = "'g \<Rightarrow> u32 \<times> 'g"

subsection \<open>Addresses\<close>

fun random_bytes :: "'g random \<Rightarrow> nat \<Rightarrow> 'g \<Rightarrow> bytes \<times> 'g" where
  "random_bytes rd 0 g = ([], g)"
| "random_bytes rd (Suc n) g = (let (x, g) = rd g; (bs, g) = random_bytes rd n g in (ucast x # bs, g))"

definition random_host_ethernet_address :: "'g random \<Rightarrow> 'g \<Rightarrow> EthernetAddress \<times> 'g" where
  "random_host_ethernet_address rd g =
     (let (addr, g) = random_bytes rd 6 g;
          addr = addr[0 := addr ! 0 OR 0x02];
          addr = addr[0 := addr ! 0 AND 0xfe]
      in (addr, g))"

definition random_router_ethernet_address :: "'g random \<Rightarrow> 'g \<Rightarrow> EthernetAddress \<times> 'g" where
  "random_router_ethernet_address rd g =
     (let (addr, g) = random_bytes rd 6 g in (addr[0 := 0x02, 1 := 0, 2 := 0], g))"

definition ip_number :: "getaddrinfo \<Rightarrow> string \<Rightarrow> u32 option" where
  "ip_number gai str = address_of_ip gai str 0 \<bind> ipv4_numeric"

subsection \<open>Hosts\<close>

record sim_host =
  host_name :: string
  my_address :: address
  host_interface :: async_interface
  host_next_hop :: address
  expecting_to_receive :: "ipv4_datagram list"

fun expecting :: "ipv4_datagram list \<Rightarrow> ipv4_datagram \<Rightarrow> bool option" where
  "expecting [] expected = Some False"
| "expecting (x # xs) expected = do {
     a \<leftarrow> ipv4_datagram_serialize x;
     b \<leftarrow> ipv4_datagram_serialize expected;
     if bl_concatenate a = bl_concatenate b then Some True else expecting xs expected
   }"

fun remove_expectation :: "ipv4_datagram list \<Rightarrow> ipv4_datagram \<Rightarrow> ipv4_datagram list option" where
  "remove_expectation [] expected = Some []"
| "remove_expectation (x # xs) expected = do {
     a \<leftarrow> ipv4_datagram_serialize x;
     b \<leftarrow> ipv4_datagram_serialize expected;
     if bl_concatenate a = bl_concatenate b then Some xs
     else map_option (Cons x) (remove_expectation xs expected)
   }"

definition sim_host_new :: "'g random \<Rightarrow> string \<Rightarrow> address \<Rightarrow> address \<Rightarrow> 'g \<Rightarrow> sim_host \<times> 'g" where
  "sim_host_new rd name addr next_hop g =
     (let (eth, g) = random_host_ethernet_address rd g
      in (\<lparr>host_name = name, my_address = addr, host_interface = async_new (ni_new eth addr), host_next_hop = next_hop,
           expecting_to_receive = []\<rparr>, g))"

definition random_payload :: "u32 \<Rightarrow> buffer_list" where
  "random_payload r = bl_of_string (map of_char (''random payload: {'' @ decimal (unat r) @ ''}''))"

definition send_to :: "'g random \<Rightarrow> address \<Rightarrow> u8 \<Rightarrow> sim_host \<Rightarrow> 'g \<Rightarrow> (ipv4_datagram \<times> sim_host \<times> 'g) option" where
  "send_to rd destination ttl h g = do {
     src \<leftarrow> ipv4_numeric (my_address h);
     dst \<leftarrow> ipv4_numeric destination;
     let (r, g) = rd g;
     let payload = random_payload r;
     let len = ucast (ucast (ip_hlen ipv4_header_default) * 4 + bl_size payload :: u64);
     let dgram = \<lparr>dg_header = ipv4_header_default\<lparr>ip_src := src, ip_dst := dst, ip_len := len, ip_ttl := ttl\<rparr>, dg_payload = payload\<rparr>;
     ni \<leftarrow> send_datagram dgram (host_next_hop h) (netif (host_interface h));
     Some (dgram, h\<lparr>host_interface := (host_interface h)\<lparr>netif := ni\<rparr>\<rparr>, g)
   }"

definition expect :: "ipv4_datagram \<Rightarrow> sim_host \<Rightarrow> sim_host" where
  "expect expected h = h\<lparr>expecting_to_receive := expecting_to_receive h @ [expected]\<rparr>"

fun check_received :: "ipv4_datagram list \<Rightarrow> ipv4_datagram list \<Rightarrow> ipv4_datagram list option" where
  "check_received [] es = Some es"
| "check_received (dgram_received # ds) es = do {
     ok \<leftarrow> expecting es dgram_received;
     if \<not> ok then None
     else do {
       es \<leftarrow> remove_expectation es dgram_received;
       check_received ds es
     }
   }"

definition check_host :: "sim_host \<Rightarrow> sim_host option" where
  "check_host h = do {
     es \<leftarrow> check_received (datagrams_out (host_interface h)) (expecting_to_receive h);
     if es \<noteq> [] then None
     else Some (h\<lparr>host_interface := (host_interface h)\<lparr>datagrams_out := []\<rparr>, expecting_to_receive := []\<rparr>)
   }"

subsection \<open>Links\<close>

definition flatten_frame :: "ethernet_frame \<Rightarrow> ethernet_frame" where
  "flatten_frame f = f\<lparr>fr_payload := bl_of_string (bl_concatenate (fr_payload f))\<rparr>"

fun deliver :: "ethernet_frame list \<Rightarrow> async_interface \<Rightarrow> async_interface option" where
  "deliver [] dst = Some dst"
| "deliver (f # fs) dst = async_recv_frame (flatten_frame f) dst \<bind> deliver fs"

definition clear_frames :: "ethernet_frame list \<Rightarrow> async_interface \<Rightarrow> async_interface" where
  "clear_frames fs i = i\<lparr>netif := (netif i)\<lparr>frames_out := drop (length fs) (frames_out (netif i))\<rparr>\<rparr>"

definition exchange_frames :: "async_interface \<Rightarrow> async_interface \<Rightarrow> (async_interface \<times> async_interface) option" where
  "exchange_frames x y = do {
     let x_frames = frames_out (netif x);
     let y_frames = frames_out (netif y);
     y \<leftarrow> deliver x_frames y;
     x \<leftarrow> deliver y_frames x;
     Some (clear_frames x_frames x, clear_frames y_frames y)
   }"

definition exchange_frames_3 ::
  "async_interface \<Rightarrow> async_interface \<Rightarrow> async_interface \<Rightarrow> (async_interface \<times> async_interface \<times> async_interface) option" where
  "exchange_frames_3 x y z = do {
     let x_frames = frames_out (netif x);
     let y_frames = frames_out (netif y);
     let z_frames = frames_out (netif z);
     y \<leftarrow> deliver x_frames y;
     z \<leftarrow> deliver x_frames z;
     x \<leftarrow> deliver y_frames x;
     z \<leftarrow> deliver y_frames z;
     x \<leftarrow> deliver z_frames x;
     y \<leftarrow> deliver z_frames y;
     Some (clear_frames x_frames x, clear_frames y_frames y, clear_frames z_frames z)
   }"

subsection \<open>The network\<close>

text \<open>The hosts are an association list; the order in which \<open>std::unordered_map\<close> is traversed only decides which check fails first.\<close>

record sim_network =
  net_router :: router
  default_id :: u64
  eth0_id :: u64
  eth1_id :: u64
  eth2_id :: u64
  uun3_id :: u64
  hs4_id :: u64
  mit5_id :: u64
  net_hosts :: "(string \<times> sim_host) list"

definition find_host :: "string \<Rightarrow> sim_network \<Rightarrow> sim_host option" where
  "find_host name net = (case map_of (net_hosts net) name of
     None \<Rightarrow> None | Some h \<Rightarrow> if host_name h \<noteq> name then None else Some h)"

definition update_host :: "string \<Rightarrow> sim_host \<Rightarrow> sim_network \<Rightarrow> sim_network" where
  "update_host name h net = net\<lparr>net_hosts := map (\<lambda>(n, x). (n, if n = name then h else x)) (net_hosts net)\<rparr>"

definition update_interface :: "u64 \<Rightarrow> async_interface \<Rightarrow> sim_network \<Rightarrow> sim_network" where
  "update_interface k i net = net\<lparr>net_router := (net_router net)\<lparr>interfaces := (interfaces (net_router net))[unat k := i]\<rparr>\<rparr>"

definition physical_link :: "u64 \<Rightarrow> string \<Rightarrow> sim_network \<Rightarrow> sim_network option" where
  "physical_link k name net = do {
     x \<leftarrow> router_interface k (net_router net);
     h \<leftarrow> find_host name net;
     (x, y) \<leftarrow> exchange_frames x (host_interface h);
     Some (update_host name (h\<lparr>host_interface := y\<rparr>) (update_interface k x net))
   }"

definition physical_link_3 :: "u64 \<Rightarrow> string \<Rightarrow> string \<Rightarrow> sim_network \<Rightarrow> sim_network option" where
  "physical_link_3 k name1 name2 net = do {
     x \<leftarrow> router_interface k (net_router net);
     h1 \<leftarrow> find_host name1 net;
     h2 \<leftarrow> find_host name2 net;
     (x, y, z) \<leftarrow> exchange_frames_3 x (host_interface h1) (host_interface h2);
     Some (update_host name2 (h2\<lparr>host_interface := z\<rparr>) (update_host name1 (h1\<lparr>host_interface := y\<rparr>) (update_interface k x net)))
   }"

definition simulate_physical_connections :: "sim_network \<Rightarrow> sim_network option" where
  "simulate_physical_connections net = do {
     net \<leftarrow> physical_link (default_id net) ''default_router'' net;
     net \<leftarrow> physical_link (eth0_id net) ''applesauce'' net;
     net \<leftarrow> physical_link (eth2_id net) ''cherrypie'' net;
     net \<leftarrow> physical_link (hs4_id net) ''hs_router'' net;
     physical_link_3 (uun3_id net) ''dm42'' ''dm43'' net
   }"

fun simulate_rounds :: "nat \<Rightarrow> sim_network \<Rightarrow> sim_network option" where
  "simulate_rounds 0 net = Some net"
| "simulate_rounds (Suc n) net = do {
     r \<leftarrow> route (net_router net);
     net \<leftarrow> simulate_physical_connections (net\<lparr>net_router := r\<rparr>);
     simulate_rounds n net
   }"

fun check_hosts :: "(string \<times> sim_host) list \<Rightarrow> (string \<times> sim_host) list option" where
  "check_hosts [] = Some []"
| "check_hosts ((n, h) # hs) = do {
     h \<leftarrow> check_host h;
     hs \<leftarrow> check_hosts hs;
     Some ((n, h) # hs)
   }"

definition simulate :: "sim_network \<Rightarrow> sim_network option" where
  "simulate net = do {
     net \<leftarrow> simulate_rounds 256 net;
     hosts \<leftarrow> check_hosts (net_hosts net);
     Some (net\<lparr>net_hosts := hosts\<rparr>)
   }"

definition add_port :: "'g random \<Rightarrow> getaddrinfo \<Rightarrow> string \<Rightarrow> router \<Rightarrow> 'g \<Rightarrow> (u64 \<times> router \<times> 'g) option" where
  "add_port rd gai str r g = do {
     let (eth, g) = random_router_ethernet_address rd g;
     addr \<leftarrow> address_of_ip gai str 0;
     let (k, r) = add_interface (async_new (ni_new eth addr)) r;
     Some (k, r, g)
   }"

definition insert_host ::
  "'g random \<Rightarrow> getaddrinfo \<Rightarrow> string \<Rightarrow> string \<Rightarrow> string \<Rightarrow> (string \<times> sim_host) list \<Rightarrow> 'g \<Rightarrow> ((string \<times> sim_host) list \<times> 'g) option" where
  "insert_host rd gai name str hop hs g = do {
     addr \<leftarrow> address_of_ip gai str 0;
     next_hop \<leftarrow> address_of_ip gai hop 0;
     let (h, g) = sim_host_new rd name addr next_hop g;
     Some (if map_of hs name = None then hs @ [(name, h)] else hs, g)
   }"

definition add_network_route :: "getaddrinfo \<Rightarrow> string \<Rightarrow> u8 \<Rightarrow> address option \<Rightarrow> u64 \<Rightarrow> sim_network \<Rightarrow> sim_network option" where
  "add_network_route gai prefix len hop k net = do {
     p \<leftarrow> ip_number gai prefix;
     Some (net\<lparr>net_router := add_route p len hop k (net_router net)\<rparr>)
   }"

definition sim_network_new :: "'g random \<Rightarrow> getaddrinfo \<Rightarrow> 'g \<Rightarrow> (sim_network \<times> 'g) option" where
  "sim_network_new rd gai g = do {
     (default, r, g) \<leftarrow> add_port rd gai ''171.67.76.46'' router_new g;
     (eth0, r, g) \<leftarrow> add_port rd gai ''10.0.0.1'' r g;
     (eth1, r, g) \<leftarrow> add_port rd gai ''172.16.0.1'' r g;
     (eth2, r, g) \<leftarrow> add_port rd gai ''192.168.0.1'' r g;
     (uun3, r, g) \<leftarrow> add_port rd gai ''198.178.229.1'' r g;
     (hs4, r, g) \<leftarrow> add_port rd gai ''143.195.0.2'' r g;
     (mit5, r, g) \<leftarrow> add_port rd gai ''128.30.76.255'' r g;
     (hs, g) \<leftarrow> insert_host rd gai ''applesauce'' ''10.0.0.2'' ''10.0.0.1'' [] g;
     (hs, g) \<leftarrow> insert_host rd gai ''default_router'' ''171.67.76.1'' ''0'' hs g;
     (hs, g) \<leftarrow> insert_host rd gai ''cherrypie'' ''192.168.0.2'' ''192.168.0.1'' hs g;
     (hs, g) \<leftarrow> insert_host rd gai ''hs_router'' ''143.195.0.1'' ''0'' hs g;
     (hs, g) \<leftarrow> insert_host rd gai ''dm42'' ''198.178.229.42'' ''198.178.229.1'' hs g;
     (hs, g) \<leftarrow> insert_host rd gai ''dm43'' ''198.178.229.43'' ''198.178.229.1'' hs g;
     let net = \<lparr>net_router = r, default_id = default, eth0_id = eth0, eth1_id = eth1, eth2_id = eth2, uun3_id = uun3, hs4_id = hs4,
       mit5_id = mit5, net_hosts = hs\<rparr>;
     default_router \<leftarrow> find_host ''default_router'' net;
     net \<leftarrow> add_network_route gai ''0.0.0.0'' 0 (Some (my_address default_router)) default net;
     net \<leftarrow> add_network_route gai ''10.0.0.0'' 8 None eth0 net;
     net \<leftarrow> add_network_route gai ''172.16.0.0'' 16 None eth1 net;
     net \<leftarrow> add_network_route gai ''192.168.0.0'' 24 None eth2 net;
     net \<leftarrow> add_network_route gai ''198.178.229.0'' 24 None uun3 net;
     hs_router \<leftarrow> find_host ''hs_router'' net;
     net \<leftarrow> add_network_route gai ''143.195.0.0'' 17 (Some (my_address hs_router)) hs4 net;
     net \<leftarrow> add_network_route gai ''143.195.128.0'' 18 (Some (my_address hs_router)) hs4 net;
     net \<leftarrow> add_network_route gai ''143.195.192.0'' 19 (Some (my_address hs_router)) hs4 net;
     mit \<leftarrow> address_of_ip gai ''128.30.0.1'' 0;
     net \<leftarrow> add_network_route gai ''128.30.76.255'' 16 (Some mit) mit5 net;
     Some (net, g)
   }"

subsection \<open>The scenarios\<close>

definition host_send :: "'g random \<Rightarrow> string \<Rightarrow> address \<Rightarrow> u8 \<Rightarrow> sim_network \<Rightarrow> 'g \<Rightarrow> (ipv4_datagram \<times> sim_network \<times> 'g) option" where
  "host_send rd name destination ttl net g = do {
     h \<leftarrow> find_host name net;
     (dgram_sent, h, g) \<leftarrow> send_to rd destination ttl h g;
     Some (dgram_sent, update_host name h net, g)
   }"

definition host_expect :: "string \<Rightarrow> ipv4_datagram \<Rightarrow> sim_network \<Rightarrow> sim_network option" where
  "host_expect name dgram net = map_option (\<lambda>h. update_host name (expect dgram h) net) (find_host name net)"

text \<open>A datagram that is sent by one host and, with its time to live decremented, expected by another.\<close>

definition traffic :: "'g random \<Rightarrow> string \<Rightarrow> address \<Rightarrow> string \<Rightarrow> sim_network \<Rightarrow> 'g \<Rightarrow> (sim_network \<times> 'g) option" where
  "traffic rd sender destination receiver net g = do {
     (dgram_sent, net, g) \<leftarrow> host_send rd sender destination 64 net g;
     net \<leftarrow> host_expect receiver (hopped dgram_sent) net;
     net \<leftarrow> simulate net;
     Some (net, g)
   }"

definition traffic_to_host :: "'g random \<Rightarrow> string \<Rightarrow> string \<Rightarrow> sim_network \<Rightarrow> 'g \<Rightarrow> (sim_network \<times> 'g) option" where
  "traffic_to_host rd sender receiver net g = do {
     h \<leftarrow> find_host receiver net;
     traffic rd sender (my_address h) receiver net g
   }"

definition traffic_to_ip ::
  "'g random \<Rightarrow> getaddrinfo \<Rightarrow> string \<Rightarrow> string \<Rightarrow> string \<Rightarrow> sim_network \<Rightarrow> 'g \<Rightarrow> (sim_network \<times> 'g) option" where
  "traffic_to_ip rd gai sender destination receiver net g = do {
     a \<leftarrow> address_of_ip gai destination 0;
     traffic rd sender a receiver net g
   }"

text \<open>A datagram that nobody is to receive.\<close>

definition expiring_traffic ::
  "'g random \<Rightarrow> getaddrinfo \<Rightarrow> string \<Rightarrow> string \<Rightarrow> u8 \<Rightarrow> sim_network \<Rightarrow> 'g \<Rightarrow> (sim_network \<times> 'g) option" where
  "expiring_traffic rd gai sender destination ttl net g = do {
     a \<leftarrow> address_of_ip gai destination 0;
     (dgram_sent, net, g) \<leftarrow> host_send rd sender a ttl net g;
     net \<leftarrow> simulate net;
     Some (net, g)
   }"

definition network_simulator :: "'g random \<Rightarrow> getaddrinfo \<Rightarrow> 'g \<Rightarrow> (sim_network \<times> 'g) option" where
  "network_simulator rd gai g = do {
     (net, g) \<leftarrow> sim_network_new rd gai g;
     (net, g) \<leftarrow> traffic_to_host rd ''applesauce'' ''cherrypie'' net g;
     (net, g) \<leftarrow> traffic_to_host rd ''cherrypie'' ''applesauce'' net g;
     (net, g) \<leftarrow> traffic_to_ip rd gai ''applesauce'' ''1.2.3.4'' ''default_router'' net g;
     (net, g) \<leftarrow> traffic_to_ip rd gai ''applesauce'' ''143.195.131.17'' ''hs_router'' net g;
     (net, g) \<leftarrow> traffic_to_ip rd gai ''cherrypie'' ''143.195.193.52'' ''hs_router'' net g;
     (net, g) \<leftarrow> traffic_to_ip rd gai ''cherrypie'' ''143.195.223.255'' ''hs_router'' net g;
     (net, g) \<leftarrow> traffic_to_ip rd gai ''cherrypie'' ''143.195.224.0'' ''default_router'' net g;
     (net, g) \<leftarrow> traffic_to_host rd ''dm42'' ''dm43'' net g;
     (net, g) \<leftarrow> expiring_traffic rd gai ''applesauce'' ''1.2.3.4'' 1 net g;
     expiring_traffic rd gai ''applesauce'' ''1.2.3.4'' 0 net g
   }"

subsection \<open>Datagrams up to the checksum\<close>

text \<open>Two datagrams that differ at most in the checksum field and in how the payload is cut into buffers.\<close>

definition same_datagram :: "ipv4_datagram \<Rightarrow> ipv4_datagram \<Rightarrow> bool" where
  "same_datagram d d' \<longleftrightarrow> dg_header d' = (dg_header d)\<lparr>ip_cksum := ip_cksum (dg_header d')\<rparr> \<and>
     bl_concatenate (dg_payload d') = bl_concatenate (dg_payload d)"

lemma same_refl [simp]: "same_datagram d d"
  by (simp add: same_datagram_def)

lemma same_fields:
  assumes "same_datagram d d'"
  shows "ip_dst (dg_header d') = ip_dst (dg_header d)" "ip_ttl (dg_header d') = ip_ttl (dg_header d)"
    "ipv4_datagram_valid d' = ipv4_datagram_valid d" "same_datagram (hopped d) (hopped d')"
proof -
  obtain c where h: "dg_header d' = (dg_header d)\<lparr>ip_cksum := c\<rparr>" using assms unfolding same_datagram_def by blast
  then show "ip_dst (dg_header d') = ip_dst (dg_header d)" "ip_ttl (dg_header d') = ip_ttl (dg_header d)"
    "ipv4_datagram_valid d' = ipv4_datagram_valid d" "same_datagram (hopped d) (hopped d')"
    using assms by (simp_all add: same_datagram_def hopped_def ipv4_datagram_valid_def ipv4_header_valid_def)
qed

lemma same_trans:
  assumes "same_datagram d d'" and "same_datagram d' d''"
  shows "same_datagram d d''"
proof -
  obtain c c' where "dg_header d' = (dg_header d)\<lparr>ip_cksum := c\<rparr>" "dg_header d'' = (dg_header d')\<lparr>ip_cksum := c'\<rparr>"
    using assms unfolding same_datagram_def by blast
  then show ?thesis using assms by (simp add: same_datagram_def)
qed

lemma same_bytes:
  assumes "same_datagram d d'"
  shows "map_option bl_concatenate (ipv4_datagram_serialize d') = map_option bl_concatenate (ipv4_datagram_serialize d)"
proof -
  obtain c where h: "dg_header d' = (dg_header d)\<lparr>ip_cksum := c\<rparr>" using assms unfolding same_datagram_def by blast
  then show ?thesis
    using assms
    by (simp add: same_datagram_def ipv4_datagram_serialize_def ipv4_header_serialize_def payload_length_def Let_def bl_size_eq bl_concatenate_eq)
qed

lemma valid_hopped [simp]: "ipv4_datagram_valid (hopped d) = ipv4_datagram_valid d"
  by (simp add: hopped_def ipv4_datagram_valid_def ipv4_header_valid_def)

subsection \<open>Stations on a link\<close>

text \<open>
  An interface with the numeric address \<open>own\<close> and the Ethernet address \<open>mac\<close>, that knows of its neighbours nothing but
  the truth: frames \<open>fs\<close> are to go out, and \<open>w\<close> tells what waits for an address, with a request outstanding.
\<close>

definition station ::
  "u32 \<Rightarrow> EthernetAddress \<Rightarrow> (u32 \<rightharpoonup> EthernetAddress) \<Rightarrow> ethernet_frame list \<Rightarrow> (u32 \<Rightarrow> ipv4_datagram list) \<Rightarrow> async_interface \<Rightarrow> bool" where
  "station own mac peers fs w i \<longleftrightarrow> ni_inv own (netif i) \<and> ni_ethernet_address (netif i) = mac \<and> frames_out (netif i) = fs \<and>
     (\<forall>ip. waiting ip (netif i) = w ip) \<and> (\<forall>ip. omap_find ip (outstanding_msg (netif i)) = None \<longleftrightarrow> w ip = []) \<and>
     (\<forall>ip m ent. peers ip = Some m \<longrightarrow> omap_find ip (forwarding_table (netif i)) = Some ent \<longrightarrow> eth_addr ent = m)"

abbreviation nothing :: "u32 \<Rightarrow> ipv4_datagram list" where
  "nothing \<equiv> \<lambda>ip. []"

definition cleared :: "async_interface \<Rightarrow> async_interface" where
  "cleared i = i\<lparr>netif := (netif i)\<lparr>frames_out := []\<rparr>\<rparr>"

lemma stationD:
  assumes "station own mac peers fs w i"
  shows "ni_inv own (netif i)" "ni_ethernet_address (netif i) = mac" "frames_out (netif i) = fs" "waiting ip (netif i) = w ip"
    "omap_find ip (outstanding_msg (netif i)) = None \<longleftrightarrow> w ip = []"
    "peers ip = Some m \<Longrightarrow> omap_find ip (forwarding_table (netif i)) = Some ent \<Longrightarrow> eth_addr ent = m"
  using assms by (simp_all add: station_def)

lemma station_cleared: "station own mac peers fs w i \<Longrightarrow> station own mac peers [] w (cleared i)"
  by (auto simp: station_def cleared_def ni_inv_def)

lemma station_queue [simp]: "station own mac peers fs w (i\<lparr>datagrams_out := q\<rparr>) = station own mac peers fs w i"
  by (simp add: station_def)

lemma station_send:
  assumes s: "station own mac peers [] nothing i" and hop: "ipv4_numeric hop = Some b" and b: "peers b = Some B" and d: "ipv4_datagram_valid d"
  obtains ni where "send_datagram d hop (netif i) = Some ni"
    "station own mac peers [ipv4_frame mac B d] nothing (i\<lparr>netif := ni\<rparr>) \<or>
     station own mac peers [arp_frame mac ETHERNET_BROADCAST (request_message mac own b)] (nothing(b := [d])) (i\<lparr>netif := ni\<rparr>)"
proof -
  note S = stationD [OF s]
  note I = ni_invD [OF S(1)]
  have sd: "sendable d" using d by (rule sendable_valid)
  obtain ni where ni: "send_datagram d hop (netif i) = Some ni" "ni_inv own ni" "ni_ethernet_address ni = mac" "forwarding_table ni = forwarding_table (netif i)"
    using ni_inv_send [OF S(1) hop sd] S(2) by auto
  show thesis
  proof (cases "omap_find b (forwarding_table (netif i))")
    case (Some ent)
    then have "ni = (netif i)\<lparr>frames_out := [ipv4_frame mac B d]\<rparr>" using send_known [OF hop Some sd] ni(1) S(2,3,6) b by simp
    then have "station own mac peers [ipv4_frame mac B d] nothing (i\<lparr>netif := ni\<rparr>)" using s ni(2) by (simp add: station_def)
    then show thesis using that ni(1) by blast
  next
    case None
    have e: "omap_find b (outstanding_msg (netif i)) = None" using S(5) by simp
    have "ni = (queue_unsent b d (netif i))\<lparr>outstanding_msg := omap_insert b 0 (outstanding_msg (netif i)),
        frames_out := [arp_frame mac ETHERNET_BROADCAST (request_message mac own b)]\<rparr>"
      using send_unknown [OF S(1) hop None, of d] ni(1) e S(2,3) by simp
    then have "station own mac peers [arp_frame mac ETHERNET_BROADCAST (request_message mac own b)] (nothing(b := [d])) (i\<lparr>netif := ni\<rparr>)"
      using s ni(2-4) waiting_queue_unsent [OF I(5)] omap_insert_ok [OF I(4)] by (auto simp: station_def)
    then show thesis using that ni(1) by blast
  qed
qed

lemma station_arp:
  assumes s: "station own mac peers [] w i" and m: "arp_valid m" "target_ip_address m = own" and dst: "dst \<in> {mac, ETHERNET_BROADCAST}"
    and ip: "peers (sender_ip_address m) = Some (sender_ethernet_address m)"
    and ow: "opcode m = OPCODE_REQUEST \<Longrightarrow> w (sender_ip_address m) = []"
  obtains i' where "async_recv_frame (arp_frame src dst m) i = Some i'" "datagrams_out i' = datagrams_out i"
    "station own mac peers (map (ipv4_frame mac (sender_ethernet_address m)) (w (sender_ip_address m)) @
       (if opcode m = OPCODE_REQUEST
        then [arp_frame mac (sender_ethernet_address m) (reply_message mac own (sender_ethernet_address m) (sender_ip_address m))] else []))
       (w(sender_ip_address m := [])) i'"
proof -
  note S = stationD [OF s]
  have l: "eth_addr (learned m (netif i)) = sender_ethernet_address m" using S(6) [OF ip] by (auto simp: learned_def split: option.split)
  obtain ni where r: "recv_arp m own (netif i) = Some ni" "ni_inv own ni"
    "frames_out ni = map (ipv4_frame mac (sender_ethernet_address m)) (w (sender_ip_address m)) @
      (if opcode m = OPCODE_REQUEST
       then [arp_frame mac (sender_ethernet_address m) (reply_message mac own (sender_ethernet_address m) (sender_ip_address m))] else [])"
    "\<forall>j. waiting j ni = (if j = sender_ip_address m then [] else w j)"
    "\<forall>j. omap_find j (forwarding_table ni) = (if j = sender_ip_address m then Some (learned m (netif i)) else omap_find j (forwarding_table (netif i)))"
    "\<forall>j. omap_find j (outstanding_msg ni) = (if j = sender_ip_address m \<and> opcode m \<noteq> OPCODE_REQUEST then None else omap_find j (outstanding_msg (netif i)))"
    "ni_ethernet_address ni = mac"
    using recv_arp_ok [OF S(1), of m] S(2,3,4) l by auto
  have "recv_frame (arp_frame src dst m) (netif i) = Some (None, ni)"
    using recv_arp_frame [OF S(1) m(1) _ m(2), of dst src] dst S(2) r(1) by simp
  then have "async_recv_frame (arp_frame src dst m) i = Some (i\<lparr>netif := ni\<rparr>)" by (simp add: async_recv_frame_def)
  moreover have "station own mac peers (frames_out ni) (w(sender_ip_address m := [])) (i\<lparr>netif := ni\<rparr>)"
    using r S(5,6) ip l ow by (auto simp: station_def)
  ultimately show thesis using that [of "i\<lparr>netif := ni\<rparr>"] r(3) by simp
qed

lemma station_datagram:
  assumes s: "station own mac peers fs w i" and d: "ipv4_datagram_valid d"
  obtains d' where "async_recv_frame (ipv4_frame src mac d) i = Some (i\<lparr>datagrams_out := datagrams_out i @ [d']\<rparr>)" "same_datagram d d'"
proof -
  note S = stationD [OF s]
  obtain d' where d': "datagram_in (netif i) (ipv4_frame src mac d) = Some d'" "arp_in (netif i) own (ipv4_frame src mac d) = None"
    "frame_fits (ipv4_frame src mac d)" "same_datagram d d'"
    using datagram_in_frame [OF d, of mac "netif i" src own] S(2) by (auto simp: same_datagram_def)
  have "recv_frame (ipv4_frame src mac d) (netif i) = Some (Some d', netif i)"
    using recv_frame_eq [OF S(1) d'(3)] d'(1,2) by simp
  then show thesis using that d'(4) by (simp add: async_recv_frame_def)
qed

text \<open>A third station on the link is not concerned.\<close>

lemma station_ignores:
  assumes s: "station own mac peers fs w i"
  shows "dst \<noteq> mac \<Longrightarrow> dst \<noteq> ETHERNET_BROADCAST \<Longrightarrow> eth_dst (fr_header f) = dst \<Longrightarrow> async_recv_frame f i = Some i"
    "arp_valid m \<Longrightarrow> target_ip_address m \<noteq> own \<Longrightarrow> async_recv_frame (arp_frame src ETHERNET_BROADCAST m) i = Some i"
proof -
  note S = stationD [OF s]
  show "async_recv_frame f i = Some i" if "dst \<noteq> mac" "dst \<noteq> ETHERNET_BROADCAST" "eth_dst (fr_header f) = dst"
    using that S(2) by (simp add: async_recv_frame_def recv_frame_def)
  show "async_recv_frame (arp_frame src ETHERNET_BROADCAST m) i = Some i" if m: "arp_valid m" "target_ip_address m \<noteq> own"
  proof -
    let ?f = "arp_frame src ETHERNET_BROADCAST m"
    have "arp_in (netif i) own ?f = None" "frame_fits ?f" using arp_in_frame [OF m(1), of ETHERNET_BROADCAST "netif i"] m(2) by simp_all
    moreover have "datagram_in (netif i) ?f = None" by (simp add: datagram_in_def arp_frame_def TYPE_IPv4_def TYPE_ARP_def)
    ultimately show ?thesis using recv_frame_eq [OF S(1)] by (simp add: async_recv_frame_def)
  qed
qed

subsection \<open>One frame on the wires\<close>

lemma flatten_recv [simp]: "async_recv_frame (flatten_frame f) i = async_recv_frame f i"
proof -
  have h: "fr_header (flatten_frame f) = fr_header f" "bl_concatenate (fr_payload (flatten_frame f)) = bl_concatenate (fr_payload f)"
    by (simp_all add: flatten_frame_def bl_of_string_def bl_of_buffer_def bl_concatenate_eq)
  show ?thesis unfolding async_recv_frame_def recv_frame_def h by (rule refl)
qed

lemma clear_frames_simps [simp]: "clear_frames [] i = i" "frames_out (netif i) = [f] \<Longrightarrow> clear_frames [f] i = cleared i"
  by (simp_all add: clear_frames_def cleared_def)

text \<open>An interface that keeps its frames while it receives nothing.\<close>

lemma exchange_one:
  assumes "frames_out (netif x) = [f]" and "frames_out (netif y) = []"
  shows "exchange_frames x y = map_option (\<lambda>y'. (cleared x, y')) (async_recv_frame f y)"
    "exchange_frames y x = map_option (\<lambda>y'. (y', cleared x)) (async_recv_frame f y)"
  using assms by (cases "async_recv_frame f y"; simp add: exchange_frames_def)+

lemma exchange_idle: "frames_out (netif x) = [] \<Longrightarrow> frames_out (netif y) = [] \<Longrightarrow> exchange_frames x y = Some (x, y)"
  by (simp add: exchange_frames_def)

lemma exchange_one_3:
  assumes "frames_out (netif x) = [f]" and "frames_out (netif y) = []" and "frames_out (netif z) = []" and "async_recv_frame f z = Some z"
  shows "exchange_frames_3 x y z = map_option (\<lambda>y'. (cleared x, y', z)) (async_recv_frame f y)"
    "exchange_frames_3 x z y = map_option (\<lambda>y'. (cleared x, z, y')) (async_recv_frame f y)"
    "exchange_frames_3 y x z = map_option (\<lambda>y'. (y', cleared x, z)) (async_recv_frame f y)"
    "exchange_frames_3 y z x = map_option (\<lambda>y'. (y', z, cleared x)) (async_recv_frame f y)"
  using assms by (cases "async_recv_frame f y"; simp add: exchange_frames_3_def)+

lemma exchange_idle_3:
  "frames_out (netif x) = [] \<Longrightarrow> frames_out (netif y) = [] \<Longrightarrow> frames_out (netif z) = [] \<Longrightarrow> exchange_frames_3 x y z = Some (x, y, z)"
  by (simp add: exchange_frames_3_def)

text \<open>The interfaces of the network by place, and the links between them.\<close>

datatype place = Port nat | At string

definition wire :: "nat \<Rightarrow> string \<Rightarrow> (place \<Rightarrow> async_interface) \<Rightarrow> (place \<Rightarrow> async_interface) option" where
  "wire k n \<sigma> = map_option (\<lambda>(x, y). \<sigma>(Port k := x, At n := y)) (exchange_frames (\<sigma> (Port k)) (\<sigma> (At n)))"

definition wire_3 :: "nat \<Rightarrow> string \<Rightarrow> string \<Rightarrow> (place \<Rightarrow> async_interface) \<Rightarrow> (place \<Rightarrow> async_interface) option" where
  "wire_3 k n m \<sigma> = map_option (\<lambda>(x, y, z). \<sigma>(Port k := x, At n := y, At m := z)) (exchange_frames_3 (\<sigma> (Port k)) (\<sigma> (At n)) (\<sigma> (At m)))"

definition wires :: "(place \<Rightarrow> async_interface) \<Rightarrow> (place \<Rightarrow> async_interface) option" where
  "wires \<sigma> = do {
     \<sigma> \<leftarrow> wire 0 ''default_router'' \<sigma>;
     \<sigma> \<leftarrow> wire 1 ''applesauce'' \<sigma>;
     \<sigma> \<leftarrow> wire 3 ''cherrypie'' \<sigma>;
     \<sigma> \<leftarrow> wire 5 ''hs_router'' \<sigma>;
     wire_3 4 ''dm42'' ''dm43'' \<sigma>
   }"

definition links :: "(nat \<times> string) list" where
  "links = [(0, ''default_router''), (1, ''applesauce''), (3, ''cherrypie''), (5, ''hs_router''), (4, ''dm42''), (4, ''dm43'')]"

definition connected :: "place \<Rightarrow> place \<Rightarrow> bool" where
  "connected p q \<longleftrightarrow> (\<exists>(k, n) \<in> set links. (p, q) = (Port k, At n) \<or> (p, q) = (At n, Port k))"

text \<open>The third station on a link, if there is one.\<close>

definition bystander :: "place \<Rightarrow> place \<Rightarrow> place \<Rightarrow> bool" where
  "bystander p q r \<longleftrightarrow> {p, q, r} = {Port 4, At ''dm42'', At ''dm43''} \<and> r \<notin> {p, q, Port 4}"

lemma wire_simps:
  "frames_out (netif (\<sigma> (Port k))) = [] \<Longrightarrow> frames_out (netif (\<sigma> (At n))) = [] \<Longrightarrow> wire k n \<sigma> = Some \<sigma>"
  "frames_out (netif (\<sigma> (Port k))) = [f] \<Longrightarrow> frames_out (netif (\<sigma> (At n))) = [] \<Longrightarrow>
     wire k n \<sigma> = map_option (\<lambda>y. \<sigma>(Port k := cleared (\<sigma> (Port k)), At n := y)) (async_recv_frame f (\<sigma> (At n)))"
  "frames_out (netif (\<sigma> (Port k))) = [] \<Longrightarrow> frames_out (netif (\<sigma> (At n))) = [f] \<Longrightarrow>
     wire k n \<sigma> = map_option (\<lambda>y. \<sigma>(At n := cleared (\<sigma> (At n)), Port k := y)) (async_recv_frame f (\<sigma> (Port k)))"
proof -
  have swap: "\<sigma>(Port k := a, At n := b) = \<sigma>(At n := b, Port k := a)" for a b by (rule fun_upd_twist) simp
  show "wire k n \<sigma> = Some \<sigma>" if "frames_out (netif (\<sigma> (Port k))) = []" "frames_out (netif (\<sigma> (At n))) = []"
    using exchange_idle [OF that] by (simp add: wire_def)
  show "wire k n \<sigma> = map_option (\<lambda>y. \<sigma>(Port k := cleared (\<sigma> (Port k)), At n := y)) (async_recv_frame f (\<sigma> (At n)))"
    if "frames_out (netif (\<sigma> (Port k))) = [f]" "frames_out (netif (\<sigma> (At n))) = []"
    using exchange_one(1) [OF that] by (simp add: wire_def option.map_comp comp_def)
  show "wire k n \<sigma> = map_option (\<lambda>y. \<sigma>(At n := cleared (\<sigma> (At n)), Port k := y)) (async_recv_frame f (\<sigma> (Port k)))"
    if "frames_out (netif (\<sigma> (Port k))) = []" "frames_out (netif (\<sigma> (At n))) = [f]"
    using exchange_one(2) [OF that(2,1)] by (simp add: wire_def option.map_comp comp_def swap)
qed

lemma wire_3_simps:
  assumes "frames_out (netif (\<sigma> p)) = [f]" and "frames_out (netif (\<sigma> q)) = []" and "frames_out (netif (\<sigma> r)) = []"
    and "async_recv_frame f (\<sigma> r) = Some (\<sigma> r)" and "n \<noteq> m"
  shows "(p, q, r) \<in> {(Port k, At n, At m), (Port k, At m, At n), (At n, Port k, At m), (At m, Port k, At n)} \<Longrightarrow>
    wire_3 k n m \<sigma> = map_option (\<lambda>y. \<sigma>(p := cleared (\<sigma> p), q := y)) (async_recv_frame f (\<sigma> q))"
proof -
  have u: "\<sigma>(Port k := x, At n := y, At m := \<sigma> (At m)) = \<sigma>(Port k := x, At n := y)" "\<sigma>(Port k := x, At n := y) = \<sigma>(At n := y, Port k := x)"
    "\<sigma>(Port k := x, At m := y) = \<sigma>(At m := y, Port k := x)" for x y
    using assms(5) by (auto simp: fun_eq_iff)
  note E = exchange_one_3 [OF assms(1-4)]
  assume "(p, q, r) \<in> {(Port k, At n, At m), (Port k, At m, At n), (At n, Port k, At m), (At m, Port k, At n)}"
  then consider "p = Port k" "q = At n" "r = At m" | "p = Port k" "q = At m" "r = At n" | "p = At n" "q = Port k" "r = At m"
    | "p = At m" "q = Port k" "r = At n" by auto
  then show ?thesis
    by cases (use E u in \<open>simp_all add: wire_3_def option.map_comp comp_def\<close>)
qed

lemma wires_idle:
  assumes "\<And>p. frames_out (netif (\<sigma> p)) = []"
  shows "wires \<sigma> = Some \<sigma>"
  using assms by (simp add: wires_def wire_simps(1) wire_3_def exchange_idle_3)

lemma wires_one:
  assumes c: "connected p q" and f: "frames_out (netif (\<sigma> p)) = [f]" and idle: "\<And>r. r \<noteq> p \<Longrightarrow> frames_out (netif (\<sigma> r)) = []"
    and third: "\<And>r. bystander p q r \<Longrightarrow> async_recv_frame f (\<sigma> r) = Some (\<sigma> r)"
  shows "wires \<sigma> = map_option (\<lambda>y. \<sigma>(p := cleared (\<sigma> p), q := y)) (async_recv_frame f (\<sigma> q))"
proof -
  have wire: "wire k n \<sigma> = map_option (\<lambda>y. \<sigma>(p := cleared (\<sigma> p), q := y)) (async_recv_frame f (\<sigma> q))"
    if "(p, q) = (Port k, At n) \<or> (p, q) = (At n, Port k)" for k n
    using that wire_simps(2,3) [of \<sigma> k] f idle by auto
  have other: "wire k n (\<sigma>(p := cleared (\<sigma> p), q := y)) = Some (\<sigma>(p := cleared (\<sigma> p), q := y))" if "{Port k, At n} \<inter> {p, q} = {}" for k n y
    using that idle by (intro wire_simps(1)) auto
  have other': "wire k n \<sigma> = Some \<sigma>" if "{Port k, At n} \<inter> {p, q} = {}" for k n
    using that idle by (intro wire_simps(1)) auto
  have idle_3: "wire_3 4 ''dm42'' ''dm43'' \<tau> = Some \<tau>" if "\<And>r. r \<in> {Port 4, At ''dm42'', At ''dm43''} \<Longrightarrow> frames_out (netif (\<tau> r)) = []" for \<tau>
    using that by (simp add: wire_3_def exchange_idle_3)
  consider (pair) k n where "(k, n) \<in> {(0, ''default_router''), (1, ''applesauce''), (3, ''cherrypie''), (5, ''hs_router'')}"
      "(p, q) = (Port k, At n) \<or> (p, q) = (At n, Port k)"
    | (triple) r where "(p, q, r) \<in> {(Port 4, At ''dm42'', At ''dm43''), (Port 4, At ''dm43'', At ''dm42''),
        (At ''dm42'', Port 4, At ''dm43''), (At ''dm43'', Port 4, At ''dm42'')}"
  proof -
    obtain k n where kn: "(k, n) \<in> set links" "(p, q) = (Port k, At n) \<or> (p, q) = (At n, Port k)" using c unfolding connected_def by blast
    then consider "(k, n) \<in> {(0, ''default_router''), (1, ''applesauce''), (3, ''cherrypie''), (5, ''hs_router'')}" | "k = 4" "n = ''dm42''" | "k = 4" "n = ''dm43''"
      unfolding links_def list.set by fast
    then show thesis
    proof cases
      case 1
      then show thesis using kn(2) by (rule pair)
    next
      case 2
      then show thesis using triple [of "At ''dm43''"] kn(2) by simp
    next
      case 3
      then show thesis using triple [of "At ''dm42''"] kn(2) by simp
    qed
  qed
  then show ?thesis
  proof cases
    case pair
    let ?\<tau> = "\<lambda>y. \<sigma>(p := cleared (\<sigma> p), q := y)"
    have "Port 4 \<notin> {p, q}" "At ''dm42'' \<notin> {p, q}" "At ''dm43'' \<notin> {p, q}" using pair by auto
    then have three: "wire_3 4 ''dm42'' ''dm43'' (?\<tau> y) = Some (?\<tau> y)" for y using idle by (intro idle_3) auto
    have rest: "{Port k', At n'} \<inter> {p, q} = {}" if "k' \<noteq> k" "n' \<noteq> n" for k' n' using pair(2) that by auto
    note w = wire [OF pair(2)]
    have "wires \<sigma> = wire k n \<sigma>"
      using pair(1) three other [OF rest] other' [OF rest] w by (cases "async_recv_frame f (\<sigma> q)") (auto simp: wires_def)
    then show ?thesis using w by simp
  next
    case triple
    then have "bystander p q r" "r \<noteq> p" "q \<noteq> p" by (auto simp: bystander_def)
    then have "wire_3 4 ''dm42'' ''dm43'' \<sigma> = map_option (\<lambda>y. \<sigma>(p := cleared (\<sigma> p), q := y)) (async_recv_frame f (\<sigma> q))"
      using triple f idle third by (intro wire_3_simps) auto
    moreover have "wires \<sigma> = wire_3 4 ''dm42'' ''dm43'' \<sigma>" using triple by (auto simp: wires_def other')
    ultimately show ?thesis by simp
  qed
qed

subsection \<open>A hop\<close>

text \<open>The addresses of the network, and what its stations may learn.\<close>

definition host_names :: "string list" where
  "host_names = [''applesauce'', ''default_router'', ''cherrypie'', ''hs_router'', ''dm42'', ''dm43'']"

definition places :: "place list" where
  "places = map Port [0, 1, 2, 3, 4, 5, 6] @ map At host_names"

definition place_ips :: "(place \<times> u32) list" where
  "place_ips = zip places [0xab434c2e, 0x0a000001, 0xac100001, 0xc0a80001, 0xc6b2e501, 0x8fc30002, 0x801e4cff,
     0x0a000002, 0xab434c01, 0xc0a80002, 0x8fc30001, 0xc6b2e52a, 0xc6b2e52b]"

definition ip_at :: "place \<Rightarrow> u32" where
  "ip_at p = (case map_of place_ips p of None \<Rightarrow> 0 | Some ip \<Rightarrow> ip)"

definition peers_of :: "(place \<Rightarrow> EthernetAddress) \<Rightarrow> place \<Rightarrow> u32 \<rightharpoonup> EthernetAddress" where
  "peers_of mac p = map_of (map (\<lambda>q. (ip_at q, mac q)) (filter (connected p) places))"

definition macs_ok :: "(place \<Rightarrow> EthernetAddress) \<Rightarrow> bool" where
  "macs_ok mac \<longleftrightarrow> (\<forall>p. address_valid (mac p) \<and> mac p \<noteq> ETHERNET_BROADCAST) \<and>
     distinct [mac (Port 4), mac (At ''dm42''), mac (At ''dm43'')]"

definition placed :: "(place \<Rightarrow> EthernetAddress) \<Rightarrow> place \<Rightarrow> ethernet_frame list \<Rightarrow> (u32 \<Rightarrow> ipv4_datagram list) \<Rightarrow> async_interface \<Rightarrow> bool" where
  "placed mac p fs w i \<longleftrightarrow> station (ip_at p) (mac p) (peers_of mac p) fs w i \<and> datagrams_out i = []"

text \<open>Nothing is on its way.\<close>

definition all_quiet :: "(place \<Rightarrow> EthernetAddress) \<Rightarrow> (place \<Rightarrow> async_interface) \<Rightarrow> bool" where
  "all_quiet mac \<sigma> \<longleftrightarrow> (\<forall>p. placed mac p [] nothing (\<sigma> p))"

lemma ip_at_simps:
  "ip_at (Port 0) = 0xab434c2e" "ip_at (Port 1) = 0x0a000001" "ip_at (Port (Suc 0)) = 0x0a000001" "ip_at (Port 2) = 0xac100001" "ip_at (Port 3) = 0xc0a80001"
  "ip_at (Port 4) = 0xc6b2e501" "ip_at (Port 5) = 0x8fc30002" "ip_at (Port 6) = 0x801e4cff"
  "ip_at (At ''applesauce'') = 0x0a000002" "ip_at (At ''default_router'') = 0xab434c01" "ip_at (At ''cherrypie'') = 0xc0a80002"
  "ip_at (At ''hs_router'') = 0x8fc30001" "ip_at (At ''dm42'') = 0xc6b2e52a" "ip_at (At ''dm43'') = 0xc6b2e52b"
  by (simp_all add: ip_at_def place_ips_def places_def host_names_def)

lemma ip_at_distinct: "distinct (map ip_at places)"
  by (simp add: places_def host_names_def ip_at_simps)

lemma connected_places: "connected p q \<Longrightarrow> q \<in> set places"
  unfolding connected_def links_def places_def host_names_def by fastforce

lemma peers_connected:
  assumes "connected p q"
  shows "peers_of mac p (ip_at q) = Some (mac q)"
proof -
  have "distinct (map ip_at (filter (connected p) places))" using ip_at_distinct by (rule distinct_map_filter)
  then have "distinct (map fst (map (\<lambda>q. (ip_at q, mac q)) (filter (connected p) places)))" by (simp add: comp_def)
  moreover have "(ip_at q, mac q) \<in> set (map (\<lambda>q. (ip_at q, mac q)) (filter (connected p) places))"
    using assms connected_places [OF assms] by auto
  ultimately show ?thesis unfolding peers_of_def by (rule map_of_is_SomeI)
qed

lemma connected_sym: "connected p q \<Longrightarrow> connected q p"
  unfolding connected_def by blast

lemma connected_neq: "connected p q \<Longrightarrow> p \<noteq> q"
  unfolding connected_def by blast

lemma bystander_sym: "bystander p q r \<Longrightarrow> bystander q p r"
  unfolding bystander_def by (simp add: insert_commute)

lemma bystander_differs:
  assumes "bystander p q r"
  shows "r \<noteq> p" "r \<noteq> q" "ip_at r \<noteq> ip_at p" "ip_at r \<noteq> ip_at q" "macs_ok mac \<Longrightarrow> mac r \<noteq> mac p \<and> mac r \<noteq> mac q"
proof -
  have s: "{p, q, r} \<subseteq> {Port 4, At ''dm42'', At ''dm43''}" and n: "r \<noteq> p" "r \<noteq> q" using assms by (auto simp: bystander_def)
  then show "r \<noteq> p" "r \<noteq> q" by blast+
  have "{Port 4, At ''dm42'', At ''dm43''} \<subseteq> set places" by (simp add: places_def host_names_def)
  then have "p \<in> set places" "q \<in> set places" "r \<in> set places" using s by blast+
  then show "ip_at r \<noteq> ip_at p" "ip_at r \<noteq> ip_at q" using ip_at_distinct n by (auto simp: distinct_map dest: inj_onD)
  show "mac r \<noteq> mac p \<and> mac r \<noteq> mac q" if "macs_ok mac" using that s n by (auto simp: macs_ok_def)
qed

text \<open>Routing, as a function of the interfaces by place.\<close>

definition forward :: "table \<Rightarrow> (place \<Rightarrow> async_interface) \<Rightarrow> (place \<Rightarrow> async_interface) option" where
  "forward t \<sigma> = map_option (\<lambda>nis p. case p of Port k \<Rightarrow> if k < 7 then async_new (nis ! k) else \<sigma> p | At n \<Rightarrow> \<sigma> p)
     (forward_all t (concat (map (\<lambda>k. datagrams_out (\<sigma> (Port k))) [0..<7])) (map (\<lambda>k. netif (\<sigma> (Port k))) [0..<7]))"

fun rounds :: "table \<Rightarrow> nat \<Rightarrow> (place \<Rightarrow> async_interface) \<Rightarrow> (place \<Rightarrow> async_interface) option" where
  "rounds t 0 \<sigma> = Some \<sigma>"
| "rounds t (Suc n) \<sigma> = forward t \<sigma> \<bind> wires \<bind> rounds t n"

lemma rounds_add: "rounds t (m + n) \<sigma> = rounds t m \<sigma> \<bind> rounds t n"
proof (induction m arbitrary: \<sigma>)
  case (Suc m)
  have "rounds t (m + n) = (\<lambda>\<sigma>. rounds t m \<sigma> \<bind> rounds t n)" using Suc.IH by (rule ext)
  then show ?case by simp
qed simp

lemma forward_idle:
  assumes "\<And>k. datagrams_out (\<sigma> (Port k)) = []"
  shows "forward t \<sigma> = Some \<sigma>"
proof -
  have "async_new (netif (\<sigma> (Port k))) = \<sigma> (Port k)" for k using assms [of k] by (simp add: async_new_def)
  moreover have e: "concat (map (\<lambda>k. datagrams_out (\<sigma> (Port k))) [0..<7]) = []" using assms by simp
  ultimately show ?thesis unfolding forward_def e by (simp add: fun_eq_iff split: place.split)
qed

lemma quiet_rounds:
  assumes q: "all_quiet mac \<sigma>" and \<tau>: "\<tau> = \<sigma>(At m := (\<sigma> (At m))\<lparr>datagrams_out := ds\<rparr>)"
  shows "rounds t n \<tau> = Some \<tau>"
proof (induction n)
  case (Suc n)
  have "forward t \<tau> = Some \<tau>" using q by (intro forward_idle) (simp add: \<tau> all_quiet_def placed_def)
  moreover have "wires \<tau> = Some \<tau>" using q by (intro wires_idle) (simp add: \<tau> all_quiet_def placed_def station_def)
  ultimately show ?case using Suc by simp
qed simp

lemma wires_pair:
  assumes macs: "macs_ok mac" and c: "connected p q" and q: "all_quiet mac \<sigma>" and x: "placed mac p [f] w x" and y: "placed mac q [] w' y"
    and ign: "\<And>r. bystander p q r \<Longrightarrow> async_recv_frame f (\<sigma> r) = Some (\<sigma> r)" and recv: "async_recv_frame f y = Some y'"
  shows "wires (\<sigma>(p := x, q := y)) = Some (\<sigma>(p := cleared x, q := y'))"
proof -
  have pq: "p \<noteq> q" using c by (rule connected_neq)
  let ?\<tau> = "\<sigma>(p := x, q := y)"
  have "wires ?\<tau> = map_option (\<lambda>z. ?\<tau>(p := cleared (?\<tau> p), q := z)) (async_recv_frame f (?\<tau> q))"
  proof (rule wires_one [OF c])
    show "frames_out (netif (?\<tau> p)) = [f]" using x pq by (simp add: placed_def station_def)
    show "frames_out (netif (?\<tau> r)) = []" if "r \<noteq> p" for r using that y q by (simp add: all_quiet_def placed_def station_def)
    show "async_recv_frame f (?\<tau> r) = Some (?\<tau> r)" if "bystander p q r" for r using bystander_differs(1,2) [OF that] ign [OF that] by simp
  qed
  moreover have "?\<tau>(p := cleared x, q := y') = \<sigma>(p := cleared x, q := y')" using pq by auto
  ultimately show ?thesis using recv pq by simp
qed

lemma placed_cleared: "placed mac p fs w i \<Longrightarrow> placed mac p [] w (cleared i)"
  using station_cleared by (auto simp: placed_def cleared_def)

lemma quiet_update: "all_quiet mac \<sigma> \<Longrightarrow> placed mac p [] nothing x \<Longrightarrow> placed mac q [] nothing y \<Longrightarrow> all_quiet mac (\<sigma>(p := x, q := y))"
  by (simp add: all_quiet_def)

lemma third_ignores:
  assumes macs: "macs_ok mac" and q: "all_quiet mac \<sigma>" and b: "bystander p q r"
  shows "eth_dst (fr_header f) \<in> {mac p, mac q} \<Longrightarrow> async_recv_frame f (\<sigma> r) = Some (\<sigma> r)"
    "arp_valid m \<Longrightarrow> target_ip_address m = ip_at q \<Longrightarrow> async_recv_frame (arp_frame src ETHERNET_BROADCAST m) (\<sigma> r) = Some (\<sigma> r)"
proof -
  have s: "station (ip_at r) (mac r) (peers_of mac r) [] nothing (\<sigma> r)" using q by (simp add: all_quiet_def placed_def)
  note D = bystander_differs [OF b]
  have "mac p \<noteq> ETHERNET_BROADCAST" "mac q \<noteq> ETHERNET_BROADCAST" using macs by (simp_all add: macs_ok_def)
  then show "async_recv_frame f (\<sigma> r) = Some (\<sigma> r)" if "eth_dst (fr_header f) \<in> {mac p, mac q}"
    using that D(5) [OF macs] station_ignores(1) [OF s _ _ refl] by auto
  show "async_recv_frame (arp_frame src ETHERNET_BROADCAST m) (\<sigma> r) = Some (\<sigma> r)" if "arp_valid m" "target_ip_address m = ip_at q"
    using that D(4) by (intro station_ignores(2) [OF s]) auto
qed

text \<open>The frame that carries the datagram.\<close>

lemma hop_known:
  assumes macs: "macs_ok mac" and c: "connected p q" and q: "all_quiet mac \<sigma>" and d: "ipv4_datagram_valid d"
    and x: "placed mac p [ipv4_frame (mac p) (mac q) d] nothing x" and y: "placed mac q [] nothing y"
  obtains \<sigma>' d' where "wires (\<sigma>(p := x, q := y)) = Some (\<sigma>'(q := (\<sigma>' q)\<lparr>datagrams_out := [d']\<rparr>))" "all_quiet mac \<sigma>'" "same_datagram d d'"
proof -
  have y': "station (ip_at q) (mac q) (peers_of mac q) [] nothing y" "datagrams_out y = []" using y by (simp_all add: placed_def)
  obtain d' where d': "async_recv_frame (ipv4_frame (mac p) (mac q) d) y = Some (y\<lparr>datagrams_out := [d']\<rparr>)" "same_datagram d d'"
    using station_datagram [OF y'(1) d, of "mac p"] y'(2) by auto
  have "async_recv_frame (ipv4_frame (mac p) (mac q) d) (\<sigma> r) = Some (\<sigma> r)" if "bystander p q r" for r
    using third_ignores(1) [OF macs q that] by (simp add: ipv4_frame_def)
  from wires_pair [OF macs c q x y this d'(1)]
  have "wires (\<sigma>(p := x, q := y)) = Some ((\<sigma>(p := cleared x, q := y))(q := ((\<sigma>(p := cleared x, q := y)) q)\<lparr>datagrams_out := [d']\<rparr>))" by simp
  moreover have "all_quiet mac (\<sigma>(p := cleared x, q := y))" using quiet_update [OF q placed_cleared [OF x] y] .
  ultimately show thesis using that d'(2) by blast
qed

text \<open>A datagram for a neighbour reaches it in one round, or in three if its address has to be resolved first.\<close>

lemma hop_delivers:
  assumes macs: "macs_ok mac" and c: "connected p q" and q: "all_quiet mac \<sigma>" and hop: "ipv4_numeric hop = Some (ip_at q)" and d: "ipv4_datagram_valid d"
  obtains ni n \<sigma>' d' where "send_datagram d hop (netif (\<sigma> p)) = Some ni" "n \<le> 2" "all_quiet mac \<sigma>'" "same_datagram d d'"
    "wires (\<sigma>(p := (\<sigma> p)\<lparr>netif := ni\<rparr>)) \<bind> rounds t n = Some (\<sigma>'(q := (\<sigma>' q)\<lparr>datagrams_out := [d']\<rparr>))"
proof -
  have S: "station (ip_at r) (mac r) (peers_of mac r) [] nothing (\<sigma> r)" "placed mac r [] nothing (\<sigma> r)" "datagrams_out (\<sigma> r) = []" for r
    using q by (simp_all add: all_quiet_def placed_def)
  have v: "address_valid (mac r)" for r using macs by (simp add: macs_ok_def)
  note c' = connected_sym [OF c]
  let ?req = "request_message (mac p) (ip_at p) (ip_at q)" and ?rep = "reply_message (mac q) (ip_at q) (mac p) (ip_at p)"
  obtain ni where ni: "send_datagram d hop (netif (\<sigma> p)) = Some ni"
    "placed mac p [ipv4_frame (mac p) (mac q) d] nothing ((\<sigma> p)\<lparr>netif := ni\<rparr>) \<or>
     placed mac p [arp_frame (mac p) ETHERNET_BROADCAST ?req] (nothing(ip_at q := [d])) ((\<sigma> p)\<lparr>netif := ni\<rparr>)"
    by (rule station_send [OF S(1) hop peers_connected [OF c] d]) (use S(3) that in \<open>auto simp: placed_def\<close>)
  let ?x = "(\<sigma> p)\<lparr>netif := ni\<rparr>"
  have same: "\<sigma>(p := ?x) = \<sigma>(p := ?x, q := \<sigma> q)" using connected_neq [OF c] by auto
  from ni(2) show thesis
  proof
    assume x: "placed mac p [ipv4_frame (mac p) (mac q) d] nothing ?x"
    obtain \<sigma>' d' where "wires (\<sigma>(p := ?x, q := \<sigma> q)) = Some (\<sigma>'(q := (\<sigma>' q)\<lparr>datagrams_out := [d']\<rparr>))" "all_quiet mac \<sigma>'" "same_datagram d d'"
      using hop_known [OF macs c q d x S(2)] .
    then have "wires (\<sigma>(p := ?x)) \<bind> rounds t 0 = Some (\<sigma>'(q := (\<sigma>' q)\<lparr>datagrams_out := [d']\<rparr>))" by (subst same) simp
    then show thesis using that [OF ni(1)] \<open>all_quiet mac \<sigma>'\<close> \<open>same_datagram d d'\<close> by blast
  next
    assume x: "placed mac p [arp_frame (mac p) ETHERNET_BROADCAST ?req] (nothing(ip_at q := [d])) ?x"
    have nil: "nothing(a := []) = nothing" for a by auto
    obtain y1 where y1: "async_recv_frame (arp_frame (mac p) ETHERNET_BROADCAST ?req) (\<sigma> q) = Some y1"
      "placed mac q [arp_frame (mac q) (mac p) ?rep] nothing y1"
      by (rule station_arp [OF S(1) arp_messages_valid(1) [OF v], where src = "mac p" and dst = ETHERNET_BROADCAST])
        (use peers_connected [OF c'] S(3) that in \<open>auto simp: request_message_def nil placed_def\<close>)
    have 1: "wires (\<sigma>(p := ?x, q := \<sigma> q)) = Some (\<sigma>(p := cleared ?x, q := y1))"
      using wires_pair [OF macs c q x S(2) _ y1(1)] third_ignores(2) [OF macs q] arp_messages_valid(1) [OF v] by (simp add: request_message_def)
    note xc = placed_cleared [OF x]
    obtain x2 where x2: "async_recv_frame (arp_frame (mac q) (mac p) ?rep) (cleared ?x) = Some x2" "placed mac p [ipv4_frame (mac p) (mac q) d] nothing x2"
      by (rule station_arp [OF conjunct1 [OF xc [unfolded placed_def]] arp_messages_valid(2) [OF v [of q] v [of p]], where src = "mac q" and dst = "mac p"])
        (use peers_connected [OF c] xc that in \<open>auto simp: reply_message_def nil placed_def OPCODE_REPLY_def OPCODE_REQUEST_def\<close>)
    have 2: "wires (\<sigma>(p := cleared ?x, q := y1)) = Some (\<sigma>(p := x2, q := cleared y1))"
      using wires_pair [OF macs c' q y1(2) xc _ x2(1)] third_ignores(1) [OF macs q bystander_sym] connected_neq [OF c]
      by (simp add: arp_frame_def fun_upd_twist)
    obtain \<sigma>' d' where 3: "wires (\<sigma>(p := x2, q := cleared y1)) = Some (\<sigma>'(q := (\<sigma>' q)\<lparr>datagrams_out := [d']\<rparr>))" "all_quiet mac \<sigma>'" "same_datagram d d'"
      using hop_known [OF macs c q d x2(2) placed_cleared [OF y1(2)]] .
    have "forward t (\<sigma>(p := cleared ?x, q := y1)) = Some (\<sigma>(p := cleared ?x, q := y1))" "forward t (\<sigma>(p := x2, q := cleared y1)) = Some (\<sigma>(p := x2, q := cleared y1))"
      using S(3) xc y1(2) x2(2) by (intro forward_idle; simp add: placed_def cleared_def)+
    then have "wires (\<sigma>(p := ?x, q := \<sigma> q)) \<bind> rounds t 2 = Some (\<sigma>'(q := (\<sigma>' q)\<lparr>datagrams_out := [d']\<rparr>))"
      using 1 2 3(1) by (simp add: numeral_2_eq_2)
    then have "wires (\<sigma>(p := ?x)) \<bind> rounds t 2 = Some (\<sigma>'(q := (\<sigma>' q)\<lparr>datagrams_out := [d']\<rparr>))" by (subst same)
    then show thesis using that [OF ni(1)] 3(2,3) by blast
  qed
qed

subsection \<open>Through the router\<close>

lemma forward_one:
  assumes q: "all_quiet mac \<sigma>" and k: "k < 7"
  shows "forward t (\<sigma>(Port k := (\<sigma> (Port k))\<lparr>datagrams_out := [d]\<rparr>)) =
    map_option (\<lambda>nis p. case p of Port k \<Rightarrow> if k < 7 then async_new (nis ! k) else \<sigma> p | At n \<Rightarrow> \<sigma> p)
      (forward_nis t d (map (\<lambda>k. netif (\<sigma> (Port k))) [0..<7]))"
proof -
  let ?\<tau> = "\<sigma>(Port k := (\<sigma> (Port k))\<lparr>datagrams_out := [d]\<rparr>)"
  have one: "concat (map (\<lambda>i. if i = k then [d] else []) [0..<n]) = (if k < n then [d] else [])" for n
    by (induction n) (auto split: if_splits)
  have "(\<lambda>i. datagrams_out (?\<tau> (Port i))) = (\<lambda>i. if i = k then [d] else [])" using q by (auto simp: all_quiet_def placed_def fun_eq_iff)
  then have e: "concat (map (\<lambda>i. datagrams_out (?\<tau> (Port i))) [0..<7]) = [d]" using one [of 7] k by simp
  have n: "map (\<lambda>i. netif (?\<tau> (Port i))) [0..<7] = map (\<lambda>i. netif (\<sigma> (Port i))) [0..<7]" by (rule map_cong) auto
  have f: "forward_all t [d] nis = forward_nis t d nis" for nis by (cases "forward_nis t d nis") simp_all
  have p: "(\<lambda>nis p. case p of Port i \<Rightarrow> if i < 7 then async_new (nis ! i) else ?\<tau> p | At n \<Rightarrow> ?\<tau> p) =
      (\<lambda>nis p. case p of Port i \<Rightarrow> if i < 7 then async_new (nis ! i) else \<sigma> p | At n \<Rightarrow> \<sigma> p)"
    using k by (auto simp: fun_eq_iff split: place.split)
  show ?thesis unfolding forward_def e n f p ..
qed

lemma ports_quiet:
  assumes "all_quiet mac \<sigma>"
  shows "(\<lambda>p. case p of Port k \<Rightarrow> if k < 7 then async_new (map (\<lambda>k. netif (\<sigma> (Port k))) [0..<7] ! k) else \<sigma> p | At n \<Rightarrow> \<sigma> p) = \<sigma>"
    "j < 7 \<Longrightarrow> (\<lambda>p. case p of Port k \<Rightarrow> if k < 7 then async_new ((map (\<lambda>k. netif (\<sigma> (Port k))) [0..<7])[j := ni] ! k) else \<sigma> p | At n \<Rightarrow> \<sigma> p) =
       \<sigma>(Port j := (\<sigma> (Port j))\<lparr>netif := ni\<rparr>)"
proof -
  have "datagrams_out (\<sigma> (Port k)) = []" for k using assms by (simp add: all_quiet_def placed_def)
  then have a: "async_new (netif (\<sigma> (Port k))) = \<sigma> (Port k)" "async_new ni = (\<sigma> (Port k))\<lparr>netif := ni\<rparr>" for k
    by (simp_all add: async_new_def)
  show "(\<lambda>p. case p of Port k \<Rightarrow> if k < 7 then async_new (map (\<lambda>k. netif (\<sigma> (Port k))) [0..<7] ! k) else \<sigma> p | At n \<Rightarrow> \<sigma> p) = \<sigma>"
    by (auto simp: fun_eq_iff a(1) split: place.split)
  show "(\<lambda>p. case p of Port k \<Rightarrow> if k < 7 then async_new ((map (\<lambda>k. netif (\<sigma> (Port k))) [0..<7])[j := ni] ! k) else \<sigma> p | At n \<Rightarrow> \<sigma> p) =
       \<sigma>(Port j := (\<sigma> (Port j))\<lparr>netif := ni\<rparr>)" if "j < 7"
    using that a(2) [of j] by (auto simp: fun_eq_iff nth_list_update a(1) split: place.split)
qed

lemma forward_sends:
  assumes q: "all_quiet mac \<sigma>" and k: "k < 7" and io: "scan_find (ip_dst (dg_header d)) (rev t) = Some io" "unat (interface_num io) = j" "j < 7"
    and hop: "next_hop_of io d = Some hop" and ttl: "1 < ip_ttl (dg_header d)"
  shows "forward t (\<sigma>(Port k := (\<sigma> (Port k))\<lparr>datagrams_out := [d]\<rparr>)) =
    map_option (\<lambda>ni. \<sigma>(Port j := (\<sigma> (Port j))\<lparr>netif := ni\<rparr>)) (send_datagram (hopped d) hop (netif (\<sigma> (Port j))))"
proof -
  define nis where "nis = map (\<lambda>k. netif (\<sigma> (Port k))) [0..<7]"
  have "length nis = 7" "nis ! j = netif (\<sigma> (Port j))" using io(3) by (simp_all add: nis_def)
  moreover have "\<not> ip_ttl (dg_header d) \<le> 1" using ttl by simp
  ultimately have "forward_nis t d nis = map_option (\<lambda>ni. nis[j := ni]) (send_datagram (hopped d) hop (netif (\<sigma> (Port j))))"
    using io hop by (simp add: forward_nis_def)
  then have "forward_nis t d (map (\<lambda>k. netif (\<sigma> (Port k))) [0..<7]) =
      map_option (\<lambda>ni. (map (\<lambda>k. netif (\<sigma> (Port k))) [0..<7])[j := ni]) (send_datagram (hopped d) hop (netif (\<sigma> (Port j))))"
    unfolding nis_def .
  then show ?thesis unfolding forward_one [OF q k] using ports_quiet(2) [OF q io(3)] by (simp add: option.map_comp comp_def)
qed

lemma forward_drops:
  assumes q: "all_quiet mac \<sigma>" and k: "k < 7" and ttl: "ip_ttl (dg_header d) \<le> 1"
  shows "forward t (\<sigma>(Port k := (\<sigma> (Port k))\<lparr>datagrams_out := [d]\<rparr>)) = Some \<sigma>"
proof -
  have "forward_nis t d (map (\<lambda>k. netif (\<sigma> (Port k))) [0..<7]) = Some (map (\<lambda>k. netif (\<sigma> (Port k))) [0..<7])"
    using ttl by (simp add: forward_nis_def split: option.split)
  then show ?thesis unfolding forward_one [OF q k] using ports_quiet(1) [OF q] by simp
qed

lemma connected_port: "connected (At a) (Port k) \<Longrightarrow> k < 7" "connected (Port k) (At a) \<Longrightarrow> k < 7"
  unfolding connected_def links_def by fastforce+

lemma first_hop:
  assumes macs: "macs_ok mac" and c: "connected (At a) (Port k)" and q: "all_quiet mac \<sigma>"
    and hop: "ipv4_numeric hop = Some (ip_at (Port k))" and d: "ipv4_datagram_valid d"
  obtains ni n \<sigma>' d' where "send_datagram d hop (netif (\<sigma> (At a))) = Some ni" "n \<le> 2" "all_quiet mac \<sigma>'" "same_datagram d d'"
    "rounds t (Suc n) (\<sigma>(At a := (\<sigma> (At a))\<lparr>netif := ni\<rparr>)) = Some (\<sigma>'(Port k := (\<sigma>' (Port k))\<lparr>datagrams_out := [d']\<rparr>))"
proof -
  obtain ni n \<sigma>' d' where h: "send_datagram d hop (netif (\<sigma> (At a))) = Some ni" "n \<le> 2" "all_quiet mac \<sigma>'" "same_datagram d d'"
    "wires (\<sigma>(At a := (\<sigma> (At a))\<lparr>netif := ni\<rparr>)) \<bind> rounds t n = Some (\<sigma>'(Port k := (\<sigma>' (Port k))\<lparr>datagrams_out := [d']\<rparr>))"
    by (rule hop_delivers [OF macs c q hop d])
  have "forward t (\<sigma>(At a := (\<sigma> (At a))\<lparr>netif := ni\<rparr>)) = Some (\<sigma>(At a := (\<sigma> (At a))\<lparr>netif := ni\<rparr>))"
    using q by (intro forward_idle) (simp add: all_quiet_def placed_def)
  then have "rounds t (Suc n) (\<sigma>(At a := (\<sigma> (At a))\<lparr>netif := ni\<rparr>)) = Some (\<sigma>'(Port k := (\<sigma>' (Port k))\<lparr>datagrams_out := [d']\<rparr>))" using h(5) by simp
  then show thesis using that h(1-4) by blast
qed

text \<open>A datagram that a host sends reaches the host behind its route within 256 rounds, and then nothing is on its way.\<close>

lemma routed:
  assumes macs: "macs_ok mac" and c: "connected (At a) (Port k)" and q: "all_quiet mac \<sigma>"
    and hop: "ipv4_numeric hop = Some (ip_at (Port k))" and d: "ipv4_datagram_valid d" "1 < ip_ttl (dg_header d)"
    and io: "scan_find (ip_dst (dg_header d)) (rev t) = Some io" "unat (interface_num io) = j"
    and hop': "next_hop_of io d = Some hop'" "ipv4_numeric hop' = Some (ip_at (At m))" and c': "connected (Port j) (At m)"
  obtains ni \<sigma>' d' where "send_datagram d hop (netif (\<sigma> (At a))) = Some ni" "all_quiet mac \<sigma>'" "same_datagram (hopped d) d'"
    "rounds t 256 (\<sigma>(At a := (\<sigma> (At a))\<lparr>netif := ni\<rparr>)) = Some (\<sigma>'(At m := (\<sigma>' (At m))\<lparr>datagrams_out := [d']\<rparr>))"
proof -
  obtain ni n1 \<sigma>1 d1 where 1: "send_datagram d hop (netif (\<sigma> (At a))) = Some ni" "n1 \<le> 2" "all_quiet mac \<sigma>1" "same_datagram d d1"
    "rounds t (Suc n1) (\<sigma>(At a := (\<sigma> (At a))\<lparr>netif := ni\<rparr>)) = Some (\<sigma>1(Port k := (\<sigma>1 (Port k))\<lparr>datagrams_out := [d1]\<rparr>))"
    by (rule first_hop [OF macs c q hop d(1)])
  note s = same_fields [OF 1(4)]
  have d1: "ipv4_datagram_valid (hopped d1)" "next_hop_of io d1 = Some hop'" "1 < ip_ttl (dg_header d1)"
    using d s hop'(1) by (simp_all add: next_hop_of_def split: option.splits)
  obtain ni2 n2 \<sigma>2 d2 where 2: "send_datagram (hopped d1) hop' (netif (\<sigma>1 (Port j))) = Some ni2" "n2 \<le> 2" "all_quiet mac \<sigma>2" "same_datagram (hopped d1) d2"
    "wires (\<sigma>1(Port j := (\<sigma>1 (Port j))\<lparr>netif := ni2\<rparr>)) \<bind> rounds t n2 = Some (\<sigma>2(At m := (\<sigma>2 (At m))\<lparr>datagrams_out := [d2]\<rparr>))"
    by (rule hop_delivers [OF macs c' 1(3) hop'(2) d1(1)])
  have "forward t (\<sigma>1(Port k := (\<sigma>1 (Port k))\<lparr>datagrams_out := [d1]\<rparr>)) = Some (\<sigma>1(Port j := (\<sigma>1 (Port j))\<lparr>netif := ni2\<rparr>))"
    using forward_sends [OF 1(3) connected_port(1) [OF c] _ io(2) connected_port(2) [OF c'] d1(2,3)] io(1) s(1) 2(1) by simp
  then have r2: "rounds t (Suc n2) (\<sigma>1(Port k := (\<sigma>1 (Port k))\<lparr>datagrams_out := [d1]\<rparr>)) = Some (\<sigma>2(At m := (\<sigma>2 (At m))\<lparr>datagrams_out := [d2]\<rparr>))"
    using 2(5) by simp
  have "256 = Suc n1 + (Suc n2 + (254 - n1 - n2))" using 1(2) 2(2) by simp
  then have "rounds t 256 (\<sigma>(At a := (\<sigma> (At a))\<lparr>netif := ni\<rparr>)) = Some (\<sigma>2(At m := (\<sigma>2 (At m))\<lparr>datagrams_out := [d2]\<rparr>))"
    by (simp only: rounds_add 1(5) r2 quiet_rounds [OF 2(3) refl] Option.bind.bind_lunit)
  then show thesis using that 1(1) 2(3) same_trans [OF s(4) 2(4)] by blast
qed

lemma expired:
  assumes macs: "macs_ok mac" and c: "connected (At a) (Port k)" and q: "all_quiet mac \<sigma>"
    and hop: "ipv4_numeric hop = Some (ip_at (Port k))" and d: "ipv4_datagram_valid d" "ip_ttl (dg_header d) \<le> 1"
  obtains ni \<sigma>' where "send_datagram d hop (netif (\<sigma> (At a))) = Some ni" "all_quiet mac \<sigma>'"
    "rounds t 256 (\<sigma>(At a := (\<sigma> (At a))\<lparr>netif := ni\<rparr>)) = Some \<sigma>'"
proof -
  obtain ni n \<sigma>1 d1 where 1: "send_datagram d hop (netif (\<sigma> (At a))) = Some ni" "n \<le> 2" "all_quiet mac \<sigma>1" "same_datagram d d1"
    "rounds t (Suc n) (\<sigma>(At a := (\<sigma> (At a))\<lparr>netif := ni\<rparr>)) = Some (\<sigma>1(Port k := (\<sigma>1 (Port k))\<lparr>datagrams_out := [d1]\<rparr>))"
    by (rule first_hop [OF macs c q hop d(1)])
  have "forward t (\<sigma>1(Port k := (\<sigma>1 (Port k))\<lparr>datagrams_out := [d1]\<rparr>)) = Some \<sigma>1"
    using forward_drops [OF 1(3) connected_port(1) [OF c], of d1] d(2) same_fields(2) [OF 1(4)] by simp
  moreover have w: "wires \<sigma>1 = Some \<sigma>1" using 1(3) by (intro wires_idle) (simp add: all_quiet_def placed_def station_def)
  ultimately have 2: "rounds t (Suc m) (\<sigma>1(Port k := (\<sigma>1 (Port k))\<lparr>datagrams_out := [d1]\<rparr>)) = rounds t m \<sigma>1" for m by simp
  have "\<sigma>1 = \<sigma>1(At a := (\<sigma>1 (At a))\<lparr>datagrams_out := []\<rparr>)" using 1(3) by (simp add: all_quiet_def placed_def fun_upd_idem)
  note 3 = quiet_rounds [OF 1(3) this]
  have "256 = Suc n + Suc (254 - n)" using 1(2) by simp
  then have "rounds t 256 (\<sigma>(At a := (\<sigma> (At a))\<lparr>netif := ni\<rparr>)) = Some \<sigma>1"
    by (simp only: rounds_add 1(5) 2 3 Option.bind.bind_lunit)
  then show thesis using that 1(1,3) by blast
qed

subsection \<open>The network by places\<close>

text \<open>The network with the given interfaces.\<close>

definition network_at :: "sim_network \<Rightarrow> (place \<Rightarrow> async_interface) \<Rightarrow> sim_network" where
  "network_at net \<sigma> = net\<lparr>net_router := \<lparr>interfaces = map (\<lambda>k. \<sigma> (Port k)) [0..<7], routing_table = routing_table (net_router net)\<rparr>,
     net_hosts := map (\<lambda>(n, h). (n, h\<lparr>host_interface := \<sigma> (At n)\<rparr>)) (net_hosts net)\<rparr>"

definition laid_out :: "sim_network \<Rightarrow> bool" where
  "laid_out net \<longleftrightarrow> map fst (net_hosts net) = host_names \<and> (\<forall>(n, h) \<in> set (net_hosts net). host_name h = n) \<and>
     default_id net = 0 \<and> eth0_id net = 1 \<and> eth2_id net = 3 \<and> uun3_id net = 4 \<and> hs4_id net = 5"

lemma map_of_hosts:
  assumes "laid_out net" and "n \<in> set host_names"
  obtains h where "map_of (net_hosts net) n = Some h" "host_name h = n"
proof -
  have "n \<in> fst ` set (net_hosts net)" using assms by (metis laid_out_def set_map)
  then obtain h where h: "map_of (net_hosts net) n = Some h" by (metis map_of_eq_None_iff not_Some_eq)
  then have "host_name h = n" using assms(1) map_of_SomeD [OF h] by (auto simp: laid_out_def)
  with h that show thesis by blast
qed

lemma find_host_at:
  assumes "map_of (net_hosts net) n = Some h" and "host_name h = n"
  shows "find_host n (network_at net \<sigma>) = Some (h\<lparr>host_interface := \<sigma> (At n)\<rparr>)"
proof -
  have "map_of (map (\<lambda>(n, h). (n, h\<lparr>host_interface := \<sigma> (At n)\<rparr>)) hs) n = map_option (\<lambda>h. h\<lparr>host_interface := \<sigma> (At n)\<rparr>) (map_of hs n)" for hs :: "(string \<times> sim_host) list"
    by (induction hs) auto
  then show ?thesis using assms by (simp add: find_host_def network_at_def)
qed

lemma distinct_hosts: "laid_out net \<Longrightarrow> distinct (map fst (net_hosts net))"
  by (simp add: laid_out_def host_names_def)

lemma update_host_at:
  assumes "laid_out net" and h: "map_of (net_hosts net) n = Some h"
  shows "update_host n (h\<lparr>host_interface := y\<rparr>) (network_at net \<sigma>) = network_at net (\<sigma>(At n := y))"
proof -
  have "(n', x) \<in> set (net_hosts net) \<Longrightarrow> n' = n \<Longrightarrow> x = h" for n' x
    using h map_of_is_SomeI [OF distinct_hosts [OF assms(1)]] by fastforce
  then have "map (\<lambda>(n', x). (n', if n' = n then h\<lparr>host_interface := y\<rparr> else x)) (map (\<lambda>(n', x). (n', x\<lparr>host_interface := \<sigma> (At n')\<rparr>)) (net_hosts net)) =
      map (\<lambda>(n', x). (n', x\<lparr>host_interface := (\<sigma>(At n := y)) (At n')\<rparr>)) (net_hosts net)" by auto
  then show ?thesis by (simp add: update_host_def network_at_def)
qed

lemma interface_at:
  assumes "unat k < 7"
  shows "router_interface k (net_router (network_at net \<sigma>)) = Some (\<sigma> (Port (unat k)))"
    "update_interface k x (network_at net \<sigma>) = network_at net (\<sigma>(Port (unat k) := x))"
proof -
  have "(map (\<lambda>k. \<sigma> (Port k)) [0..<7])[unat k := x] = map (\<lambda>i. (\<sigma>(Port (unat k) := x)) (Port i)) [0..<7]"
    using assms by (intro nth_equalityI) (auto simp: nth_list_update)
  then show "update_interface k x (network_at net \<sigma>) = network_at net (\<sigma>(Port (unat k) := x))"
    by (simp add: update_interface_def network_at_def)
  show "router_interface k (net_router (network_at net \<sigma>)) = Some (\<sigma> (Port (unat k)))"
    using assms by (simp add: router_interface_def network_at_def)
qed

lemma physical_link_at:
  assumes lo: "laid_out net" and n: "n \<in> set host_names" and k: "unat k < 7"
  shows "physical_link k n (network_at net \<sigma>) = map_option (network_at net) (wire (unat k) n \<sigma>)"
proof -
  obtain h where h: "map_of (net_hosts net) n = Some h" "host_name h = n" by (rule map_of_hosts [OF lo n])
  have "update_host n (h\<lparr>host_interface := y\<rparr>) (update_interface k x (network_at net \<sigma>)) = network_at net (\<sigma>(Port (unat k) := x, At n := y))" for x y
    using update_host_at [OF lo h(1)] interface_at(2) [OF k] by simp
  then show ?thesis
    by (cases "exchange_frames (\<sigma> (Port (unat k))) (\<sigma> (At n))")
      (auto simp: physical_link_def wire_def find_host_at [OF h] interface_at(1) [OF k])
qed

lemma physical_link_3_at:
  assumes lo: "laid_out net" and n: "n \<in> set host_names" "m \<in> set host_names" and k: "unat k < 7"
  shows "physical_link_3 k n m (network_at net \<sigma>) = map_option (network_at net) (wire_3 (unat k) n m \<sigma>)"
proof -
  obtain h where h: "map_of (net_hosts net) n = Some h" "host_name h = n" by (rule map_of_hosts [OF lo n(1)])
  obtain h' where h': "map_of (net_hosts net) m = Some h'" "host_name h' = m" by (rule map_of_hosts [OF lo n(2)])
  have "update_host m (h'\<lparr>host_interface := z\<rparr>) (update_host n (h\<lparr>host_interface := y\<rparr>) (update_interface k x (network_at net \<sigma>))) =
      network_at net (\<sigma>(Port (unat k) := x, At n := y, At m := z))" for x y z
    using update_host_at [OF lo h(1)] update_host_at [OF lo h'(1)] interface_at(2) [OF k] by simp
  then show ?thesis
    by (cases "exchange_frames_3 (\<sigma> (Port (unat k))) (\<sigma> (At n)) (\<sigma> (At m))")
      (auto simp: physical_link_3_def wire_3_def find_host_at [OF h] find_host_at [OF h'] interface_at(1) [OF k])
qed

lemma physical_at:
  assumes "laid_out net"
  shows "simulate_physical_connections (network_at net \<sigma>) = map_option (network_at net) (wires \<sigma>)"
proof -
  have ids: "default_id (network_at net \<tau>) = 0" "eth0_id (network_at net \<tau>) = 1" "eth2_id (network_at net \<tau>) = 3" "hs4_id (network_at net \<tau>) = 5"
    "uun3_id (network_at net \<tau>) = 4" for \<tau> using assms by (simp_all add: network_at_def laid_out_def)
  have mem: "''default_router'' \<in> set host_names" "''applesauce'' \<in> set host_names" "''cherrypie'' \<in> set host_names"
    "''hs_router'' \<in> set host_names" "''dm42'' \<in> set host_names" "''dm43'' \<in> set host_names" by (simp_all add: host_names_def)
  note P = physical_link_at [OF assms] physical_link_3_at [OF assms mem(5,6)]
  have bind: "map_option f x \<bind> g = x \<bind> (\<lambda>y. g (f y))" for f :: "(place \<Rightarrow> async_interface) \<Rightarrow> sim_network" and x and g :: "sim_network \<Rightarrow> sim_network option"
    by (cases x) simp_all
  have out: "map_option f (x \<bind> g) = x \<bind> (\<lambda>y. map_option f (g y))" for f :: "(place \<Rightarrow> async_interface) \<Rightarrow> sim_network" and x g by (cases x) simp_all
  show ?thesis
    unfolding simulate_physical_connections_def wires_def by (simp add: ids P mem bind out)
qed

lemma rounds_at:
  assumes "laid_out net"
  shows "simulate_rounds n (network_at net \<sigma>) = map_option (network_at net) (rounds (routing_table (net_router net)) n \<sigma>)"
proof (induction n arbitrary: \<sigma>)
  case (Suc n)
  let ?t = "routing_table (net_router net)"
  define nis where "nis = forward_all ?t (concat (map (\<lambda>k. datagrams_out (\<sigma> (Port k))) [0..<7])) (map (\<lambda>k. netif (\<sigma> (Port k))) [0..<7])"
  have r: "route (net_router (network_at net \<sigma>)) = map_option (\<lambda>nis. \<lparr>interfaces = map async_new nis, routing_table = ?t\<rparr>) nis"
    unfolding route_eq by (simp add: network_at_def nis_def comp_def)
  show ?case
  proof (cases nis)
    case None
    then have "forward ?t \<sigma> = None" by (simp add: forward_def nis_def)
    then show ?thesis using r None by simp
  next
    case (Some xs)
    define \<tau> where "\<tau> = (\<lambda>p. case p of Port k \<Rightarrow> if k < 7 then async_new (xs ! k) else \<sigma> p | At n \<Rightarrow> \<sigma> p)"
    have f: "forward ?t \<sigma> = Some \<tau>" using Some unfolding forward_def nis_def [symmetric] \<tau>_def by simp
    have "length xs = 7" using forward_all_length Some unfolding nis_def by fastforce
    then have "map async_new xs = map (\<lambda>k. \<tau> (Port k)) [0..<7]" by (intro nth_equalityI) (simp_all add: \<tau>_def)
    then have "(network_at net \<sigma>)\<lparr>net_router := \<lparr>interfaces = map async_new xs, routing_table = ?t\<rparr>\<rparr> = network_at net \<tau>"
      by (simp add: network_at_def \<tau>_def)
    then have "simulate_rounds (Suc n) (network_at net \<sigma>) = simulate_physical_connections (network_at net \<tau>) \<bind> simulate_rounds n" using r Some by simp
    then show ?thesis using f physical_at [OF assms, of \<tau>] Suc.IH by (cases "wires \<tau>") simp_all
  qed
qed simp

subsection \<open>A scenario\<close>

definition sent_datagram :: "u32 \<Rightarrow> u32 \<Rightarrow> u8 \<Rightarrow> u32 \<Rightarrow> ipv4_datagram" where
  "sent_datagram src dst ttl r = \<lparr>dg_header = ipv4_header_default\<lparr>ip_src := src, ip_dst := dst,
     ip_len := ucast (ucast (ip_hlen ipv4_header_default) * 4 + bl_size (random_payload r) :: u64), ip_ttl := ttl\<rparr>, dg_payload = random_payload r\<rparr>"

lemma length_decimal: "n < 10 ^ Suc k \<Longrightarrow> length (decimal n) \<le> Suc k"
proof (induction k arbitrary: n)
  case 0
  then show ?case by (subst decimal.simps) simp
next
  case (Suc k)
  show ?case
  proof (cases "n < 10")
    case True
    then show ?thesis by (subst decimal.simps) simp
  next
    case False
    have "length (decimal (n div 10)) \<le> Suc k" using Suc.prems by (intro Suc.IH) (simp add: less_mult_imp_div_less mult.commute)
    then show ?thesis using False by (subst decimal.simps) simp
  qed
qed

lemma sent_datagram_valid: "ipv4_datagram_valid (sent_datagram src dst ttl r)"
proof -
  have "unat r < 10 ^ Suc 9" using unsigned_less [of r, where 'a = nat] by simp
  then have "length (decimal (unat r)) \<le> Suc 9" by (rule length_decimal)
  then have l: "length (bl_concatenate (random_payload r)) \<le> 28"
    by (simp add: random_payload_def bl_of_string_def bl_of_buffer_def bl_concatenate_eq)
  then have "unat (ucast (20 + size64 (bl_concatenate (random_payload r)) :: u64) :: u16) = 20 + length (bl_concatenate (random_payload r))"
    by (simp add: size64_def unat_ucast_mod unat_word_ariths take_bit_nat_eq_self unsigned_of_nat)
  then show ?thesis
    by (simp add: sent_datagram_def ipv4_datagram_valid_def ipv4_header_valid_def ipv4_header_default_def IPv4_LENGTH_def bl_size_eq)
qed

text \<open>The routes of the network.\<close>

definition network_routes :: "route_entry list" where
  "network_routes = [(0, 0, Some (inet_address 0xab434c01 0), 0), (0x0a000000, 8, None, 1), (0xac100000, 16, None, 2), (0xc0a80000, 24, None, 3),
     (0xc6b2e500, 24, None, 4), (0x8fc30000, 17, Some (inet_address 0x8fc30001 0), 5), (0x8fc38000, 18, Some (inet_address 0x8fc30001 0), 5),
     (0x8fc3c000, 19, Some (inet_address 0x8fc30001 0), 5), (0x801e4cff, 16, Some (inet_address 0x801e0001 0), 6)]"

definition hosts_ready :: "sim_network \<Rightarrow> bool" where
  "hosts_ready net \<longleftrightarrow> (\<forall>(n, h) \<in> set (net_hosts net). expecting_to_receive h = [] \<and> my_address h = inet_address (ip_at (At n)) 0 \<and>
     (\<forall>k. connected (At n) (Port k) \<longrightarrow> n \<notin> {''default_router'', ''hs_router''} \<longrightarrow> ipv4_numeric (host_next_hop h) = Some (ip_at (Port k))))"

definition network_ready :: "(place \<Rightarrow> EthernetAddress) \<Rightarrow> sim_network \<Rightarrow> bool" where
  "network_ready mac net \<longleftrightarrow> (\<exists>b \<sigma>. net = network_at b \<sigma> \<and> laid_out b \<and> hosts_ready b \<and> all_quiet mac \<sigma> \<and>
     routing_table (net_router b) = routing_table (add_routes network_routes router_new))"

lemma host_send_at:
  assumes lo: "laid_out b" and h: "map_of (net_hosts b) a = Some h" "host_name h = a" and my: "ipv4_numeric (my_address h) = Some src"
    and dst: "ipv4_numeric dest = Some dst" and rd: "rd g = (r, g')"
    and s: "send_datagram (sent_datagram src dst ttl r) (host_next_hop h) (netif (\<sigma> (At a))) = Some ni"
  shows "host_send rd a dest ttl (network_at b \<sigma>) g = Some (sent_datagram src dst ttl r, network_at b (\<sigma>(At a := (\<sigma> (At a))\<lparr>netif := ni\<rparr>)), g')"
proof -
  have u: "update_host a (h\<lparr>host_interface := y\<rparr>) (network_at b \<sigma>) = network_at b (\<sigma>(At a := y))" for y by (rule update_host_at [OF lo h(1)])
  have "send_to rd dest ttl (h\<lparr>host_interface := \<sigma> (At a)\<rparr>) g = Some (sent_datagram src dst ttl r, h\<lparr>host_interface := (\<sigma> (At a))\<lparr>netif := ni\<rparr>\<rparr>, g')"
    using my dst rd s by (simp add: send_to_def sent_datagram_def Let_def)
  then show ?thesis using find_host_at [OF h] u by (simp add: host_send_def)
qed

text \<open>The network in which a host expects a datagram.\<close>

definition expecting_at :: "string \<Rightarrow> ipv4_datagram list \<Rightarrow> sim_network \<Rightarrow> sim_network" where
  "expecting_at m es net = net\<lparr>net_hosts := map (\<lambda>(n, h). (n, if n = m then h\<lparr>expecting_to_receive := es\<rparr> else h)) (net_hosts net)\<rparr>"

lemma host_expect_at:
  assumes lo: "laid_out b" and hr: "hosts_ready b" and m: "m \<in> set host_names"
  shows "host_expect m e (network_at b \<sigma>) = Some (network_at (expecting_at m [e] b) \<sigma>)" "laid_out (expecting_at m es b)"
proof -
  obtain h where h: "map_of (net_hosts b) m = Some h" "host_name h = m" by (rule map_of_hosts [OF lo m])
  have same: "(n', x) \<in> set (net_hosts b) \<Longrightarrow> n' = m \<Longrightarrow> x = h" for n' x
    using h(1) map_of_is_SomeI [OF distinct_hosts [OF lo]] by fastforce
  have "expecting_to_receive h = []" using hr map_of_SomeD [OF h(1)] by (auto simp: hosts_ready_def)
  then have "map (\<lambda>(n', x). (n', if n' = m then expect e (h\<lparr>host_interface := \<sigma> (At m)\<rparr>) else x)) (map (\<lambda>(n', x). (n', x\<lparr>host_interface := \<sigma> (At n')\<rparr>)) (net_hosts b)) =
      map (\<lambda>(n', x). (n', x\<lparr>host_interface := \<sigma> (At n')\<rparr>)) (map (\<lambda>(n', x). (n', if n' = m then x\<lparr>expecting_to_receive := [e]\<rparr> else x)) (net_hosts b))"
    using same by (auto simp: expect_def)
  then have "update_host m (expect e (h\<lparr>host_interface := \<sigma> (At m)\<rparr>)) (network_at b \<sigma>) = network_at (expecting_at m [e] b) \<sigma>"
    by (simp add: update_host_def network_at_def expecting_at_def del: map_map map_eq_conv)
  then show "host_expect m e (network_at b \<sigma>) = Some (network_at (expecting_at m [e] b) \<sigma>)"
    by (simp add: host_expect_def find_host_at [OF h])
  have "map fst (net_hosts (expecting_at m es b)) = map fst (net_hosts b)" by (simp add: expecting_at_def case_prod_unfold)
  moreover have "\<forall>(n, h) \<in> set (net_hosts (expecting_at m es b)). host_name h = n" using lo by (auto simp: laid_out_def expecting_at_def)
  ultimately show "laid_out (expecting_at m es b)" using lo by (simp add: laid_out_def) (simp add: expecting_at_def)
qed

lemma check_hosts_map:
  assumes "\<And>n h. (n, h) \<in> set hs \<Longrightarrow> check_host (f n h) = Some (g n h)"
  shows "check_hosts (map (\<lambda>(n, h). (n, f n h)) hs) = Some (map (\<lambda>(n, h). (n, g n h)) hs)"
  using assms by (induction hs) auto

lemma expected_received:
  assumes "ipv4_datagram_valid d" and "same_datagram d d'"
  shows "check_received [d'] [d] = Some []"
proof -
  obtain bl where bl: "ipv4_datagram_serialize d = Some bl" using sendable_valid [OF assms(1)] by (auto simp: sendable_def)
  then obtain bl' where "ipv4_datagram_serialize d' = Some bl'" "bl_concatenate bl' = bl_concatenate bl" using same_bytes [OF assms(2)] by auto
  then show ?thesis using bl by simp
qed

lemma simulate_at:
  assumes lo: "laid_out b" and hr: "hosts_ready b" and q: "all_quiet mac \<sigma>'" and m: "m \<in> set host_names"
    and r: "rounds (routing_table (net_router b)) 256 \<sigma> = Some (\<sigma>'(At m := (\<sigma>' (At m))\<lparr>datagrams_out := ds\<rparr>))" and c: "check_received ds es = Some []"
  shows "simulate (network_at (expecting_at m es b) \<sigma>) = Some (network_at b \<sigma>')"
proof -
  let ?b = "expecting_at m es b" and ?\<tau> = "\<sigma>'(At m := (\<sigma>' (At m))\<lparr>datagrams_out := ds\<rparr>)"
  have "routing_table (net_router ?b) = routing_table (net_router b)" by (simp add: expecting_at_def)
  then have 1: "simulate_rounds 256 (network_at ?b \<sigma>) = Some (network_at ?b ?\<tau>)"
    using rounds_at [OF host_expect_at(2) [OF lo hr m], where n = 256 and \<sigma> = \<sigma>] r by simp
  have "net_hosts (network_at ?b ?\<tau>) =
      map (\<lambda>(n, h). (n, (if n = m then h\<lparr>expecting_to_receive := es\<rparr> else h)\<lparr>host_interface := ?\<tau> (At n)\<rparr>)) (net_hosts b)"
    by (auto simp: network_at_def expecting_at_def)
  moreover have "check_host ((if n = m then h\<lparr>expecting_to_receive := es\<rparr> else h)\<lparr>host_interface := ?\<tau> (At n)\<rparr>) = Some (h\<lparr>host_interface := \<sigma>' (At n)\<rparr>)"
    if "(n, h) \<in> set (net_hosts b)" for n h
  proof -
    have "expecting_to_receive h = []" "datagrams_out (\<sigma>' (At n)) = []" using hr q that by (auto simp: hosts_ready_def all_quiet_def placed_def)
    then show ?thesis using c by (auto simp: check_host_def)
  qed
  ultimately have "check_hosts (net_hosts (network_at ?b ?\<tau>)) = Some (net_hosts (network_at b \<sigma>'))"
    using check_hosts_map [of "net_hosts b"] by (simp add: network_at_def)
  moreover have "(network_at ?b ?\<tau>)\<lparr>net_hosts := net_hosts (network_at b \<sigma>')\<rparr> = network_at b \<sigma>'" by (simp add: network_at_def expecting_at_def)
  ultimately show ?thesis using 1 by (simp add: simulate_def)
qed

text \<open>The station a datagram for \<open>x\<close> is handed to.\<close>

definition routes_to :: "u32 \<Rightarrow> string \<Rightarrow> bool" where
  "routes_to x m \<longleftrightarrow> (case longest_match x network_routes of None \<Rightarrow> False
     | Some (p, l, h, n) \<Rightarrow> connected (Port (unat n)) (At m) \<and> (case h of None \<Rightarrow> x | Some a \<Rightarrow> the (ipv4_numeric a)) = ip_at (At m) \<and>
         (case h of None \<Rightarrow> True | Some a \<Rightarrow> ipv4_numeric a \<noteq> None))"

lemma routes_toD:
  assumes "routes_to (ip_dst (dg_header d)) m"
  obtains io hop where "scan_find (ip_dst (dg_header d)) (rev (routing_table (add_routes network_routes router_new))) = Some io"
    "next_hop_of io d = Some hop" "ipv4_numeric hop = Some (ip_at (At m))" "connected (Port (unat (interface_num io))) (At m)"
proof -
  obtain p l h n where m: "longest_match (ip_dst (dg_header d)) network_routes = Some (p, l, h, n)" "connected (Port (unat n)) (At m)"
    "(case h of None \<Rightarrow> ip_dst (dg_header d) | Some a \<Rightarrow> the (ipv4_numeric a)) = ip_at (At m)" "case h of None \<Rightarrow> True | Some a \<Rightarrow> ipv4_numeric a \<noteq> None"
    using assms by (auto simp: routes_to_def split: option.splits)
  have "scan_find (ip_dst (dg_header d)) (rev (routing_table (add_routes network_routes router_new))) = Some \<lparr>io_next_hop = h, interface_num = n\<rparr>"
    using scan_longest_match [of router_new network_routes "ip_dst (dg_header d)"] m(1) by (simp add: router_new_def network_routes_def route_out_def word_le_nat_alt)
  moreover have "next_hop_of \<lparr>io_next_hop = h, interface_num = n\<rparr> d = Some (inet_address (ip_at (At m)) 0)"
    using m(3,4) by (auto simp: next_hop_of_def split: option.splits)
  ultimately show thesis using that m(2) by simp
qed

definition sends :: "string \<Rightarrow> bool" where
  "sends a \<longleftrightarrow> a \<in> set host_names \<and> a \<notin> {''default_router'', ''hs_router''}"

lemma network_readyD:
  assumes "network_ready mac net" and "a \<in> set host_names"
  obtains b \<sigma> h where "net = network_at b \<sigma>" "laid_out b" "hosts_ready b" "all_quiet mac \<sigma>"
    "routing_table (net_router b) = routing_table (add_routes network_routes router_new)" "map_of (net_hosts b) a = Some h" "host_name h = a"
    "my_address h = inet_address (ip_at (At a)) 0" "find_host a net = Some (h\<lparr>host_interface := \<sigma> (At a)\<rparr>)"
    "\<And>k. connected (At a) (Port k) \<Longrightarrow> sends a \<Longrightarrow> ipv4_numeric (host_next_hop h) = Some (ip_at (Port k))"
proof -
  obtain b \<sigma> where b: "net = network_at b \<sigma>" "laid_out b" "hosts_ready b" "all_quiet mac \<sigma>"
    "routing_table (net_router b) = routing_table (add_routes network_routes router_new)" using assms(1) unfolding network_ready_def by blast
  obtain h where h: "map_of (net_hosts b) a = Some h" "host_name h = a" by (rule map_of_hosts [OF b(2) assms(2)])
  have "my_address h = inet_address (ip_at (At a)) 0" "\<And>k. connected (At a) (Port k) \<Longrightarrow> sends a \<Longrightarrow> ipv4_numeric (host_next_hop h) = Some (ip_at (Port k))"
    using b(3) map_of_SomeD [OF h(1)] by (auto simp: hosts_ready_def sends_def)
  then show thesis using that b h find_host_at [OF h, of \<sigma>] by blast
qed

lemma traffic_ok:
  assumes macs: "macs_ok mac" and net: "network_ready mac net" and a: "connected (At a) (Port k)" "sends a"
    and dst: "ipv4_numeric dest = Some dst" and m: "routes_to dst m" "m \<in> set host_names"
  shows "\<exists>net'. traffic rd a dest m net g = Some (net', snd (rd g)) \<and> network_ready mac net'"
proof -
  have "a \<in> set host_names" using a(2) by (simp add: sends_def)
  then obtain b \<sigma> h where b: "net = network_at b \<sigma>" "laid_out b" "hosts_ready b" "all_quiet mac \<sigma>"
    "routing_table (net_router b) = routing_table (add_routes network_routes router_new)" "map_of (net_hosts b) a = Some h" "host_name h = a"
    "my_address h = inet_address (ip_at (At a)) 0" "ipv4_numeric (host_next_hop h) = Some (ip_at (Port k))"
    using network_readyD [OF net] a by metis
  obtain r g' where rd: "rd g = (r, g')" by (cases "rd g")
  let ?d = "sent_datagram (ip_at (At a)) dst 64 r"
  have d: "ip_dst (dg_header ?d) = dst" "1 < ip_ttl (dg_header ?d)" by (simp_all add: sent_datagram_def)
  obtain io hop where io: "scan_find (ip_dst (dg_header ?d)) (rev (routing_table (net_router b))) = Some io" "next_hop_of io ?d = Some hop"
    "ipv4_numeric hop = Some (ip_at (At m))" "connected (Port (unat (interface_num io))) (At m)"
    using routes_toD [of ?d m] m(1) d(1) b(5) by metis
  obtain ni \<sigma>' d' where s: "send_datagram ?d (host_next_hop h) (netif (\<sigma> (At a))) = Some ni" "all_quiet mac \<sigma>'" "same_datagram (hopped ?d) d'"
    "rounds (routing_table (net_router b)) 256 (\<sigma>(At a := (\<sigma> (At a))\<lparr>netif := ni\<rparr>)) = Some (\<sigma>'(At m := (\<sigma>' (At m))\<lparr>datagrams_out := [d']\<rparr>))"
    by (rule routed [OF macs a(1) b(4,9) sent_datagram_valid d(2) io(1) refl io(2,3,4)])
  have "host_send rd a dest 64 net g = Some (?d, network_at b (\<sigma>(At a := (\<sigma> (At a))\<lparr>netif := ni\<rparr>)), g')"
    unfolding b(1) using host_send_at [where rd = rd and \<sigma> = \<sigma>, OF b(2,6,7) _ dst rd s(1)] b(8) by simp
  moreover have "check_received [d'] [hopped ?d] = Some []" using expected_received [OF _ s(3)] sent_datagram_valid by simp
  ultimately have "traffic rd a dest m net g = Some (network_at b \<sigma>', g')"
    using host_expect_at(1) [OF b(2,3) m(2)] simulate_at [OF b(2,3) s(2) m(2) s(4)] by (simp add: traffic_def)
  moreover have "network_ready mac (network_at b \<sigma>')" unfolding network_ready_def using b s(2) by blast
  ultimately show ?thesis using rd by simp
qed

lemma expiring_ok:
  assumes macs: "macs_ok mac" and net: "network_ready mac net" and a: "connected (At a) (Port k)" "sends a"
    and dest: "address_of_ip gai str 0 = Some dest" "ipv4_numeric dest = Some dst" and ttl: "ttl \<le> 1"
  shows "\<exists>net'. expiring_traffic rd gai a str ttl net g = Some (net', snd (rd g)) \<and> network_ready mac net'"
proof -
  have an: "a \<in> set host_names" using a(2) by (simp add: sends_def)
  then obtain b \<sigma> h where b: "net = network_at b \<sigma>" "laid_out b" "hosts_ready b" "all_quiet mac \<sigma>"
    "routing_table (net_router b) = routing_table (add_routes network_routes router_new)" "map_of (net_hosts b) a = Some h" "host_name h = a"
    "my_address h = inet_address (ip_at (At a)) 0" "ipv4_numeric (host_next_hop h) = Some (ip_at (Port k))"
    using network_readyD [OF net] a by metis
  obtain r g' where rd: "rd g = (r, g')" by (cases "rd g")
  let ?d = "sent_datagram (ip_at (At a)) dst ttl r"
  have d: "ip_ttl (dg_header ?d) \<le> 1" using ttl by (simp add: sent_datagram_def)
  obtain ni \<sigma>' where s: "send_datagram ?d (host_next_hop h) (netif (\<sigma> (At a))) = Some ni" "all_quiet mac \<sigma>'"
    "rounds (routing_table (net_router b)) 256 (\<sigma>(At a := (\<sigma> (At a))\<lparr>netif := ni\<rparr>)) = Some \<sigma>'"
    by (rule expired [OF macs a(1) b(4,9) sent_datagram_valid d])
  have "host_send rd a dest ttl net g = Some (?d, network_at b (\<sigma>(At a := (\<sigma> (At a))\<lparr>netif := ni\<rparr>)), g')"
    unfolding b(1) using host_send_at [where rd = rd and \<sigma> = \<sigma>, OF b(2,6,7) _ dest(2) rd s(1)] b(8) by simp
  moreover have eq: "\<sigma>'(At a := (\<sigma>' (At a))\<lparr>datagrams_out := []\<rparr>) = \<sigma>'" using s(2) by (simp add: all_quiet_def placed_def fun_upd_idem)
  have "simulate (network_at (expecting_at a [] b) (\<sigma>(At a := (\<sigma> (At a))\<lparr>netif := ni\<rparr>))) = Some (network_at b \<sigma>')"
    by (rule simulate_at [OF b(2,3) s(2) an, where ds = "[]"]) (simp_all add: s(3) eq)
  moreover have "expecting_at a [] b = b"
  proof -
    have "map (\<lambda>(n, h). (n, if n = a then h\<lparr>expecting_to_receive := []\<rparr> else h)) (net_hosts b) = net_hosts b"
      using b(3) by (intro map_idI) (auto simp: hosts_ready_def)
    then show ?thesis by (simp add: expecting_at_def)
  qed
  ultimately have "expiring_traffic rd gai a str ttl net g = Some (network_at b \<sigma>', g')" using dest(1) by (simp add: expiring_traffic_def)
  moreover have "network_ready mac (network_at b \<sigma>')" unfolding network_ready_def using b s(2) by blast
  ultimately show ?thesis using rd by simp
qed

subsection \<open>The network is built\<close>

lemma inet_quads:
  "inet_ntoa 0xab434c2e = ''171.67.76.46''" "inet_ntoa 0x0a000001 = ''10.0.0.1''" "inet_ntoa 0xac100001 = ''172.16.0.1''" "inet_ntoa 0xc0a80001 = ''192.168.0.1''"
  "inet_ntoa 0xc6b2e501 = ''198.178.229.1''" "inet_ntoa 0x8fc30002 = ''143.195.0.2''" "inet_ntoa 0x801e4cff = ''128.30.76.255''" "inet_ntoa 0x0a000002 = ''10.0.0.2''"
  "inet_ntoa 0xab434c01 = ''171.67.76.1''" "inet_ntoa 0xc0a80002 = ''192.168.0.2''" "inet_ntoa 0x8fc30001 = ''143.195.0.1''" "inet_ntoa 0xc6b2e52a = ''198.178.229.42''"
  "inet_ntoa 0xc6b2e52b = ''198.178.229.43''" "inet_ntoa 0 = ''0.0.0.0''" "inet_ntoa 0x0a000000 = ''10.0.0.0''" "inet_ntoa 0xac100000 = ''172.16.0.0''"
  "inet_ntoa 0xc0a80000 = ''192.168.0.0''" "inet_ntoa 0xc6b2e500 = ''198.178.229.0''" "inet_ntoa 0x8fc30000 = ''143.195.0.0''" "inet_ntoa 0x8fc38000 = ''143.195.128.0''"
  "inet_ntoa 0x8fc3c000 = ''143.195.192.0''" "inet_ntoa 0x801e0001 = ''128.30.0.1''" "inet_ntoa 0x01020304 = ''1.2.3.4''" "inet_ntoa 0x8fc38311 = ''143.195.131.17''"
  "inet_ntoa 0x8fc3c134 = ''143.195.193.52''" "inet_ntoa 0x8fc3dfff = ''143.195.223.255''" "inet_ntoa 0x8fc3e000 = ''143.195.224.0''"
  by code_simp+

lemma address_quads:
  assumes "numeric_resolver gai gni"
  shows "address_of_ip gai ''171.67.76.46'' 0 = Some (inet_address 0xab434c2e 0)" "address_of_ip gai ''10.0.0.1'' 0 = Some (inet_address 0x0a000001 0)"
    "address_of_ip gai ''172.16.0.1'' 0 = Some (inet_address 0xac100001 0)" "address_of_ip gai ''192.168.0.1'' 0 = Some (inet_address 0xc0a80001 0)"
    "address_of_ip gai ''198.178.229.1'' 0 = Some (inet_address 0xc6b2e501 0)" "address_of_ip gai ''143.195.0.2'' 0 = Some (inet_address 0x8fc30002 0)"
    "address_of_ip gai ''128.30.76.255'' 0 = Some (inet_address 0x801e4cff 0)" "address_of_ip gai ''10.0.0.2'' 0 = Some (inet_address 0x0a000002 0)"
    "address_of_ip gai ''171.67.76.1'' 0 = Some (inet_address 0xab434c01 0)" "address_of_ip gai ''192.168.0.2'' 0 = Some (inet_address 0xc0a80002 0)"
    "address_of_ip gai ''143.195.0.1'' 0 = Some (inet_address 0x8fc30001 0)" "address_of_ip gai ''198.178.229.42'' 0 = Some (inet_address 0xc6b2e52a 0)"
    "address_of_ip gai ''198.178.229.43'' 0 = Some (inet_address 0xc6b2e52b 0)" "address_of_ip gai ''0.0.0.0'' 0 = Some (inet_address 0 0)"
    "address_of_ip gai ''10.0.0.0'' 0 = Some (inet_address 0x0a000000 0)" "address_of_ip gai ''172.16.0.0'' 0 = Some (inet_address 0xac100000 0)"
    "address_of_ip gai ''192.168.0.0'' 0 = Some (inet_address 0xc0a80000 0)" "address_of_ip gai ''198.178.229.0'' 0 = Some (inet_address 0xc6b2e500 0)"
    "address_of_ip gai ''143.195.0.0'' 0 = Some (inet_address 0x8fc30000 0)" "address_of_ip gai ''143.195.128.0'' 0 = Some (inet_address 0x8fc38000 0)"
    "address_of_ip gai ''143.195.192.0'' 0 = Some (inet_address 0x8fc3c000 0)" "address_of_ip gai ''128.30.0.1'' 0 = Some (inet_address 0x801e0001 0)"
    "address_of_ip gai ''1.2.3.4'' 0 = Some (inet_address 0x01020304 0)" "address_of_ip gai ''143.195.131.17'' 0 = Some (inet_address 0x8fc38311 0)"
    "address_of_ip gai ''143.195.193.52'' 0 = Some (inet_address 0x8fc3c134 0)" "address_of_ip gai ''143.195.223.255'' 0 = Some (inet_address 0x8fc3dfff 0)"
    "address_of_ip gai ''143.195.224.0'' 0 = Some (inet_address 0x8fc3e000 0)"
  using address_of_ip_numeric [OF assms, of "0xab434c2e" 0] address_of_ip_numeric [OF assms, of "0x0a000001" 0] address_of_ip_numeric [OF assms, of "0xac100001" 0]
    address_of_ip_numeric [OF assms, of "0xc0a80001" 0] address_of_ip_numeric [OF assms, of "0xc6b2e501" 0] address_of_ip_numeric [OF assms, of "0x8fc30002" 0]
    address_of_ip_numeric [OF assms, of "0x801e4cff" 0] address_of_ip_numeric [OF assms, of "0x0a000002" 0] address_of_ip_numeric [OF assms, of "0xab434c01" 0]
    address_of_ip_numeric [OF assms, of "0xc0a80002" 0] address_of_ip_numeric [OF assms, of "0x8fc30001" 0] address_of_ip_numeric [OF assms, of "0xc6b2e52a" 0]
    address_of_ip_numeric [OF assms, of "0xc6b2e52b" 0] address_of_ip_numeric [OF assms, of "0" 0] address_of_ip_numeric [OF assms, of "0x0a000000" 0]
    address_of_ip_numeric [OF assms, of "0xac100000" 0] address_of_ip_numeric [OF assms, of "0xc0a80000" 0] address_of_ip_numeric [OF assms, of "0xc6b2e500" 0]
    address_of_ip_numeric [OF assms, of "0x8fc30000" 0] address_of_ip_numeric [OF assms, of "0x8fc38000" 0] address_of_ip_numeric [OF assms, of "0x8fc3c000" 0]
    address_of_ip_numeric [OF assms, of "0x801e0001" 0] address_of_ip_numeric [OF assms, of "0x01020304" 0] address_of_ip_numeric [OF assms, of "0x8fc38311" 0]
    address_of_ip_numeric [OF assms, of "0x8fc3c134" 0] address_of_ip_numeric [OF assms, of "0x8fc3dfff" 0] address_of_ip_numeric [OF assms, of "0x8fc3e000" 0]
  by (simp_all only: inet_quads)

lemma random_bytes_length: "length (fst (random_bytes rd n g)) = n"
  by (induction n arbitrary: g) (auto simp: split_beta)

lemma random_addresses:
  "random_host_ethernet_address rd g = (e, g') \<Longrightarrow> address_valid e \<and> e \<noteq> ETHERNET_BROADCAST"
  "random_router_ethernet_address rd g = (e, g') \<Longrightarrow> address_valid e \<and> e \<noteq> ETHERNET_BROADCAST"
proof -
  obtain bs g1 where b: "random_bytes rd 6 g = (bs, g1)" by (cases "random_bytes rd 6 g")
  then have l: "length bs = 6" using random_bytes_length [of rd 6 g] by simp
  have ne: "e ! 0 \<noteq> 0xff \<Longrightarrow> e \<noteq> ETHERNET_BROADCAST" for e by (auto simp: ETHERNET_BROADCAST_def)
  have m: "x AND 0xfe \<noteq> 0xff" for x :: u8
  proof
    assume "x AND 0xfe = 0xff"
    then have "bit (x AND 0xfe) 0 = bit (0xff :: u8) 0" by simp
    then show False by (simp add: bit_simps)
  qed
  show "address_valid e \<and> e \<noteq> ETHERNET_BROADCAST" if "random_host_ethernet_address rd g = (e, g')"
  proof -
    have e: "e = bs[0 := (bs ! 0 OR 2) AND 0xfe]" using that b l by (auto simp: random_host_ethernet_address_def Let_def)
    then show ?thesis using l m ne [of e] by (simp add: address_valid_def)
  qed
  show "address_valid e \<and> e \<noteq> ETHERNET_BROADCAST" if "random_router_ethernet_address rd g = (e, g')"
  proof -
    have e: "e = bs[0 := 2, 1 := 0, 2 := 0]" using that b by (auto simp: random_router_ethernet_address_def Let_def)
    then show ?thesis using l ne [of e] by (simp add: address_valid_def)
  qed
qed

lemma add_port_eq:
  assumes "random_router_ethernet_address rd g = (e, g')" and "address_of_ip gai str 0 = Some a"
  shows "add_port rd gai str r g = Some (of_nat (length (interfaces r)), r\<lparr>interfaces := interfaces r @ [async_new (ni_new e a)]\<rparr>, g')"
  using assms by (simp add: add_port_def add_interface_def)

definition new_host :: "string \<Rightarrow> EthernetAddress \<Rightarrow> u32 \<Rightarrow> u32 \<Rightarrow> sim_host" where
  "new_host name e ip hop = \<lparr>host_name = name, my_address = inet_address ip 0, host_interface = async_new (ni_new e (inet_address ip 0)),
     host_next_hop = inet_address hop 0, expecting_to_receive = []\<rparr>"

lemma insert_host_eq:
  assumes "random_host_ethernet_address rd g = (e, g')" and "address_of_ip gai str 0 = Some (inet_address ip 0)"
    and "address_of_ip gai hop 0 = Some (inet_address x 0)"
  shows "map_of hs name = None \<Longrightarrow> insert_host rd gai name str hop hs g = Some (hs @ [(name, new_host name e ip x)], g')"
  using assms by (simp add: insert_host_def sim_host_new_def new_host_def)

lemma add_network_route_eq:
  assumes "address_of_ip gai prefix 0 = Some (inet_address p 0)"
  shows "add_network_route gai prefix len hop k net = Some (net\<lparr>net_router := add_route p len hop k (net_router net)\<rparr>)"
  using assms by (simp add: add_network_route_def ip_number_def)

text \<open>What the constructor builds from the Ethernet addresses it draws.\<close>

definition built_network :: "(place \<Rightarrow> EthernetAddress) \<Rightarrow> sim_network" where
  "built_network mac = \<lparr>net_router = add_routes network_routes
       \<lparr>interfaces = map (\<lambda>k. async_new (ni_new (mac (Port k)) (inet_address (ip_at (Port k)) 0))) [0, 1, 2, 3, 4, 5, 6], routing_table = []\<rparr>,
     default_id = 0, eth0_id = 1, eth1_id = 2, eth2_id = 3, uun3_id = 4, hs4_id = 5, mit5_id = 6,
     net_hosts = map (\<lambda>(n, hop). (n, new_host n (mac (At n)) (ip_at (At n)) hop))
       [(''applesauce'', 0x0a000001), (''default_router'', 0), (''cherrypie'', 0xc0a80001), (''hs_router'', 0), (''dm42'', 0xc6b2e501), (''dm43'', 0xc6b2e501)]\<rparr>"

text \<open>The Ethernet addresses in the order in which they are drawn: seven for the ports, then six for the hosts.\<close>

fun drawn :: "('g \<Rightarrow> EthernetAddress \<times> 'g) list \<Rightarrow> 'g \<Rightarrow> EthernetAddress list" where
  "drawn [] g = []"
| "drawn (f # fs) g = (let (e, g') = f g in e # drawn fs g')"

definition drawn_addresses :: "'g random \<Rightarrow> 'g \<Rightarrow> EthernetAddress list" where
  "drawn_addresses rd = drawn (replicate 7 (random_router_ethernet_address rd) @ replicate 6 (random_host_ethernet_address rd))"

lemma sim_network_new_ok:
  assumes gai: "numeric_resolver gai gni" and zero: "address_of_ip gai ''0'' 0 = Some (inet_address 0 0)"
  obtains mac g' where "sim_network_new rd gai g = Some (built_network mac, g')" "\<forall>p. address_valid (mac p) \<and> mac p \<noteq> ETHERNET_BROADCAST"
    "map mac places = drawn_addresses rd g"
proof -
  obtain e0 g0 where e0: "random_router_ethernet_address rd g = (e0, g0)" by (cases "random_router_ethernet_address rd g")
  obtain e1 g1 where e1: "random_router_ethernet_address rd g0 = (e1, g1)" by (cases "random_router_ethernet_address rd g0")
  obtain e2 g2 where e2: "random_router_ethernet_address rd g1 = (e2, g2)" by (cases "random_router_ethernet_address rd g1")
  obtain e3 g3 where e3: "random_router_ethernet_address rd g2 = (e3, g3)" by (cases "random_router_ethernet_address rd g2")
  obtain e4 g4 where e4: "random_router_ethernet_address rd g3 = (e4, g4)" by (cases "random_router_ethernet_address rd g3")
  obtain e5 g5 where e5: "random_router_ethernet_address rd g4 = (e5, g5)" by (cases "random_router_ethernet_address rd g4")
  obtain e6 g6 where e6: "random_router_ethernet_address rd g5 = (e6, g6)" by (cases "random_router_ethernet_address rd g5")
  obtain e7 g7 where e7: "random_host_ethernet_address rd g6 = (e7, g7)" by (cases "random_host_ethernet_address rd g6")
  obtain e8 g8 where e8: "random_host_ethernet_address rd g7 = (e8, g8)" by (cases "random_host_ethernet_address rd g7")
  obtain e9 g9 where e9: "random_host_ethernet_address rd g8 = (e9, g9)" by (cases "random_host_ethernet_address rd g8")
  obtain e10 g10 where e10: "random_host_ethernet_address rd g9 = (e10, g10)" by (cases "random_host_ethernet_address rd g9")
  obtain e11 g11 where e11: "random_host_ethernet_address rd g10 = (e11, g11)" by (cases "random_host_ethernet_address rd g10")
  obtain e12 g12 where e12: "random_host_ethernet_address rd g11 = (e12, g12)" by (cases "random_host_ethernet_address rd g11")
  note A = address_quads [OF gai]
  note p0 = add_port_eq [OF e0 A(1)]
  note p1 = add_port_eq [OF e1 A(2)]
  note p2 = add_port_eq [OF e2 A(3)]
  note p3 = add_port_eq [OF e3 A(4)]
  note p4 = add_port_eq [OF e4 A(5)]
  note p5 = add_port_eq [OF e5 A(6)]
  note p6 = add_port_eq [OF e6 A(7)]
  note h0 = insert_host_eq [OF e7 A(8) A(2)]
  note h1 = insert_host_eq [OF e8 A(9) zero]
  note h2 = insert_host_eq [OF e9 A(10) A(4)]
  note h3 = insert_host_eq [OF e10 A(11) zero]
  note h4 = insert_host_eq [OF e11 A(12) A(5)]
  note h5 = insert_host_eq [OF e12 A(13) A(5)]
  note r = add_network_route_eq [OF A(14)] add_network_route_eq [OF A(15)] add_network_route_eq [OF A(16)] add_network_route_eq [OF A(17)] add_network_route_eq [OF A(18)] add_network_route_eq [OF A(19)] add_network_route_eq [OF A(20)] add_network_route_eq [OF A(21)] add_network_route_eq [OF A(7)]
  define mac where "mac p = (case map_of (zip places [e0, e1, e2, e3, e4, e5, e6, e7, e8, e9, e10, e11, e12]) p of None \<Rightarrow> [0, 0, 0, 0, 0, 0] | Some e \<Rightarrow> e)" for p
  have m: "mac (Port 0) = e0" "mac (Port 1) = e1" "mac (Port 2) = e2" "mac (Port 3) = e3" "mac (Port 4) = e4" "mac (Port 5) = e5" "mac (Port 6) = e6" "mac (Port (Suc 0)) = e1"
    "mac (At ''applesauce'') = e7" "mac (At ''default_router'') = e8" "mac (At ''cherrypie'') = e9" "mac (At ''hs_router'') = e10" "mac (At ''dm42'') = e11" "mac (At ''dm43'') = e12"
    by (simp_all add: mac_def places_def host_names_def)
  have "sim_network_new rd gai g = Some (built_network mac, g12)"
    by (simp add: sim_network_new_def p0 p1 p2 p3 p4 p5 p6 h0 h1 h2 h3 h4 h5 r router_new_def find_host_def A Let_def)
      (simp add: built_network_def m ip_at_simps network_routes_def add_routes_def new_host_def)
  moreover have "\<forall>e \<in> set [e0, e1, e2, e3, e4, e5, e6, e7, e8, e9, e10, e11, e12]. address_valid e \<and> e \<noteq> ETHERNET_BROADCAST"
    using random_addresses(2) [OF e0] random_addresses(2) [OF e1] random_addresses(2) [OF e2] random_addresses(2) [OF e3] random_addresses(2) [OF e4] random_addresses(2) [OF e5] random_addresses(2) [OF e6] random_addresses(1) [OF e7] random_addresses(1) [OF e8] random_addresses(1) [OF e9] random_addresses(1) [OF e10] random_addresses(1) [OF e11] random_addresses(1) [OF e12] by simp
  then have "\<forall>p. address_valid (mac p) \<and> mac p \<noteq> ETHERNET_BROADCAST"
    by (auto simp: mac_def address_valid_def ETHERNET_BROADCAST_def dest!: map_of_SomeD set_zip_rightD split: option.split)
  moreover have "map mac places = drawn_addresses rd g"
    by (simp add: drawn_addresses_def numeral_eq_Suc e0 e1 e2 e3 e4 e5 e6 e7 e8 e9 e10 e11 e12) (simp add: m places_def host_names_def)
  ultimately show thesis using that by blast
qed

lemma routing_table_add_routes: "routing_table r = routing_table r' \<Longrightarrow> routing_table (add_routes rs r) = routing_table (add_routes rs r')"
proof (induction rs arbitrary: r r')
  case (Cons x rs)
  obtain p l h n where "x = (p, l, h, n)" by (cases x)
  moreover have "routing_table (add_route p l h n r) = routing_table (add_route p l h n r')" using Cons.prems by (simp add: add_route_def Let_def)
  ultimately show ?case using Cons.IH [of "add_route p l h n r" "add_route p l h n r'"] by (simp add: add_routes_def)
qed (simp add: add_routes_def)

lemma interfaces_add_routes [simp]: "interfaces (add_routes rs r) = interfaces r"
proof (induction rs arbitrary: r)
  case (Cons x rs)
  obtain p l h n where "x = (p, l, h, n)" by (cases x)
  then show ?case using Cons.IH by (simp add: add_routes_def)
qed (simp add: add_routes_def)

lemma next_hops:
  assumes "connected (At n) (Port k)"
  shows "(n, k) \<in> {(''applesauce'', 1), (''cherrypie'', 3), (''dm42'', 4), (''dm43'', 4), (''default_router'', 0), (''hs_router'', 5)}"
  using assms unfolding connected_def links_def by fastforce

lemma built_network_ready:
  assumes "\<forall>p. address_valid (mac p) \<and> mac p \<noteq> ETHERNET_BROADCAST"
  shows "network_ready mac (built_network mac)"
proof -
  let ?b = "built_network mac" and ?\<sigma> = "\<lambda>p. async_new (ni_new (mac p) (inet_address (ip_at p) 0))"
  have t: "routing_table (net_router ?b) = routing_table (add_routes network_routes router_new)"
    by (simp add: built_network_def router_new_def) (rule routing_table_add_routes, simp)
  have ports: "[0..<7] = [0, 1, 2, 3, 4, 5, 6 :: nat]" by code_simp
  have "interfaces (net_router ?b) = map (\<lambda>k. ?\<sigma> (Port k)) [0..<7]" unfolding ports by (simp add: built_network_def)
  then have r: "net_router ?b = \<lparr>interfaces = map (\<lambda>k. ?\<sigma> (Port k)) [0..<7], routing_table = routing_table (net_router ?b)\<rparr>" by simp
  have h: "map (\<lambda>(n, h). (n, h\<lparr>host_interface := ?\<sigma> (At n)\<rparr>)) (net_hosts ?b) = net_hosts ?b" by (simp add: built_network_def new_host_def)
  have "?b = network_at ?b ?\<sigma>" unfolding network_at_def h r [symmetric] by simp
  moreover have "laid_out ?b" by (simp add: laid_out_def built_network_def host_names_def new_host_def)
  moreover have "hosts_ready ?b"
    by (auto simp: hosts_ready_def built_network_def new_host_def ip_at_simps dest!: next_hops)
  moreover have "all_quiet mac ?\<sigma>"
  proof -
    have "ni_inv (ip_at p) (ni_new (mac p) (inet_address (ip_at p) 0))" for p using assms by (simp add: ni_inv_new)
    then show ?thesis by (auto simp: all_quiet_def placed_def station_def async_new_def ni_new_def waiting_def omap_simps)
  qed
  ultimately show ?thesis using t unfolding network_ready_def by blast
qed

lemma get_masks:
  "get_mask 0 = 0" "get_mask 8 = 0xff000000" "get_mask 16 = 0xffff0000" "get_mask 17 = 0xffff8000" "get_mask 18 = 0xffffc000"
  "get_mask 19 = 0xffffe000" "get_mask 24 = 0xffffff00"
  by code_simp+

lemma connected_links: "(k, n) \<in> set links \<Longrightarrow> connected (Port k) (At n)" "(k, n) \<in> set links \<Longrightarrow> connected (At n) (Port k)"
  unfolding connected_def by blast+

lemma network_route_targets:
  "routes_to 0xc0a80002 ''cherrypie''" "routes_to 0x0a000002 ''applesauce''" "routes_to 0x01020304 ''default_router''" "routes_to 0x8fc38311 ''hs_router''"
  "routes_to 0x8fc3c134 ''hs_router''" "routes_to 0x8fc3dfff ''hs_router''" "routes_to 0x8fc3e000 ''default_router''" "routes_to 0xc6b2e52b ''dm43''"
proof -
  note L = network_routes_def prefix_match_mask get_masks
  have c: "connected (Port 0) (At ''default_router'')" "connected (Port (Suc 0)) (At ''applesauce'')" "connected (Port 3) (At ''cherrypie'')"
    "connected (Port 5) (At ''hs_router'')" "connected (Port 4) (At ''dm43'')"
    by (rule connected_links, simp add: links_def)+
  show "routes_to 0xc0a80002 ''cherrypie''" "routes_to 0x0a000002 ''applesauce''" "routes_to 0x01020304 ''default_router''" "routes_to 0x8fc38311 ''hs_router''"
    "routes_to 0x8fc3c134 ''hs_router''" "routes_to 0x8fc3dfff ''hs_router''" "routes_to 0x8fc3e000 ''default_router''" "routes_to 0xc6b2e52b ''dm43''"
    unfolding routes_to_def by (simp_all add: L c ip_at_simps)
qed

subsection \<open>The simulation succeeds\<close>

text \<open>The three stations on the link of \<open>dm42\<close> and \<open>dm43\<close> have different Ethernet addresses.\<close>

definition addresses_differ :: "sim_network \<Rightarrow> bool" where
  "addresses_differ net \<longleftrightarrow> distinct (map (\<lambda>i. ni_ethernet_address (netif i))
     (interfaces (net_router net) ! 4 # map (host_interface \<circ> snd) (filter (\<lambda>(n, h). n \<in> {''dm42'', ''dm43''}) (net_hosts net))))"

lemma built_macs_ok:
  assumes "\<forall>p. address_valid (mac p) \<and> mac p \<noteq> ETHERNET_BROADCAST" and "addresses_differ (built_network mac)"
  shows "macs_ok mac"
  using assms by (simp add: macs_ok_def addresses_differ_def built_network_def new_host_def async_new_def ni_new_def)

lemma traffic_to_host_ok:
  assumes macs: "macs_ok mac" and net: "network_ready mac net" and a: "(k, a) \<in> set links" "sends a" and m: "routes_to (ip_at (At m)) m" "m \<in> set host_names"
  obtains net' g' where "traffic_to_host rd a m net g = Some (net', g')" "network_ready mac net'"
proof -
  obtain h where "find_host m net = Some h" "ipv4_numeric (my_address h) = Some (ip_at (At m))"
    by (rule network_readyD [OF net m(2)]) simp
  moreover from traffic_ok [OF macs net connected_links(2) [OF a(1)] a(2) this(2) m, where rd = rd and g = g] obtain net' where
    "traffic rd a (my_address h) m net g = Some (net', snd (rd g))" "network_ready mac net'" by (elim exE conjE)
  ultimately show thesis using that by (simp add: traffic_to_host_def)
qed

lemma traffic_to_ip_ok:
  assumes macs: "macs_ok mac" and net: "network_ready mac net" and a: "(k, a) \<in> set links" "sends a" and m: "routes_to x m" "m \<in> set host_names"
    and str: "address_of_ip gai str 0 = Some (inet_address x 0)"
  obtains net' g' where "traffic_to_ip rd gai a str m net g = Some (net', g')" "network_ready mac net'"
  using traffic_ok [OF macs net connected_links(2) [OF a(1)] a(2) ipv4_numeric_inet [of x 0] m, where rd = rd and g = g] str that by (auto simp: traffic_to_ip_def)

text \<open>
  C8. The simulation succeeds. On the network of seven ports and six hosts, whatever the random numbers are
  as long as the three stations that share a link get different Ethernet addresses, the program reaches its
  end without a throw: every address and route is accepted, each of the eight datagrams sent, the first ones
  while no Ethernet address is known yet, is received by exactly the host the longest matching prefix leads
  to and by no other, and the two with a spent time to live are received by nobody. The resolver is a
  parameter: it reads a dotted quad as its number, and \<open>0\<close> as the address 0.
\<close>

theorem simulation_succeeds:
  assumes gai: "numeric_resolver gai gni" and zero: "address_of_ip gai ''0'' 0 = Some (inet_address 0 0)"
    and differ: "\<And>net g'. sim_network_new rd gai g = Some (net, g') \<Longrightarrow> addresses_differ net"
  shows "\<exists>net g'. network_simulator rd gai g = Some (net, g')"
proof -
  obtain mac g0 where new: "sim_network_new rd gai g = Some (built_network mac, g0)" and v: "\<forall>p. address_valid (mac p) \<and> mac p \<noteq> ETHERNET_BROADCAST"
    by (rule sim_network_new_ok [OF gai zero])
  have macs: "macs_ok mac" using built_macs_ok [OF v differ [OF new]] .
  have l: "(1, ''applesauce'') \<in> set links" "(3, ''cherrypie'') \<in> set links" "(4, ''dm42'') \<in> set links" by (simp_all add: links_def)
  have s: "sends ''applesauce''" "sends ''cherrypie''" "sends ''dm42''" by (simp_all add: sends_def host_names_def)
  have h: "''cherrypie'' \<in> set host_names" "''applesauce'' \<in> set host_names" "''default_router'' \<in> set host_names" "''hs_router'' \<in> set host_names"
    "''dm43'' \<in> set host_names" by (simp_all add: host_names_def)
  note A = address_quads [OF gai] and R = network_route_targets
  have to: "routes_to (ip_at (At ''cherrypie'')) ''cherrypie''" "routes_to (ip_at (At ''applesauce'')) ''applesauce''" "routes_to (ip_at (At ''dm43'')) ''dm43''"
    using R by (simp_all add: ip_at_simps)
  obtain n1 g1 where 1: "traffic_to_host rd ''applesauce'' ''cherrypie'' (built_network mac) g0 = Some (n1, g1)" "network_ready mac n1"
    by (rule traffic_to_host_ok [OF macs built_network_ready [OF v] l(1) s(1) to(1) h(1)])
  obtain n2 g2 where 2: "traffic_to_host rd ''cherrypie'' ''applesauce'' n1 g1 = Some (n2, g2)" "network_ready mac n2"
    by (rule traffic_to_host_ok [OF macs 1(2) l(2) s(2) to(2) h(2)])
  obtain n3 g3 where 3: "traffic_to_ip rd gai ''applesauce'' ''1.2.3.4'' ''default_router'' n2 g2 = Some (n3, g3)" "network_ready mac n3"
    by (rule traffic_to_ip_ok [OF macs 2(2) l(1) s(1) R(3) h(3) A(23)])
  obtain n4 g4 where 4: "traffic_to_ip rd gai ''applesauce'' ''143.195.131.17'' ''hs_router'' n3 g3 = Some (n4, g4)" "network_ready mac n4"
    by (rule traffic_to_ip_ok [OF macs 3(2) l(1) s(1) R(4) h(4) A(24)])
  obtain n5 g5 where 5: "traffic_to_ip rd gai ''cherrypie'' ''143.195.193.52'' ''hs_router'' n4 g4 = Some (n5, g5)" "network_ready mac n5"
    by (rule traffic_to_ip_ok [OF macs 4(2) l(2) s(2) R(5) h(4) A(25)])
  obtain n6 g6 where 6: "traffic_to_ip rd gai ''cherrypie'' ''143.195.223.255'' ''hs_router'' n5 g5 = Some (n6, g6)" "network_ready mac n6"
    by (rule traffic_to_ip_ok [OF macs 5(2) l(2) s(2) R(6) h(4) A(26)])
  obtain n7 g7 where 7: "traffic_to_ip rd gai ''cherrypie'' ''143.195.224.0'' ''default_router'' n6 g6 = Some (n7, g7)" "network_ready mac n7"
    by (rule traffic_to_ip_ok [OF macs 6(2) l(2) s(2) R(7) h(3) A(27)])
  obtain n8 g8 where 8: "traffic_to_host rd ''dm42'' ''dm43'' n7 g7 = Some (n8, g8)" "network_ready mac n8"
    by (rule traffic_to_host_ok [OF macs 7(2) l(3) s(3) to(3) h(5)])
  note E = expiring_ok [OF macs _ connected_links(2) [OF l(1)] s(1) A(23) ipv4_numeric_inet]
  obtain n9 g9 where 9: "expiring_traffic rd gai ''applesauce'' ''1.2.3.4'' 1 n8 g8 = Some (n9, g9)" "network_ready mac n9"
    using E [OF 8(2), where ttl = 1 and rd = rd and g = g8] by auto
  obtain n10 g10 where 10: "expiring_traffic rd gai ''applesauce'' ''1.2.3.4'' 0 n9 g9 = Some (n10, g10)"
    using E [OF 9(2), where ttl = 0 and rd = rd and g = g9] by auto
  show ?thesis using new 1(1) 2(1) 3(1) 4(1) 5(1) 6(1) 7(1) 8(1) 9(1) 10 by (simp add: network_simulator_def)
qed

text \<open>Random numbers that count up, for the witness.\<close>

definition counting :: "nat random" where
  "counting n = (of_nat n, Suc n)"

lemma counting_addresses: "addresses_differ net" if new: "sim_network_new counting plain_getaddrinfo 0 = Some (net, g')"
proof -
  have gai: "numeric_resolver plain_getaddrinfo plain_getnameinfo" by (rule plain_resolver)
  have zero: "address_of_ip plain_getaddrinfo ''0'' 0 = Some (inet_address 0 0)" by code_simp
  obtain mac g0 where n: "net = built_network mac" and m: "map mac places = drawn_addresses counting 0"
    using new by (metis (no_types) sim_network_new_ok [OF gai zero] option.inject prod.inject)
  have "map mac [Port 4, At ''dm42'', At ''dm43''] = map (\<lambda>i. drawn_addresses counting 0 ! i) [4, 11, 12]"
    unfolding m [symmetric] by (simp add: places_def host_names_def)
  also have "distinct \<dots>" by code_simp
  finally show ?thesis unfolding n by (simp add: addresses_differ_def built_network_def new_host_def async_new_def ni_new_def)
qed

theorem simulation_succeeds_witness: "\<exists>net g'. network_simulator counting plain_getaddrinfo 0 = Some (net, g')"
  by (rule simulation_succeeds [OF plain_resolver _ counting_addresses]) code_simp

end
