(* ===== verification/Spec2Isabelle.thy ===== *)
theory Spec2Isabelle
  imports Socket_Network Stream_Copy Network_Simulator
begin

text \<open>
  \<^bold>\<open>Sponge\<close>: a TCP implementation in C++ with the layers below it. This development models the library,
  \<open>src/libsponge\<close>, the copy loop that the programs in \<open>src/apps\<close> share and
  the network simulator among them, as functions and proves what its parts promise.

  \<^bold>\<open>The program.\<close> A \<open>TCPConnection\<close> owns a \<open>TCPSender\<close> and a \<open>TCPReceiver\<close>. The sender reads bytes from a
  \<open>ByteStream\<close>, cuts them into \<open>TCPSegment\<close>s that fit the peer's window, and sends them again until they are
  acknowledged. The receiver turns 32-bit sequence numbers (\<open>WrappingInt32\<close>) into stream indices and hands
  payloads to a \<open>StreamReassembler\<close>, which writes them in order into a second \<open>ByteStream\<close>. The connection
  stamps outgoing segments with acknowledgment and window, answers, resets and closes. Segments travel through
  an adapter, in UDP or in IPv4 datagrams; datagrams travel in Ethernet frames through a \<open>NetworkInterface\<close>,
  which resolves addresses by ARP; a \<open>Router\<close> forwards datagrams between interfaces. A \<open>TCPSpongeSocket\<close> runs a
  connection in a thread of its own: an \<open>EventLoop\<close> around \<open>poll\<close> moves bytes between the owner's pipe, the
  connection and the adapter, through \<open>FileDescriptor\<close>s. Headers of all layers are read by \<open>NetParser\<close> and written by \<open>NetUnparser\<close> over \<open>Buffer\<close>s.

  \<^bold>\<open>Conventions.\<close> A class or struct is a record, a method a function from the old object to the new one, beside
  its result. Integers keep their width: \<open>size_t\<close> and \<open>uint64_t\<close> are \<open>u64\<close>, a 64-bit word, and so on, and \<open>+\<close>
  wraps. A throw is \<^const>\<open>None\<close>; so is a loop that never returns, when it is a partial function. Output to the
  console, all of it for debugging, is left out. Code outside the repository is a parameter: the resolver
  functions \<open>getaddrinfo\<close> and \<open>getnameinfo\<close>, of which \<open>numeric_resolver\<close> states the documented behaviour on
  numeric strings, the random number generator, and the system calls, functions of the state of the kernel that
  return a value, \<open>errno\<close> and the new state; \<open>writes_through\<close>, \<open>reads_through\<close>, \<open>kernel_ok\<close> and \<open>tun_device_ok\<close>
  state what they are documented to do when they succeed. A random initial sequence number is an argument.

  \<^bold>\<open>The theories,\<close> from the bottom up; each group names the files it models.

  \<^item> \<open>Sponge_Prelude\<close>: word types, and arithmetic of words as natural numbers.
  \<^item> \<open>Byte_Stream\<close> (\<open>byte_stream.hh\<close>, \<open>.cc\<close>): the ring buffer with its counters. Its abstraction \<open>bs_view\<close> is the
    list of buffered bytes; the locale \<open>byte_queue\<close> is the contract of a bounded queue, and any interleaving of
    writes and reads is first-in first-out. Popping more than is buffered wraps the size around.
  \<^item> \<open>Stream_Reassembler\<close> (\<open>stream_reassembler.hh\<close>, \<open>.cc\<close>): chunk list, merging, clipping to the window. The
    reference behaviour \<open>arrivals\<close> computes from the pushes and reads alone which indices have arrived in the window and how
    much has been read; the reassembler gives exactly that, whatever the order, and the end of the stream
    exactly when it is complete.
  \<^item> \<open>Wrapping_Integers\<close> (\<open>wrapping_integers.hh\<close>, \<open>.cc\<close>): \<open>unwrap\<close> is the closest preimage of \<open>wrap\<close>.
  \<^item> \<open>Net_Buffer\<close>, \<open>Net_Parser\<close>, \<open>Internet_Checksum\<close> (\<open>util/buffer\<close>, \<open>util/parser\<close>, the checksum of \<open>util/util\<close>):
    buffers that drop prefixes (locale \<open>prefix_store\<close>), big-endian integers, the one's complement checksum.
  \<^item> \<open>TCP_Config\<close>, \<open>TCP_Segment\<close> (\<open>tcp_config.hh\<close>, \<open>tcp_header\<close>, \<open>tcp_segment\<close>): fields, parsing and serialization.
    The locale \<open>wire_format\<close> is the round-trip contract of the headers of all layers.
  \<^item> \<open>TCP_Receiver\<close>, \<open>TCP_Sender\<close> (\<open>tcp_receiver\<close>, \<open>tcp_sender\<close>): one segment received; filling the window,
    acknowledgments, timeouts with exponential backoff. \<open>fill_window\<close> is a loop without a bound; it is proved to
    return.
  \<^item> \<open>TCP_Connection\<close>, \<open>TCP_Lifecycle\<close> (\<open>tcp_connection\<close>, \<open>tcp_state\<close>): every operation of a connection. The locale
    \<open>connection_parts\<close> says what a connection keeps if its two parts keep it; it is instantiated for arbitrary
    input, and in \<open>TCP_Network\<close> for honest peers. No input makes a connection throw; the handshake reaches
    \<open>ESTABLISHED\<close>; ticks abort or shut down; a closed connection is silent.
  \<^item> \<open>IPv4_Datagram\<close>, \<open>Ethernet_Frame\<close>, \<open>ARP_Message\<close>, \<open>Net_Address\<close> (\<open>ipv4_header\<close>, \<open>ipv4_datagram\<close>,
    \<open>ethernet_header\<close>, \<open>ethernet_frame\<close>, \<open>arp_message\<close>, \<open>util/address\<close>): round trips, and the exact outcome of
    parsing arbitrary bytes.
  \<^item> \<open>Ordered_Map\<close>: what the code uses of \<open>std::map\<close>, with its contract \<open>map_store\<close>.
  \<^item> \<open>Network_Interface\<close> (\<open>network_interface\<close>): sending, receiving, expiry; requests are rate limited in every run,
    and address resolution delivers what waited for it.
  \<^item> \<open>Router\<close> (\<open>router\<close>): routing is longest-prefix match, and \<open>route\<close> forwards everything.
  \<^item> \<open>FD_Adapter\<close> (\<open>fd_adapter\<close>, \<open>tcp_over_ip\<close>, \<open>tuntap_adapter\<close>, \<open>lossy_fd_adapter.hh\<close>, \<open>FdAdapterConfig\<close>): the locale
    \<open>segment_channel\<close> is the contract of an adapter, instantiated for UDP and for TUN.
  \<^item> \<open>TCP_Network\<close>: two connections and an unreliable network as a step relation. Below, the two are put
    together: what is read at one end is a prefix of what was written at the other.
  \<^item> \<open>File_Descriptor\<close>, \<open>Event_Loop\<close>, \<open>Net_Socket\<close> (\<open>util/file_descriptor\<close>, \<open>util/eventloop\<close>, \<open>util/socket\<close>, \<open>SystemCall\<close> of
    \<open>util/util\<close>): the loop of \<open>write\<close> hands over the whole buffer; the locale \<open>event_client\<close> is what the rules of
    an event loop have to promise each other so that a pass cannot throw and does what the rules do; an
    error of \<open>poll\<close> is swallowed. \<open>adapter\<close> is the interface \<open>AdaptT\<close>, with the adapters as its instances.
  \<^item> \<open>Sponge_Socket\<close> (\<open>tcp_sponge_socket\<close>): the state of a socket, its four rules, the loop with its ticks,
    \<open>connect\<close>, \<open>listen_and_accept\<close> and the thread. The loop may run for ever and is a partial function whose result
    tells a throw (\<open>Some None\<close>) from a loop that does not end (\<^const>\<open>None\<close>).
  \<^item> \<open>Socket_Relay\<close>, \<open>Socket_Adapter\<close>: each rule and each tick is a run of an endpoint of \<open>TCP_Network\<close>, for every
    kernel and every adapter that keep their contracts; the socket is an \<open>event_client\<close>, and the adapter
    over a TUN device keeps the contract of adapters.
  \<^item> \<open>Socket_Network\<close>: two hosts, and their runs as runs of the network of connections. Passes do not throw, sockets
    stay well-formed, the loop ends only when everything is done, and early input breaks a listening socket.
    A plain kernel shows that the contracts can be met. Below, two sockets deliver.
  \<^item> \<open>Stream_Copy\<close> (\<open>apps/bidirectional_stream_copy\<close>): standard input and output relayed through a socket, as another
    \<open>event_client\<close>. The loop may run for ever and is a partial function; it is proved to end when both inputs do and
    no call fails, and everything has been copied then.
  \<^item> \<open>Network_Simulator\<close> (\<open>apps/network_simulator\<close>): hosts, links and a router with seven ports. A pass over the links
    is described place by place (\<open>wires\<close>, \<open>forward\<close>), a scenario as the hops of one datagram (\<open>first_hop\<close>, \<open>routed\<close>,
    \<open>expired\<close>), and the program is proved to reach its end with every check passed. The 256 rounds are those of the
    code; a datagram has arrived after at most a handful of them, and the others change nothing.

  \<^bold>\<open>Bounds.\<close> Lengths of strings are below \<open>2 ^ 64\<close> and capacities below \<open>2 ^ 63\<close>, as for objects in memory. A stream
  between two connections has fewer than \<open>2 ^ 31 - 4\<close> bytes: \<open>unwrap\<close> looks for the number closest to the
  bytes assembled so far, and an old segment can be that far behind. Checksums are sums in 32 bits, so the
  segments they are computed over have at most about 65,000 bytes, as all IPv4 payloads have. No definition
  uses fuel: loops are structural recursions, or partial functions that are proved to return.

  The theorems on sockets start when both connections have sent their SYN, and assume, pass by pass, that the
  stream counters are below about \<open>2 ^ 63\<close>; by \<open>kernel_ok\<close> the calls on the owner's pipe succeed and \<open>poll\<close> reports no
  \<open>POLLERR\<close> and no \<open>POLLNVAL\<close>, on which the event loop throws.

  \<^bold>\<open>Not modelled.\<close> The start and the join of the thread of a \<open>TCPSpongeSocket\<close>, as scheduling is the business of the
  operating system; its owner acts between the passes of the loop. The functions of \<open>Socket\<close> and \<open>TunFD\<close> that only
  pass arguments to the kernel, the clock, the random seed and the hexdump of \<open>util.cc\<close>, the functions that print
  headers, and the other programs in \<open>src/apps\<close>: all of this is input and output around the parts above. The files
  \<open>tcp_connection_current.cc\<close>, \<open>tcp_connection_w_comments.cc\<close> and \<open>tcp_connection_old.cc\<close> are a copy of
  \<open>tcp_connection.cc\<close>, an older version of it and an empty file.
\<close>

section \<open>The stack as a whole\<close>

lemma network_reachable:
  fixes config1 config2 :: tcp_config and random1 random2 :: u32
  assumes "config_ok config1" and "config_ok config2"
    and "net_step\<^sup>*\<^sup>* (network_new config1 random1 config2 random2) n"
    and "compatible xs (left n)" and "compatible ys (right n)" and "short xs" and "short ys"
  shows "net_inv xs (snd_isn (sender (conn_new config1 random1))) (recv_capacity config1)
    ys (snd_isn (sender (conn_new config2 random2))) (recv_capacity config2) n"
proof (rule net_inv_reach [OF assms(3) _ _ _ assms(4-7)])
  show "net_inv xs (snd_isn (sender (conn_new config1 random1))) (recv_capacity config1)
      ys (snd_isn (sender (conn_new config2 random2))) (recv_capacity config2)
      (network_new config1 random1 config2 random2)" for xs ys
    using assms(1,2) ep_inv_new by (simp add: net_inv_def network_new_def config_ok_def)
qed (use assms(1,2) in \<open>simp_all add: config_ok_def\<close>)

lemma network_delivery:
  assumes ok: "config_ok config1" "config_ok config2"
    and run: "net_step\<^sup>*\<^sup>* (network_new config1 random1 config2 random2) n"
    and len: "length (written (left n)) + 4 < 2 ^ 31" "length (written (right n)) + 4 < 2 ^ 31"
  shows "prefix (got (right n)) (written (left n)) \<and> prefix (got (left n)) (written (right n)) \<and>
    (bs_eof (rcv_stream_out (receiver (conn (right n)))) \<longrightarrow> finished (left n) \<and> got (right n) = written (left n)) \<and>
    (bs_eof (rcv_stream_out (receiver (conn (left n)))) \<longrightarrow> finished (right n) \<and> got (left n) = written (right n))"
proof -
  note R = network_reachable [OF ok run]
  have sh: "short (written (left n))" "short (written (right n))" using len by (simp_all add: short_def)
  have right: "receives ((!) zs) (length zs) (recv_capacity config2) (snd_isn (sender (conn_new config1 random1)))
      (length (got (right n))) (receiver (conn (right n))) \<and> got (right n) = map ((!) zs) [0..<length (got (right n))]"
    if "compatible zs (left n)" "short zs" for zs
    using R [OF that(1) compatible_refl that(2) sh(2)] ep_invD(2,3) unfolding net_inv_def by blast
  have left: "receives ((!) zs) (length zs) (recv_capacity config1) (snd_isn (sender (conn_new config2 random2)))
      (length (got (left n))) (receiver (conn (left n))) \<and> got (left n) = map ((!) zs) [0..<length (got (left n))]"
    if "compatible zs (right n)" "short zs" for zs
    using R [OF compatible_refl that(1) sh(1) that(2)] ep_invD(2,3) unfolding net_inv_def by blast
  have eof: "bs_eof s \<Longrightarrow> input_ended s" for s by (simp add: bs_eof_def)
  note P = receives_prefix [OF conjunct1 [OF right] conjunct2 [OF right], OF compatible_refl sh(1) compatible_refl sh(1)]
    receives_prefix [OF conjunct1 [OF left] conjunct2 [OF left], OF compatible_refl sh(2) compatible_refl sh(2)]
  show ?thesis
    using P ended_finished [OF right len(1)] ended_finished [OF left len(2)] eof by blast
qed

text \<open>
  C1. Reliable delivery. Two connections, opened, written to, read from, closed and ticked by their
  applications in any way, with a network between them that loses, repeats, delays and reorders the
  segments at will: as long as fewer than \<open>2 ^ 31 - 4\<close> bytes are written in each direction, what an
  application has read is a prefix of what the other one has written; when a stream reports its end, the
  writer has closed it and every byte has been read; and no segment that arrives makes a connection
  throw.
\<close>

theorem reliable_delivery:
  assumes ok: "config_ok config1" "config_ok config2"
    and run: "net_step\<^sup>*\<^sup>* (network_new config1 random1 config2 random2) n"
    and len: "length (written (left n)) + 4 < 2 ^ 31" "length (written (right n)) + 4 < 2 ^ 31"
  shows "prefix (got (right n)) (written (left n)) \<and> prefix (got (left n)) (written (right n)) \<and>
    (bs_eof (rcv_stream_out (receiver (conn (right n)))) \<longrightarrow> finished (left n) \<and> got (right n) = written (left n)) \<and>
    (bs_eof (rcv_stream_out (receiver (conn (left n)))) \<longrightarrow> finished (right n) \<and> got (left n) = written (right n)) \<and>
    (\<forall>s \<in> from_left n. \<forall>seg. same_segment seg s \<longrightarrow> conn_segment_received seg (conn (right n)) \<noteq> None) \<and>
    (\<forall>s \<in> from_right n. \<forall>seg. same_segment seg s \<longrightarrow> conn_segment_received seg (conn (left n)) \<noteq> None)"
proof -
  have sh: "short (written (left n))" "short (written (right n))" using len by (simp_all add: short_def)
  note E = network_reachable [OF ok run compatible_refl compatible_refl sh, unfolded net_inv_def]
  have "conn_segment_received seg (conn (right n)) \<noteq> None" if "s \<in> from_left n" "same_segment seg s" for s seg
    using E that ok(2) by (intro honest_receive [of _ _ _ _ _ "right n" s, OF _ _ that(2) sh(1)]) (auto simp: config_ok_def)
  moreover have "conn_segment_received seg (conn (left n)) \<noteq> None" if "s \<in> from_right n" "same_segment seg s" for s seg
    using E that ok(1) by (intro honest_receive [of _ _ _ _ _ "left n" s, OF _ _ that(2) sh(2)]) (auto simp: config_ok_def)
  ultimately show ?thesis using network_delivery [OF ok run len] by blast
qed

theorem reliable_delivery_witness:
  "\<exists>n c. net_step\<^sup>*\<^sup>* (network_new tcp_config_default 1 tcp_config_default 2) n \<and>
     connect (conn_new tcp_config_default 1) = Some c \<and> from_left n = set (conn_segments_out c) \<and>
     (\<forall>s \<in> from_left n. conn_segment_received s (conn (right n)) \<noteq> None)"
proof -
  let ?n0 = "network_new tcp_config_default 1 tcp_config_default 2"
  note ok = config_ok_default
  have "conn_inv (conn_new tcp_config_default 1)" using ok by (intro conn_inv_new) (simp_all add: config_ok_def)
  then obtain c where c: "connect (conn_new tcp_config_default 1) = Some c"
    using any_input.holds_connect by (auto simp: conn_inv_def)
  define e1 where "e1 = (endpoint_new tcp_config_default 1)\<lparr>conn := c\<rparr>"
  define n1 where "n1 = ?n0\<lparr>left := e1\<rparr>"
  define n2 where "n2 = n1\<lparr>left := e1\<lparr>conn := (conn e1)\<lparr>conn_segments_out := []\<rparr>\<rparr>, from_left := set (conn_segments_out c)\<rparr>"
  have "ep_step {} (endpoint_new tcp_config_default 1) [] e1"
    unfolding e1_def by (rule ep_connect) (simp add: endpoint_new_def c)
  from step_left [of ?n0 "[]" e1] this have "net_step ?n0 n1" by (simp add: network_new_def n1_def)
  moreover have "net_step n1 n2"
    using step_left [OF ep_send, of n1] by (simp add: n1_def n2_def e1_def network_new_def)
  ultimately have run: "net_step\<^sup>*\<^sup>* ?n0 n2" by simp
  have "\<forall>s \<in> from_left n2. \<forall>seg. same_segment seg s \<longrightarrow> conn_segment_received seg (conn (right n2)) \<noteq> None"
    using reliable_delivery [OF ok ok run]
    by (simp add: n2_def n1_def e1_def network_new_def endpoint_new_def)
  then have "\<forall>s \<in> from_left n2. conn_segment_received s (conn (right n2)) \<noteq> None"
    by (simp add: same_segment_def tcp_header_eq_def wi_eq_def)
  with run c show ?thesis by (auto simp: n2_def)
qed

text \<open>
  C2. Two sockets deliver. Two hosts run a \<open>TCPSpongeSocket\<close> each, on kernels whose calls succeed and over adapters
  that carry segments; the network between them loses, repeats, delays and reorders datagrams. From a state
  behind which there is a reachable network, and after any interleaving of passes of the two event loops, ticks,
  arrivals and input of the owners: what one owner has been given is a prefix of what the other one has handed in,
  and when the inbound stream of a connection is at its end, the other side has been shut down and all of it has
  been given to the owner.
\<close>

theorem sockets_deliver:
  assumes ok: "config_ok config1" "config_ok config2" and hosts: "host_ok carries h1" "host_ok carries h2"
    and start: "net_step\<^sup>*\<^sup>* (network_new config1 random1 config2 random2) n0" "behind carries h1 h2 s0 n0"
      "running_ok h1 (fst s0)" "running_ok h2 (snd s0)"
    and run: "(hosts_step h1 h2)\<^sup>*\<^sup>* s0 ((rules1, w1), (rules2, w2))"
    and len: "length (from_owner (hist h1) (kernel w1)) + 4 < 2 ^ 31" "length (from_owner (hist h2) (kernel w2)) + 4 < 2 ^ 31"
  shows "prefix (to_owner (hist h2) (kernel w2)) (from_owner (hist h1) (kernel w1)) \<and>
    prefix (to_owner (hist h1) (kernel w1)) (from_owner (hist h2) (kernel w2)) \<and>
    (tcp_interest (\<lambda>c. bs_eof (rcv_stream_out (receiver c))) w2 \<longrightarrow>
       outbound_shutdown w1 \<and> to_owner (hist h2) (kernel w2) = from_owner (hist h1) (kernel w1)) \<and>
    (tcp_interest (\<lambda>c. bs_eof (rcv_stream_out (receiver c))) w1 \<longrightarrow>
       outbound_shutdown w2 \<and> to_owner (hist h1) (kernel w1) = from_owner (hist h2) (kernel w2))"
proof -
  obtain n where n: "net_step\<^sup>*\<^sup>* n0 n" "behind carries h1 h2 ((rules1, w1), (rules2, w2)) n"
    using behind_run [OF run hosts start(3,4,2)] by blast
  have e: "left n = ep_of (hist h1) w1" "right n = ep_of (hist h2) w2" using n(2) by (simp_all add: behind_def)
  have "net_step\<^sup>*\<^sup>* (network_new config1 random1 config2 random2) n" using start(1) n(1) by (rule rtranclp_trans)
  from network_delivery [OF ok this] len show ?thesis
    by (simp add: e ep_of_def tcp_interest_def split: option.splits)
qed

theorem sockets_deliver_witness:
  "\<exists>s0 rules1 w1 rules2 w2. (hosts_step (plain_host (\<lambda>i. i = 1)) (plain_host (\<lambda>i. True)))\<^sup>*\<^sup>* s0 ((rules1, w1), (rules2, w2)) \<and>
     taken_in (kernel (snd (fst s0))) = [] \<and> taken_in (kernel w1) = [1, 2, 3] \<and> prefix (passed_on (kernel w2)) [1, 2, 3]"
proof -
  let ?h1 = "plain_host (\<lambda>i. i = 1)" and ?h2 = "plain_host (\<lambda>i. True)"
  let ?r1 = "socket_rules (plain_calls (\<lambda>i. i = 1)) plain_ops" and ?r2 = "socket_rules (plain_calls (\<lambda>i. True)) plain_ops"
  let ?n0 = "network_new tcp_config_default 7 tcp_config_default 8"
  obtain c1 v1 where 1: "connect (conn_new tcp_config_default 7) = Some c1" "v1 = (plain_socket [1, 2, 3])\<lparr>tcp := Some c1\<rparr>" "with_room v1"
    "running_ok ?h1 (?r1, v1)" "ep_of plain_history v1 = (endpoint_new tcp_config_default 7)\<lparr>conn := c1\<rparr>" by (rule plain_connects)
  obtain c2 v2 where 2: "connect (conn_new tcp_config_default 8) = Some c2" "v2 = (plain_socket [])\<lparr>tcp := Some c2\<rparr>" "with_room v2"
    "running_ok ?h2 (?r2, v2)" "ep_of plain_history v2 = (endpoint_new tcp_config_default 8)\<lparr>conn := c2\<rparr>" by (rule plain_connects)
  define n where "n = ?n0\<lparr>left := ep_of plain_history v1, right := ep_of plain_history v2\<rparr>"
  have "ep_step inn (endpoint_new tcp_config_default 7) [] (ep_of plain_history v1)" for inn
    unfolding 1(5) by (rule ep_connect) (simp add: endpoint_new_def 1(1))
  from step_left [of ?n0, OF _] this have "net_step ?n0 (?n0\<lparr>left := ep_of plain_history v1\<rparr>)" by (fastforce simp: network_new_def)
  moreover have "ep_step inn (endpoint_new tcp_config_default 8) [] (ep_of plain_history v2)" for inn
    unfolding 2(5) by (rule ep_connect) (simp add: endpoint_new_def 2(1))
  with step_right [of "?n0\<lparr>left := ep_of plain_history v1\<rparr>"] have "net_step (?n0\<lparr>left := ep_of plain_history v1\<rparr>) n"
    by (fastforce simp: network_new_def n_def)
  ultimately have net: "net_step\<^sup>*\<^sup>* ?n0 n" by simp
  have f: "kernel v1 = \<lparr>unread = [1, 2, 3], taken_in = [], passed_on = [], on_wire = [], outbox = []\<rparr>"
    "kernel v2 = \<lparr>unread = [], taken_in = [], passed_on = [], on_wire = [], outbox = []\<rparr>"
    by (simp_all add: 1(2) 2(2) plain_socket_def)
  have start: "behind tun_carries ?h1 ?h2 ((?r1, v1), (?r2, v2)) n"
    by (simp add: behind_def f n_def) (simp add: plain_history_def)
  have "conn_relays 0 False c1" using relay_connect [OF config_ok_default, of 7] 1(1) by simp
  with plain_pass [of c1 "[1, 2, 3]" v1] connect_syn_sent(2,3) [OF config_ok_default 1(1)] 1(2) obtain rules w1 where
    w1: "loop_pass (plain_calls (\<lambda>i. i = 1)) ?r1 v1 = Some (Success, rules, w1)" "taken_in (kernel w1) = [1, 2, 3]"
    by (auto simp: tcp_config_default_def DEFAULT_CAPACITY_def)
  have "host_step ?h1 D (?r1, v1) (rules, w1)" for D
    by (rule host_pass [OF 1(3)]) (use w1(1) in \<open>simp_all add: f(1) plain_history_def\<close>)
  then have "hosts_step ?h1 ?h2 ((?r1, v1), (?r2, v2)) ((rules, w1), (?r2, v2))" by (rule left_host)
  then have run: "(hosts_step ?h1 ?h2)\<^sup>*\<^sup>* ((?r1, v1), (?r2, v2)) ((rules, w1), (?r2, v2))" by simp
  have "prefix (passed_on (kernel v2)) [1, 2, 3]"
    using sockets_deliver [OF config_ok_default config_ok_default plain_host_ok plain_host_ok net start _ _ run] 1(4) 2(4) w1(2)
    by (simp add: f plain_history_def)
  then show ?thesis using run w1(2) f(1) by fastforce
qed

end
